(* ===== verification/Prelude.thy ===== *)
theory Prelude
  imports Main "HOL-Library.Word"
begin

text \<open>
  Shared vocabulary of the development: the machine types of the x86-64 target,
  byte-addressed memory with little-endian 64-bit access, the error values that stand for
  failed assertions, panics and out-of-range accesses, and the generic facts on words and
  memory that the component theories use. Collections: \<open>word_offset\<close> for address arithmetic
  relative to a base, \<open>mem_simps\<close> for reads of updated memory.
\<close>

unbundle bit_operations_syntax

named_theorems word_offset "address arithmetic relative to a base address"
named_theorems mem_simps "reads from updated memory"

section \<open>Machine types\<close>

type_synonym byte = "8 word"
type_synonym u16 = "16 word"
type_synonym u32 = "32 word"
type_synonym u64 = "64 word"
type_synonym addr = "64 word"
type_synonym mem = "addr \<Rightarrow> byte"

section \<open>Errors\<close>

text \<open>
  A failed \<open>assert\<close>, a call of \<open>panic\<close>, an access outside an array and an execution the
  language leaves undefined all stop the modelled code; each is a value.
\<close>

datatype error =
    AssertFail string
  | Panic string
  | OutOfBounds string
  | Undefined string

type_synonym 'a result = "error + 'a"

definition bind_result :: "'a result \<Rightarrow> ('a \<Rightarrow> 'b result) \<Rightarrow> 'b result" where
  "bind_result r f = (case r of Inl e \<Rightarrow> Inl e | Inr x \<Rightarrow> f x)"

lemma bind_result_simps [simp]:
  "bind_result (Inl e) f = Inl e"
  "bind_result (Inr x) f = f x"
  by (simp_all add: bind_result_def)

lemma bind_result_Inr_iff:
  "bind_result r f = Inr y \<longleftrightarrow> (\<exists>x. r = Inr x \<and> f x = Inr y)"
  by (cases r) simp_all

definition assert_that :: "bool \<Rightarrow> string \<Rightarrow> unit result" where
  "assert_that b msg = (if b then Inr () else Inl (AssertFail msg))"

lemma assert_that_simps [simp]:
  "assert_that True msg = Inr ()"
  "assert_that False msg = Inl (AssertFail msg)"
  "assert_that b msg = Inr u \<longleftrightarrow> b"
  by (simp_all add: assert_that_def)

section \<open>Results that may be missing\<close>

text \<open>Code that may not return has values of type \<open>'a result option\<close>.\<close>

definition bind_ro :: "'a result option \<Rightarrow> ('a \<Rightarrow> 'b result option) \<Rightarrow> 'b result option" where
  "bind_ro r f = Option.bind r (\<lambda>x. case x of Inl e \<Rightarrow> Some (Inl e) | Inr a \<Rightarrow> f a)"

lemma bind_ro_simps [simp]:
  "bind_ro None f = None" "bind_ro (Some (Inl e)) f = Some (Inl e)" "bind_ro (Some (Inr a)) f = f a"
  by (simp_all add: bind_ro_def)

lemma bind_ro_mono [partial_function_mono]:
  assumes "monotone (fun_ord option_ord) option_ord B"
    and "\<And>y. monotone (fun_ord option_ord) option_ord (\<lambda>f. C y f)"
  shows "monotone (fun_ord option_ord) option_ord (\<lambda>f. bind_ro (B f) (\<lambda>y. C y f))"
proof -
  have "monotone (fun_ord option_ord) option_ord
      (\<lambda>f. case x of Inl e \<Rightarrow> Some (Inl e) | Inr a \<Rightarrow> C a f)" for x
    using assms(2) by (cases x) (auto simp: monotone_def option.leq_refl)
  then show ?thesis unfolding bind_ro_def by (intro bind_mono assms(1))
qed

section \<open>Word facts\<close>

lemma unat_dec_less: "(n :: 'a :: len word) > 0 \<Longrightarrow> unat (n - 1) < unat n"
  using unat_minus_one [of n] unat_gt_0 [of n] by (auto simp: word_gt_0)

lemma unat_dec: "(n :: 'a :: len word) > 0 \<Longrightarrow> unat (n - 1) = unat n - 1"
  using unat_minus_one [of n] by (auto simp: word_gt_0)

lemma unat_of_nat_small: "n < 2 ^ 64 \<Longrightarrow> unat (of_nat n :: u64) = n"
  by (simp add: unat_of_nat)

lemma uint_less_iff: "uint (x :: 'a :: len word) < int n \<longleftrightarrow> unat x < n"
  by (simp only: uint_nat of_nat_less_iff)

lemma sint_low:
  assumes "unat (x :: u64) < 2 ^ 63"
  shows "sint x = int (unat x)"
proof -
  have "uint x < 2 ^ 63" using assms uint_less_iff [of x "2 ^ 63"] by simp
  moreover have "- (2 ^ 63) \<le> uint x" by (rule order_trans [OF _ uint_ge_0]) simp
  ultimately have "signed_take_bit 63 (uint x) = uint x" by (simp add: signed_take_bit_int_eq_self)
  then show ?thesis by (simp add: sint_uint)
qed

lemma unat_inc: "(n :: 'a :: len word) < m \<Longrightarrow> unat (n + 1) = unat n + 1"
proof -
  assume "n < m"
  then have "n \<noteq> - 1"
    by (metis not_less word_n1_ge)
  then show ?thesis
    using unatSuc [of n] by (metis Suc_eq_plus1 add.commute add.right_neutral add_eq_0_iff)
qed

lemma offset_dec [word_offset]:
  fixes d x n :: "'a :: len word"
  assumes "n > 0"
  shows "x - (d + 1) < n - 1 \<longleftrightarrow> x \<noteq> d \<and> x - d < n"
proof (cases "x = d")
  case True
  then have "x - (d + 1) = - 1" by simp
  moreover have "\<not> (- 1 :: 'a word) < n - 1"
    by (simp add: not_less)
  ultimately show ?thesis using True by simp
next
  case False
  then have "x - d > 0" by (simp add: word_gt_0)
  then have "unat (x - d - 1) = unat (x - d) - 1" "unat (n - 1) = unat n - 1"
    using assms by (simp_all add: unat_dec)
  moreover have "x - (d + 1) = x - d - 1" by (rule diff_diff_eq [symmetric])
  ultimately have "x - (d + 1) < n - 1 \<longleftrightarrow> unat (x - d) - 1 < unat n - 1"
    by (simp only: word_less_nat_alt)
  also have "\<dots> \<longleftrightarrow> unat (x - d) < unat n"
    using \<open>x - d > 0\<close> assms by (simp only: word_less_nat_alt) auto
  finally show ?thesis
    using False by (simp add: word_less_nat_alt)
qed

section \<open>Little-endian 64-bit access\<close>

definition load64 :: "mem \<Rightarrow> addr \<Rightarrow> u64" where
  "load64 m a =
     ucast (m a) OR push_bit 8 (ucast (m (a + 1))) OR push_bit 16 (ucast (m (a + 2)))
     OR push_bit 24 (ucast (m (a + 3))) OR push_bit 32 (ucast (m (a + 4)))
     OR push_bit 40 (ucast (m (a + 5))) OR push_bit 48 (ucast (m (a + 6)))
     OR push_bit 56 (ucast (m (a + 7)))"

definition store64 :: "mem \<Rightarrow> addr \<Rightarrow> u64 \<Rightarrow> mem" where
  "store64 m a v =
     m(a := ucast v, a + 1 := ucast (drop_bit 8 v), a + 2 := ucast (drop_bit 16 v),
       a + 3 := ucast (drop_bit 24 v), a + 4 := ucast (drop_bit 32 v),
       a + 5 := ucast (drop_bit 40 v), a + 6 := ucast (drop_bit 48 v),
       a + 7 := ucast (drop_bit 56 v))"

definition aligned8 :: "addr \<Rightarrow> bool" where
  "aligned8 a \<longleftrightarrow> a AND 7 = 0"

lemma and_7_mod: "(a :: addr) AND 7 = a mod 8"
  using take_bit_eq_mask [of 3 a] take_bit_eq_mod [of 3 a] by (simp add: mask_eq_exp_minus_1)

lemma aligned8_unat: "aligned8 a \<longleftrightarrow> unat a mod 8 = 0"
  by (simp add: aligned8_def and_7_mod word_eq_iff_unsigned unat_mod flip: unat_eq_zero)

lemma unat_aligned8_add:
  assumes "aligned8 a" "unat j < 8"
  shows "unat (a + j) = unat a + unat j"
proof -
  have "unat a < 18446744073709551616" using unsigned_less [of a] by simp
  moreover have "unat a mod 8 = 0" using assms(1) by (simp add: aligned8_unat)
  ultimately have "unat a + 8 \<le> 18446744073709551616" by presburger
  then show ?thesis
    using assms(2) by (subst unat_add_lem [THEN iffD1]) simp_all
qed

lemma aligned8_add_eq:
  assumes "aligned8 a" "aligned8 b" "unat i < 8" "unat j < 8"
  shows "a + i = b + j \<longleftrightarrow> a = b \<and> i = j"
proof
  assume "a + i = b + j"
  then have "unat a + unat i = unat b + unat j"
    using assms by (metis unat_aligned8_add)
  then have "unat a = unat b \<and> unat i = unat j"
    using assms unfolding aligned8_unat by presburger
  then show "a = b \<and> i = j" by (simp add: word_unat_eq_iff)
qed simp

lemma byte_bit_high: "8 \<le> n \<Longrightarrow> \<not> bit (w :: byte) n"
  using bit_imp_le_length [of w n] by auto

lemma less_8_cases:
  "(k :: nat) < 8 \<Longrightarrow> k = 0 \<or> k = 1 \<or> k = 2 \<or> k = 3 \<or> k = 4 \<or> k = 5 \<or> k = 6 \<or> k = 7"
  by arith

lemma bit_load64_split:
  assumes "q < 8" "r < 8"
  shows "bit (load64 m a) (8 * q + r) = bit (m (a + of_nat q)) r"
  using less_8_cases [OF assms(1)] assms(2)
  by (elim disjE) (simp_all add: load64_def bit_simps byte_bit_high)

lemma bit_load64:
  "n < 64 \<Longrightarrow> bit (load64 m a) n = bit (m (a + of_nat (n div 8))) (n mod 8)"
  using bit_load64_split [of "n div 8" "n mod 8" m a] by simp

lemma load64_cong:
  assumes "\<And>j. unat j < 8 \<Longrightarrow> m (a + j) = m' (a + j)"
  shows "load64 m a = load64 m' a"
  using assms [of 0] assms [of 1] assms [of 2] assms [of 3] assms [of 4] assms [of 5]
    assms [of 6] assms [of 7]
  by (simp add: load64_def)

lemma store64_offset:
  "k < 8 \<Longrightarrow> store64 m a v (a + of_nat k) = ucast (drop_bit (8 * k) v)"
  by (drule less_8_cases, elim disjE) (simp_all add: store64_def)

lemma store64_outside: "\<not> x - a < 8 \<Longrightarrow> store64 m a v x = m x"
proof -
  assume "\<not> x - a < 8"
  then have "\<And>i. i < 8 \<Longrightarrow> x \<noteq> a + i" by auto
  from this [of 0] this [of 1] this [of 2] this [of 3] this [of 4] this [of 5]
    this [of 6] this [of 7]
  show ?thesis by (simp add: store64_def)
qed

lemma load64_store64_same [mem_simps]: "load64 (store64 m a v) a = v"
proof (rule bit_word_eqI)
  fix n assume "n < LENGTH(64)"
  then have n: "n < 64" "n div 8 < 8" by simp_all
  have "bit (load64 (store64 m a v) a) n = bit (ucast (drop_bit (8 * (n div 8)) v) :: byte) (n mod 8)"
    using n by (simp only: bit_load64 store64_offset)
  also have "\<dots> = bit v n"
    by (simp add: bit_simps)
  finally show "bit (load64 (store64 m a v) a) n = bit v n" .
qed

lemma load64_store64_other [mem_simps]:
  assumes "aligned8 a" "aligned8 b" "a \<noteq> b"
  shows "load64 (store64 m a v) b = load64 m b"
proof (rule load64_cong)
  fix j :: addr assume j: "unat j < 8"
  have "\<not> b + j - a < 8"
  proof
    assume "b + j - a < 8"
    then have "unat (b + j - a) < 8" by (simp add: word_less_nat_alt)
    with assms j aligned8_add_eq [of b a j "b + j - a"] show False by simp
  qed
  then show "store64 m a v (b + j) = m (b + j)" by (rule store64_outside)
qed

text \<open>The bytes of a string literal, without its terminator.\<close>

definition str :: "string \<Rightarrow> byte list" where
  "str s = map of_char s"

section \<open>Memory as byte sequences\<close>

text \<open>\<open>bytes m a n\<close> is the sequence of the \<open>n\<close> bytes at \<open>a\<close>, \<open>a + 1\<close>, and so on.\<close>

primrec bytes :: "mem \<Rightarrow> addr \<Rightarrow> nat \<Rightarrow> byte list" where
  "bytes m a 0 = []"
| "bytes m a (Suc n) = m a # bytes m (a + 1) n"

lemma length_bytes [simp]: "length (bytes m a n) = n"
  by (induction n arbitrary: a) simp_all

lemma nth_bytes: "i < n \<Longrightarrow> bytes m a n ! i = m (a + of_nat i)"
proof (induction n arbitrary: a i)
  case (Suc n)
  then show ?case by (cases i) (simp_all add: add.assoc)
qed simp

lemma bytes_unat_pos: "n > 0 \<Longrightarrow> bytes m a (unat n) = m a # bytes m (a + 1) (unat (n - 1))"
proof -
  assume "n > 0"
  then have "unat n = Suc (unat (n - 1))"
    using unat_gt_0 [of n] by (auto simp: unat_dec word_gt_0)
  then show ?thesis by simp
qed

lemma bytes_append: "bytes m a (i + j) = bytes m a i @ bytes m (a + of_nat i) j"
  by (induction i arbitrary: a) (simp_all add: add.assoc)

lemma bytes_cong:
  assumes "\<And>i. i < n \<Longrightarrow> m (a + of_nat i) = m' (a' + of_nat i)"
  shows "bytes m a n = bytes m' a' n"
  by (rule nth_equalityI) (simp_all add: nth_bytes assms)

end
