(* ===== verification/Arith.thy ===== *)
theory Arith
  imports Prelude
begin

text \<open>
  The arithmetic helpers of \<open>pset3/lib.hh\<close> (\<open>round_down\<close>, \<open>round_up\<close>, \<open>msb\<close>, \<open>lsb\<close>,
  \<open>round_down_pow2\<close>, \<open>round_up_pow2\<close>, \<open>is_error\<close>) on machine words of any width, with their
  mathematical meaning over the natural numbers.
\<close>

section \<open>Definitions\<close>

definition round_down :: "'a :: len word \<Rightarrow> 'a word \<Rightarrow> 'a word" where
  "round_down x m = x - x mod m"

definition round_up :: "'a :: len word \<Rightarrow> 'a word \<Rightarrow> 'a word" where
  "round_up x m = round_down (x + m - 1) m"

text \<open>\<open>clz n x\<close> counts the leading zero bits of the low \<open>n\<close> bits of \<open>x\<close>, as the compiler's
  \<open>__builtin_clz\<close> does for the whole width; \<open>ctz\<close> counts trailing zeros likewise.\<close>

primrec clz :: "nat \<Rightarrow> 'a :: len word \<Rightarrow> nat" where
  "clz 0 x = 0"
| "clz (Suc n) x = (if bit x n then 0 else Suc (clz n x))"

definition msb :: "'a :: len word \<Rightarrow> nat" where
  "msb x = (if x \<noteq> 0 then LENGTH('a) - clz LENGTH('a) x else 0)"

primrec ctz :: "nat \<Rightarrow> nat \<Rightarrow> 'a :: len word \<Rightarrow> nat" where
  "ctz i 0 x = 0"
| "ctz i (Suc n) x = (if bit x i then 0 else Suc (ctz (Suc i) n x))"

text \<open>\<open>__builtin_ffs\<close>: one plus the index of the least significant one bit, or 0.\<close>

definition lsb :: "'a :: len word \<Rightarrow> nat" where
  "lsb x = (if x \<noteq> 0 then Suc (ctz 0 LENGTH('a) x) else 0)"

definition round_down_pow2 :: "'a :: len word \<Rightarrow> 'a word" where
  "round_down_pow2 x = (if x \<noteq> 0 then push_bit (msb x - 1) 1 else 0)"

definition round_up_pow2 :: "'a :: len word \<Rightarrow> 'a word" where
  "round_up_pow2 x = (if x \<noteq> 0 then push_bit (msb (x - 1)) 1 else 0)"

abbreviation E_MINERROR :: u64 where "E_MINERROR \<equiv> - 100"

definition is_error :: "u64 \<Rightarrow> bool" where
  "is_error r \<longleftrightarrow> r \<ge> E_MINERROR"

section \<open>Rounding to multiples\<close>

lemma unat_round_down: "unat (round_down x m) = unat x - unat x mod unat m"
proof -
  have "x mod m \<le> x"
    by (simp add: word_le_nat_alt unat_mod)
  then show ?thesis
    by (simp add: round_down_def unat_sub unat_mod)
qed

lemma round_down_le: "round_down x m \<le> x"
  by (simp add: word_le_nat_alt unat_round_down)

lemma round_down_dvd: "unat m dvd unat (round_down x m)"
  by (simp add: unat_round_down dvd_minus_mod)

lemma round_down_greatest:
  assumes "unat m dvd k" "k \<le> unat x"
  shows "k \<le> unat (round_down x m)"
proof (cases "unat m = 0")
  case True
  with assms show ?thesis by simp
next
  case False
  from assms(1) obtain q where q: "k = unat m * q" ..
  with assms(2) False have "q \<le> unat x div unat m"
    by (metis div_le_mono nonzero_mult_div_cancel_left)
  then have "unat m * q \<le> unat m * (unat x div unat m)" by simp
  with q show ?thesis
    by (simp add: unat_round_down minus_mod_eq_mult_div)
qed

lemma unat_round_up_sum:
  fixes x m :: "'a :: len word"
  assumes "m > 0" "unat x + unat m \<le> 2 ^ LENGTH('a)"
  shows "unat (x + m - 1) = unat x + unat m - 1"
proof -
  have "unat (m - 1) = unat m - 1" "unat m > 0"
    using assms(1) by (simp_all add: unat_dec word_gt_0 unat_gt_0)
  moreover from this have "unat (x + (m - 1)) = unat x + unat (m - 1)"
    using assms(2) by (subst unat_add_lem [THEN iffD1]) simp_all
  ultimately show ?thesis
    by (simp add: add_diff_eq)
qed

lemma round_up_multiple:
  fixes x m :: "'a :: len word"
  assumes "m > 0" "unat x + unat m \<le> 2 ^ LENGTH('a)"
  shows "unat m dvd unat (round_up x m)"
    and "unat x \<le> unat (round_up x m)"
    and "unat m dvd k \<Longrightarrow> unat x \<le> k \<Longrightarrow> unat (round_up x m) \<le> k"
proof -
  let ?t = "unat x + unat m - 1"
  have m: "unat m > 0" using assms(1) by (simp add: word_gt_0 unat_gt_0)
  have eq: "unat (round_up x m) = ?t - ?t mod unat m"
    by (simp add: round_up_def unat_round_down unat_round_up_sum [OF assms])
  show "unat m dvd unat (round_up x m)"
    unfolding eq by (rule dvd_minus_mod)
  have "?t mod unat m < unat m" using m by simp
  then show "unat x \<le> unat (round_up x m)"
    unfolding eq by linarith
  assume "unat m dvd k" "unat x \<le> k"
  then obtain q where q: "k = unat m * q" by blast
  have "?t div unat m < Suc q"
    using \<open>unat x \<le> k\<close> q m by (simp add: div_less_iff_less_mult algebra_simps)
  then have "unat m * (?t div unat m) \<le> unat m * q" by simp
  then show "unat (round_up x m) \<le> k"
    by (simp add: eq q minus_mod_eq_mult_div)
qed

section \<open>Most and least significant bits\<close>

lemma clz_bounds:
  fixes x :: "'a :: len word"
  assumes "n \<le> LENGTH('a)"
  shows "clz n x \<le> n \<and> take_bit n (unat x) < 2 ^ (n - clz n x) \<and>
    (take_bit n (unat x) \<noteq> 0 \<longrightarrow> clz n x < n \<and> 2 ^ (n - clz n x - 1) \<le> take_bit n (unat x))"
  using assms
proof (induction n)
  case (Suc n)
  have bit: "bit (unat x) n = bit x n"
    using Suc.prems by (simp add: bit_unsigned_iff)
  have less: "take_bit n (unat x) < 2 ^ n" by simp
  show ?case
  proof (cases "bit x n")
    case True
    with less show ?thesis by (simp add: take_bit_Suc_from_most bit)
  next
    case False
    with Suc show ?thesis by (auto simp: take_bit_Suc_from_most bit Suc_diff_le)
  qed
qed simp

lemma msb_bounds:
  fixes x :: "'a :: len word"
  assumes "x \<noteq> 0"
  shows "0 < msb x" "msb x \<le> LENGTH('a)" "2 ^ (msb x - 1) \<le> unat x" "unat x < 2 ^ msb x"
proof -
  have "take_bit LENGTH('a) (unat x) = unat x"
    by (simp add: take_bit_nat_eq_self)
  moreover have "unat x \<noteq> 0" using assms by (simp add: unat_eq_zero)
  ultimately show "0 < msb x" "msb x \<le> LENGTH('a)" "2 ^ (msb x - 1) \<le> unat x" "unat x < 2 ^ msb x"
    using clz_bounds [of "LENGTH('a)" x] assms by (simp_all add: msb_def)
qed

lemma unat_pow2: "k < LENGTH('a) \<Longrightarrow> unat (push_bit k 1 :: 'a :: len word) = 2 ^ k"
  using unat_of_nat [of "2 ^ k", where 'a = 'a] by (simp add: power_strict_increasing)

lemma round_down_pow2_bounds:
  fixes x :: "'a :: len word"
  assumes "x \<noteq> 0"
  shows "\<exists>k. unat (round_down_pow2 x) = 2 ^ k"
    and "unat (round_down_pow2 x) \<le> unat x" and "unat x < 2 * unat (round_down_pow2 x)"
proof -
  note b = msb_bounds [OF assms]
  have eq: "unat (round_down_pow2 x) = 2 ^ (msb x - 1)"
    using assms b unat_pow2 [of "msb x - 1", where 'a = 'a] by (simp add: round_down_pow2_def)
  show "\<exists>k. unat (round_down_pow2 x) = 2 ^ k" using eq by blast
  show "unat (round_down_pow2 x) \<le> unat x" using eq b by simp
  have "2 * 2 ^ (msb x - 1) = (2 :: nat) ^ msb x"
    using b by (simp flip: power_Suc)
  then show "unat x < 2 * unat (round_down_pow2 x)" using eq b by simp
qed

lemma round_up_pow2_least:
  fixes x :: "'a :: len word"
  assumes "x \<noteq> 0" "unat x \<le> 2 ^ (LENGTH('a) - 1)"
  shows "\<exists>k. unat (round_up_pow2 x) = 2 ^ k"
    and "unat x \<le> unat (round_up_pow2 x)"
    and "unat x \<le> 2 ^ j \<Longrightarrow> unat (round_up_pow2 x) \<le> 2 ^ j"
proof -
  have dec: "unat (x - 1) = unat x - 1" and pos: "unat x > 0"
    using assms(1) by (simp_all add: unat_minus_one unat_gt_0)
  have lt: "unat (x - 1) < 2 ^ msb (x - 1)"
    using msb_bounds [of "x - 1"] by (cases "x - 1 = 0") (simp_all add: msb_def)
  have small: "msb (x - 1) \<le> j" if "unat x \<le> 2 ^ j" for j
  proof (cases "x - 1 = 0")
    case False
    then have "2 ^ (msb (x - 1) - 1) \<le> unat (x - 1)" "0 < msb (x - 1)"
      using msb_bounds [of "x - 1"] by auto
    with that dec pos have "(2 :: nat) ^ (msb (x - 1) - 1) < 2 ^ j" by linarith
    with \<open>0 < msb (x - 1)\<close> show ?thesis by simp
  qed (simp add: msb_def)
  from small [OF assms(2)] have eq: "unat (round_up_pow2 x) = 2 ^ msb (x - 1)"
    using assms(1) unat_pow2 [of "msb (x - 1)", where 'a = 'a]
    by (simp add: round_up_pow2_def le_less_trans [OF _ diff_less])
  show "\<exists>k. unat (round_up_pow2 x) = 2 ^ k" using eq by blast
  show "unat x \<le> unat (round_up_pow2 x)" using eq lt dec pos by simp
  show "unat x \<le> 2 ^ j \<Longrightarrow> unat (round_up_pow2 x) \<le> 2 ^ j"
    using small [of j] by (simp add: eq)
qed

lemma ctz_least:
  assumes "\<exists>j. i \<le> j \<and> j < i + n \<and> bit x j"
  shows "ctz i n x < n \<and> bit x (i + ctz i n x) \<and> (\<forall>j. i \<le> j \<longrightarrow> j < i + ctz i n x \<longrightarrow> \<not> bit x j)"
  using assms
proof (induction n arbitrary: i)
  case (Suc n)
  show ?case
  proof (cases "bit x i")
    case False
    with Suc.prems obtain j where "i \<le> j" "j < i + Suc n" "bit x j" by blast
    with False have "Suc i \<le> j" "j < Suc i + n" by (auto simp: Suc_le_eq le_less)
    with \<open>bit x j\<close> Suc.IH [of "Suc i"] False show ?thesis
      by (auto simp: Suc_le_eq) (metis Suc_leI le_neq_implies_less add_Suc_right add_Suc)
  qed auto
qed auto

lemma lsb_least:
  fixes x :: "'a :: len word"
  assumes "x \<noteq> 0"
  shows "0 < lsb x" "bit x (lsb x - 1)" "j < lsb x - 1 \<Longrightarrow> \<not> bit x j"
proof -
  from assms obtain k where "bit x k" by (metis bit_eqI bit_0_eq bot_apply bot_bool_def)
  then have "\<exists>j. 0 \<le> j \<and> j < 0 + LENGTH('a) \<and> bit x j"
    using bit_imp_le_length [of x k] by auto
  from ctz_least [OF this] assms
  show "0 < lsb x" "bit x (lsb x - 1)" "j < lsb x - 1 \<Longrightarrow> \<not> bit x j"
    by (auto simp: lsb_def)
qed

end
