(* ===== verification/Arch.thy ===== *)
theory Arch
  imports Arith
begin

text \<open>
  Constants and small functions of \<open>pset3/x86-64.h\<close> and \<open>pset3/kernel.hh\<close>: page geometry,
  page table entry flags, canonical addresses, the physical memory layout, and the saved
  register state.
\<close>

section \<open>Paged memory constants\<close>

abbreviation PAGEOFFBITS :: nat where "PAGEOFFBITS \<equiv> 12"
abbreviation PAGEINDEXBITS :: nat where "PAGEINDEXBITS \<equiv> 9"
abbreviation PAGESIZE :: u64 where "PAGESIZE \<equiv> 4096"

abbreviation PTE_P :: u64 where "PTE_P \<equiv> 0x1"
abbreviation PTE_W :: u64 where "PTE_W \<equiv> 0x2"
abbreviation PTE_U :: u64 where "PTE_U \<equiv> 0x4"
abbreviation PTE_PWU :: u64 where "PTE_PWU \<equiv> 0x7"
abbreviation PTE_PS :: u64 where "PTE_PS \<equiv> 0x80"
abbreviation PTE_PAMASK :: u64 where "PTE_PAMASK \<equiv> 0x000FFFFFFFFFF000"

abbreviation VA_LOWMAX :: u64 where "VA_LOWMAX \<equiv> 0x00007FFFFFFFFFFF"
abbreviation VA_LOWEND :: u64 where "VA_LOWEND \<equiv> 0x0000800000000000"
abbreviation VA_HIGHMIN :: u64 where "VA_HIGHMIN \<equiv> 0xFFFF800000000000"

definition pageindex :: "u64 \<Rightarrow> nat \<Rightarrow> u32" where
  "pageindex a level = ucast (drop_bit (PAGEOFFBITS + level * PAGEINDEXBITS) a) AND 0x1FF"

definition pageoffmask :: "nat \<Rightarrow> u64" where
  "pageoffmask level = NOT (push_bit (PAGEOFFBITS + level * PAGEINDEXBITS) (NOT 0))"

definition pageoffset :: "u64 \<Rightarrow> nat \<Rightarrow> u64" where
  "pageoffset a level = a AND pageoffmask level"

definition va_is_canonical :: "u64 \<Rightarrow> bool" where
  "va_is_canonical va \<longleftrightarrow> va \<le> VA_LOWMAX \<or> va \<ge> VA_HIGHMIN"

section \<open>Physical memory layout\<close>

abbreviation MAXNPROC :: nat where "MAXNPROC \<equiv> 16"
abbreviation KERNEL_START_ADDR :: u64 where "KERNEL_START_ADDR \<equiv> 0x40000"
abbreviation KERNEL_STACK_TOP :: u64 where "KERNEL_STACK_TOP \<equiv> 0x80000"
abbreviation PROC_START_ADDR :: u64 where "PROC_START_ADDR \<equiv> 0x100000"
abbreviation MEMSIZE_PHYSICAL :: u64 where "MEMSIZE_PHYSICAL \<equiv> 0x200000"
abbreviation NPAGES :: nat where "NPAGES \<equiv> 512"
abbreviation MEMSIZE_VIRTUAL :: u64 where "MEMSIZE_VIRTUAL \<equiv> 0x300000"
abbreviation IOPHYSMEM :: u64 where "IOPHYSMEM \<equiv> 0xA0000"
abbreviation EXTPHYSMEM :: u64 where "EXTPHYSMEM \<equiv> 0x100000"

section \<open>Saved registers\<close>

record regstate =
  reg_rax :: u64
  reg_rcx :: u64
  reg_rdx :: u64
  reg_rbx :: u64
  reg_rbp :: u64
  reg_rsi :: u64
  reg_rdi :: u64
  reg_r8 :: u64
  reg_r9 :: u64
  reg_r10 :: u64
  reg_r11 :: u64
  reg_r12 :: u64
  reg_r13 :: u64
  reg_r14 :: u64
  reg_r15 :: u64
  reg_fs :: u64
  reg_gs :: u64
  reg_intno :: u32
  reg_swapgs :: u32
  reg_errcode :: u64
  reg_rip :: u64
  reg_cs :: u64
  reg_rflags :: u64
  reg_rsp :: u64
  reg_ss :: u64

section \<open>Facts\<close>

lemma pageoffmask_mask: "pageoffmask level = mask (PAGEOFFBITS + level * PAGEINDEXBITS)"
  by (simp add: pageoffmask_def minus_exp_eq_not_mask)

end
