(* ===== verification/CMem.thy ===== *)
theory CMem
  imports Prelude
begin

text \<open>
  The memory functions of \<open>pset3/lib.cc\<close> (\<open>memcpy\<close>, \<open>memmove\<close>, \<open>memset\<close>, \<open>memcmp\<close>,
  \<open>memchr\<close>) on byte-addressed memory. Each loop of the source is a recursion on the count
  with its pointers advanced modulo the address width; each lemma gives the closed form.
\<close>

section \<open>Definitions\<close>

subsection \<open>memcpy\<close>

function memcpy_loop :: "mem \<Rightarrow> addr \<Rightarrow> addr \<Rightarrow> u64 \<Rightarrow> mem" where
  "memcpy_loop m d s n =
     (if n > 0 then memcpy_loop (m(d := m s)) (d + 1) (s + 1) (n - 1) else m)"
  by pat_completeness auto
termination
  by (relation "measure (\<lambda>(m, d, s, n). unat n)") (simp_all add: unat_dec_less)

declare memcpy_loop.simps [simp del]

definition memcpy :: "mem \<Rightarrow> addr \<Rightarrow> addr \<Rightarrow> u64 \<Rightarrow> mem \<times> addr" where
  "memcpy m dst src n = (memcpy_loop m dst src n, dst)"

subsection \<open>memmove\<close>

function memmove_down :: "mem \<Rightarrow> addr \<Rightarrow> addr \<Rightarrow> u64 \<Rightarrow> mem" where
  "memmove_down m d s n =
     (if n > 0 then memmove_down (m(d - 1 := m (s - 1))) (d - 1) (s - 1) (n - 1) else m)"
  by pat_completeness auto
termination
  by (relation "measure (\<lambda>(m, d, s, n). unat n)") (simp_all add: unat_dec_less)

declare memmove_down.simps [simp del]

function memmove_up :: "mem \<Rightarrow> addr \<Rightarrow> addr \<Rightarrow> u64 \<Rightarrow> mem" where
  "memmove_up m d s n =
     (if n > 0 then memmove_up (m(d := m s)) (d + 1) (s + 1) (n - 1) else m)"
  by pat_completeness auto
termination
  by (relation "measure (\<lambda>(m, d, s, n). unat n)") (simp_all add: unat_dec_less)

declare memmove_up.simps [simp del]

definition memmove :: "mem \<Rightarrow> addr \<Rightarrow> addr \<Rightarrow> u64 \<Rightarrow> mem \<times> addr" where
  "memmove m dst src n =
     (if src < dst \<and> src + n > dst
      then (memmove_down m (dst + n) (src + n) n, dst)
      else (memmove_up m dst src n, dst))"

subsection \<open>memset\<close>

function memset_loop :: "mem \<Rightarrow> addr \<Rightarrow> byte \<Rightarrow> u64 \<Rightarrow> mem" where
  "memset_loop m p c n =
     (if n > 0 then memset_loop (m(p := c)) (p + 1) c (n - 1) else m)"
  by pat_completeness auto
termination
  by (relation "measure (\<lambda>(m, p, c, n). unat n)") (simp_all add: unat_dec_less)

declare memset_loop.simps [simp del]

definition memset :: "mem \<Rightarrow> addr \<Rightarrow> u32 \<Rightarrow> u64 \<Rightarrow> mem \<times> addr" where
  "memset m v c n = (memset_loop m v (ucast c) n, v)"

subsection \<open>memcmp and memchr\<close>

definition byte_order :: "byte \<Rightarrow> byte \<Rightarrow> int" where
  "byte_order a b = of_bool (a > b) - of_bool (a < b)"

function memcmp :: "mem \<Rightarrow> addr \<Rightarrow> addr \<Rightarrow> u64 \<Rightarrow> int" where
  "memcmp m sa sb n =
     (if n > 0
      then if m sa \<noteq> m sb then byte_order (m sa) (m sb) else memcmp m (sa + 1) (sb + 1) (n - 1)
      else 0)"
  by pat_completeness auto
termination
  by (relation "measure (\<lambda>(m, sa, sb, n). unat n)") (simp_all add: unat_dec_less)

declare memcmp.simps [simp del]

text \<open>The result \<open>0\<close> is the null pointer.\<close>

function memchr_loop :: "mem \<Rightarrow> addr \<Rightarrow> byte \<Rightarrow> u64 \<Rightarrow> addr" where
  "memchr_loop m ss c n =
     (if n \<noteq> 0 then if m ss = c then ss else memchr_loop m (ss + 1) c (n - 1) else 0)"
  by pat_completeness auto
termination
  by (relation "measure (\<lambda>(m, ss, c, n). unat n)") (simp_all add: unat_dec_less word_gt_0)

declare memchr_loop.simps [simp del]

definition memchr :: "mem \<Rightarrow> addr \<Rightarrow> u32 \<Rightarrow> u64 \<Rightarrow> addr" where
  "memchr m s c n = memchr_loop m s (ucast c) n"

section \<open>Closed forms\<close>

lemma offset_dec_if:
  fixes p x n :: "'a :: len word"
  assumes "n > 0"
  shows "(if x - (p + 1) < n - 1 then a else if x = p then b else c) =
         (if x - p < n then if x = p then b else a else c)"
  using assms offset_dec [OF assms, of x p] by (auto simp: word_gt_0)

lemma offset_step: "(s :: addr) + 1 + (x - (d + 1)) = s + (x - d)"
  by simp

lemma memcpy_loop_apply:
  assumes "n \<le> d - s \<or> d = s"
  shows "memcpy_loop m d s n x = (if x - d < n then m (s + (x - d)) else m x)"
  using assms
proof (induction m d s n rule: memcpy_loop.induct)
  case (1 m d s n)
  show ?case
  proof (cases "n > 0")
    case True
    have "n - 1 < n"
      using True by (simp add: word_less_nat_alt unat_dec_less)
    then have "n - 1 \<le> d + 1 - (s + 1) \<or> d + 1 = s + 1"
      using "1.prems" by auto
    then have IH: "memcpy_loop (m(d := m s)) (d + 1) (s + 1) (n - 1) x =
        (if x - (d + 1) < n - 1 then (m(d := m s)) (s + (x - d)) else if x = d then m s else m x)"
      by (simp only: "1.IH" [OF True] offset_step fun_upd_apply)
    have "s + (x - d) \<noteq> d" if "x \<noteq> d" "x - d < n"
    proof
      assume "s + (x - d) = d"
      then have "x - d = d - s" by (simp add: algebra_simps)
      with that "1.prems" show False by auto
    qed
    then show ?thesis
      using True by (subst memcpy_loop.simps) (auto simp only: IH offset_dec_if if_True fun_upd_apply diff_self add_0_right split: if_split)
  next
    case False
    then show ?thesis by (subst memcpy_loop.simps) (simp add: word_gt_0)
  qed
qed

lemma memset_loop_apply:
  "memset_loop m p c n x = (if x - p < n then c else m x)"
proof (induction m p c n rule: memset_loop.induct)
  case (1 m p c n)
  show ?case
  proof (cases "n > 0")
    case True
    then show ?thesis
      by (subst memset_loop.simps) (simp only: "1.IH" [OF True] offset_dec_if [OF True] if_True fun_upd_apply if_cancel)
  next
    case False
    then show ?thesis by (subst memset_loop.simps) (simp add: word_gt_0)
  qed
qed

lemma memmove_up_memcpy: "memmove_up m d s n = memcpy_loop m d s n"
  by (induction m d s n rule: memmove_up.induct)
    (subst memmove_up.simps, subst memcpy_loop.simps, simp add: fun_upd_def)

lemma offset_last:
  fixes x L n :: "'a :: len word"
  assumes "n > 0"
  shows "x - L < n \<longleftrightarrow> x - L < n - 1 \<or> x = L + (n - 1)"
proof -
  have "unat (n - 1) = unat n - 1" "unat n > 0"
    using assms by (simp_all add: unat_dec word_gt_0 unat_gt_0)
  then have "x - L < n \<longleftrightarrow> x - L < n - 1 \<or> unat (x - L) = unat (n - 1)"
    by (simp only: word_less_nat_alt) arith
  also have "unat (x - L) = unat (n - 1) \<longleftrightarrow> x = L + (n - 1)"
    by (metis add_diff_cancel_left' diff_add_cancel add.commute word_unat_eq_iff)
  finally show ?thesis .
qed

lemma diff_dec_cancel: "(a :: 'a :: len word) - 1 - (n - 1) = a - n"
  by simp

lemma memmove_down_apply:
  assumes "n \<le> s - d \<or> s = d"
  shows "memmove_down m d s n x =
    (if x - (d - n) < n then m (s - n + (x - (d - n))) else m x)"
  using assms
proof (induction m d s n rule: memmove_down.induct)
  case (1 m d s n)
  show ?case
  proof (cases "n > 0")
    case True
    let ?m' = "m(d - 1 := m (s - 1))"
    have less: "n - 1 < n"
      using True by (simp add: word_less_nat_alt unat_dec_less)
    then have "n - 1 \<le> s - 1 - (d - 1) \<or> s - 1 = d - 1"
      using "1.prems" by auto
    from "1.IH" [OF True this]
    have IH: "memmove_down ?m' (d - 1) (s - 1) (n - 1) x =
        (if x - (d - n) < n - 1 then ?m' (s - n + (x - (d - n))) else ?m' x)"
      by (simp only: diff_dec_cancel)
    have safe: "s - n + (x - (d - n)) \<noteq> d - 1" if "x - (d - n) < n - 1"
    proof
      assume eq: "s - n + (x - (d - n)) = d - 1"
      define k where "k = n - 1 - (x - (d - n))"
      have "s - d = s - n + (x - (d - n)) - (x - (d - n)) + n - d" by simp
      also have "\<dots> = k" by (simp only: eq) (simp add: k_def)
      finally have "s - d = k" .
      moreover from that have "k \<noteq> 0"
        unfolding k_def by (metis less_irrefl right_minus_eq)
      moreover have "k < n"
        unfolding k_def using word_sub_le [OF less_imp_le [OF that]] less by (rule le_less_trans)
      ultimately show False using "1.prems" by auto
    qed
    have last: "x - (d - n) < n \<longleftrightarrow> x - (d - n) < n - 1 \<or> x = d - 1"
      using offset_last [OF True, of x "d - n"] by simp
    have "s - n + (d - 1 - (d - n)) = s - 1" "\<not> d - 1 - (d - n) < n - 1"
      by simp_all
    then show ?thesis
      using True safe
      by (subst memmove_down.simps) (auto simp only: IH last fun_upd_apply if_True split: if_split)
  next
    case False
    then show ?thesis by (subst memmove_down.simps) (simp add: word_gt_0)
  qed
qed

section \<open>Correctness\<close>

lemma word_sub_ge_wrap:
  fixes a b n :: addr
  assumes "a < b" "unat b + unat n < 2 ^ 64"
  shows "n \<le> a - b"
  using assms by (simp add: word_le_nat_alt word_less_nat_alt unat_sub_if')

lemma memmove_apply:
  assumes "unat src + unat n < 2 ^ 64" "unat dst + unat n < 2 ^ 64"
  shows "fst (memmove m dst src n) x = (if x - dst < n then m (src + (x - dst)) else m x)"
proof (cases "src < dst \<and> src + n > dst")
  case True
  then have "n \<le> src + n - (dst + n)"
    using word_sub_ge_wrap [of src dst n] assms by simp
  then show ?thesis
    using True by (simp add: memmove_def memmove_down_apply)
next
  case False
  have "n \<le> dst - src \<or> dst = src"
  proof (cases "src \<le> dst")
    case True
    with False assms(1) show ?thesis
      by (auto simp: word_le_nat_alt word_less_nat_alt unat_sub_if' unat_word_ariths word_unat_eq_iff)
  next
    case False
    then show ?thesis using word_sub_ge_wrap [of dst src n] assms(1) by simp
  qed
  then show ?thesis
    unfolding memmove_def if_not_P [OF False] by (simp add: memmove_up_memcpy memcpy_loop_apply)
qed

lemma memcmp_lex:
  "memcmp m a b n =
     (let xs = bytes m a (unat n); ys = bytes m b (unat n)
      in if xs = ys then 0 else if ord_class.lexordp xs ys then -1 else 1)"
proof (induction m a b n rule: memcmp.induct)
  case (1 m a b n)
  show ?case
  proof (cases "n > 0")
    case True
    note step = memcmp.simps [of m a b n] bytes_unat_pos [OF True]
    show ?thesis
    proof (cases "m a = m b")
      case eq: True
      with "1.IH" True show ?thesis
        by (simp add: step Let_def)
    next
      case False
      with True show ?thesis
        by (auto simp: step Let_def byte_order_def)
    qed
  next
    case False
    then have "n = 0" by (simp add: word_gt_0)
    then show ?thesis by (simp add: memcmp.simps [of m a b 0])
  qed
qed

end
