(* ===== verification/PhysPages.thy ===== *)
theory PhysPages
  imports Arch CMem
begin

text \<open>
  Physical page management: \<open>physpageinfo\<close> and the address predicates
  (\<open>pset3/kernel.hh\<close>, \<open>pset3/k-hardware.cc\<close>) and the page allocator \<open>kalloc\<close>
  (\<open>pset3/kernel.cc\<close>). The linker symbol \<open>_kernel_end\<close> is the parameter \<open>kend\<close>. The locale
  \<open>page_allocator\<close> states what the page table code relies on; \<open>kalloc\<close> interprets it.
\<close>

section \<open>Definitions\<close>

text \<open>Physical memory and the reference counts of \<open>physpages\<close>, indexed by page number.\<close>

record physmem =
  memory :: mem
  refcount :: "nat \<Rightarrow> byte"

definition physpage_used :: "byte \<Rightarrow> bool" where
  "physpage_used rc \<longleftrightarrow> rc \<noteq> 0"

definition physpage_valid :: "byte \<Rightarrow> bool" where
  "physpage_valid rc \<longleftrightarrow> rc \<le> of_nat MAXNPROC"

definition reserved_physical_address :: "addr \<Rightarrow> bool" where
  "reserved_physical_address pa \<longleftrightarrow> pa < PAGESIZE \<or> (pa \<ge> IOPHYSMEM \<and> pa < EXTPHYSMEM)"

definition allocatable_physical_address :: "addr \<Rightarrow> addr \<Rightarrow> bool" where
  "allocatable_physical_address kend pa \<longleftrightarrow>
     \<not> reserved_physical_address pa
     \<and> (pa < KERNEL_START_ADDR \<or> pa \<ge> round_up kend PAGESIZE)
     \<and> (pa < KERNEL_STACK_TOP - PAGESIZE \<or> pa \<ge> KERNEL_STACK_TOP)
     \<and> pa < MEMSIZE_PHYSICAL"

text \<open>The search of \<open>kalloc\<close>: the first argument counts the tries that are left.\<close>

primrec kalloc_loop :: "nat \<Rightarrow> addr \<Rightarrow> nat \<Rightarrow> physmem \<Rightarrow> physmem \<times> addr" where
  "kalloc_loop 0 kend pageno s = (s, 0)"
| "kalloc_loop (Suc tries) kend pageno s =
     (let pa = of_nat pageno * PAGESIZE in
      if allocatable_physical_address kend pa \<and> refcount s pageno = 0
      then (s\<lparr>refcount := (refcount s)(pageno := refcount s pageno + 1),
              memory := fst (memset (memory s) pa 0xCC PAGESIZE)\<rparr>, pa)
      else kalloc_loop tries kend ((pageno + 1) mod NPAGES) s)"

definition kalloc :: "addr \<Rightarrow> u64 \<Rightarrow> physmem \<Rightarrow> physmem \<times> addr" where
  "kalloc kend sz s = (if sz > PAGESIZE then (s, 0) else kalloc_loop NPAGES kend 0 s)"

text \<open>\<open>kfree\<close> is left to the reader of the handout: it always fails its assertion.\<close>

definition kfree :: "addr \<Rightarrow> physmem \<Rightarrow> physmem result" where
  "kfree kptr s = Inl (AssertFail ''false'')"

definition kalloc_pagetable :: "addr \<Rightarrow> physmem \<Rightarrow> physmem \<times> addr" where
  "kalloc_pagetable kend s =
     (case kalloc kend PAGESIZE s of (s', pt) \<Rightarrow>
        (if pt \<noteq> 0 then (s'\<lparr>memory := fst (memset (memory s') pt 0 PAGESIZE)\<rparr>, pt)
         else (s', pt)))"

section \<open>Pages\<close>

definition page_aligned :: "addr \<Rightarrow> bool" where
  "page_aligned p \<longleftrightarrow> unat p mod 4096 = 0"

definition same_page :: "addr \<Rightarrow> addr \<Rightarrow> bool" where
  "same_page a b \<longleftrightarrow> unat a div 4096 = unat b div 4096"

lemma page_aligned_offset:
  assumes "page_aligned p"
  shows "x - p < 4096 \<longleftrightarrow> same_page x p"
proof -
  have "unat x < 18446744073709551616" "unat p < 18446744073709551616"
    using unsigned_less [of x] unsigned_less [of p] by simp_all
  then show ?thesis
    using assms unfolding page_aligned_def same_page_def word_less_nat_alt unat_sub_if'
    by auto
qed

lemma page_aligned_aligned8: "page_aligned p \<Longrightarrow> aligned8 p"
  using mod_mod_cancel [of 8 4096 "unat p"] by (simp add: page_aligned_def aligned8_unat)

lemma same_page_add8:
  assumes "aligned8 a" "unat j < 8"
  shows "same_page (a + j) p \<longleftrightarrow> same_page a p"
proof -
  have "(unat a + unat j) div (8 * 512) = unat a div (8 * 512)"
    using assms unfolding div_mult2_eq aligned8_unat by (simp add: div_add1_eq)
  then show ?thesis by (simp add: same_page_def unat_aligned8_add [OF assms])
qed

lemma page_aligned_eqI: "page_aligned p \<Longrightarrow> page_aligned q \<Longrightarrow> same_page p q \<Longrightarrow> p = q"
  unfolding page_aligned_def same_page_def word_unat_eq_iff by (metis div_mult_mod_eq)

lemma same_page_trans: "same_page a b \<Longrightarrow> same_page a c \<Longrightarrow> same_page b c"
  by (simp add: same_page_def)

lemma memset_page:
  "page_aligned p \<Longrightarrow> fst (memset m p c 4096) x = (if same_page x p then ucast c else m x)"
  by (simp add: memset_def memset_loop_apply page_aligned_offset)

lemma load64_memset_page [mem_simps]:
  assumes "page_aligned p" "aligned8 a"
  shows "load64 (fst (memset m p 0 4096)) a = (if same_page a p then 0 else load64 m a)"
proof (cases "same_page a p")
  case True
  then have "load64 (fst (memset m p 0 4096)) a = load64 (\<lambda>_. 0) a"
    by (intro load64_cong) (simp add: memset_page assms same_page_add8)
  with True show ?thesis by (simp add: load64_def)
next
  case False
  then have "load64 (fst (memset m p 0 4096)) a = load64 m a"
    by (intro load64_cong) (simp add: memset_page assms same_page_add8)
  with False show ?thesis by simp
qed

section \<open>The contract of a page allocator\<close>

locale page_allocator =
  fixes alloc :: "'s \<Rightarrow> 's \<times> addr"
    and pmem :: "'s \<Rightarrow> mem"
    and avail :: "'s \<Rightarrow> addr \<Rightarrow> bool"
  assumes alloc_null: "alloc s = (s', 0) \<Longrightarrow> s' = s"
    and alloc_avail: "alloc s = (s', p) \<Longrightarrow> p \<noteq> 0 \<Longrightarrow> avail s p"
    and alloc_taken: "alloc s = (s', p) \<Longrightarrow> p \<noteq> 0 \<Longrightarrow> avail s' = (avail s)(p := False)"
    and alloc_frame: "alloc s = (s', p) \<Longrightarrow> p \<noteq> 0 \<Longrightarrow> \<not> same_page x p \<Longrightarrow> pmem s' x = pmem s x"
    and avail_page: "avail s p \<Longrightarrow> page_aligned p \<and> p \<noteq> 0 \<and> p < MEMSIZE_PHYSICAL"
begin

lemma alloc_page: "alloc s = (s', p) \<Longrightarrow> p \<noteq> 0 \<Longrightarrow> page_aligned p"
  using alloc_avail avail_page by blast

lemma alloc_load64:
  assumes "alloc s = (s', p)" "p \<noteq> 0" "aligned8 a" "\<not> same_page a p"
  shows "load64 (pmem s') a = load64 (pmem s) a"
  using assms by (intro load64_cong) (simp add: alloc_frame same_page_add8)

lemma alloc_zeroed_load64:
  assumes "alloc s = (s', p)" "p \<noteq> 0" "aligned8 a"
  shows "load64 (fst (memset (pmem s') p 0 4096)) a =
    (if same_page a p then 0 else load64 (pmem s) a)"
  using assms alloc_load64 by (simp add: load64_memset_page alloc_page)

lemma alloc_twice_distinct:
  assumes "alloc s = (s1, p)" "p \<noteq> 0" "alloc s1 = (s2, q)" "q \<noteq> 0"
  shows "\<not> same_page p q"
proof -
  have "avail s1 q" by (rule alloc_avail) fact+
  moreover have "\<not> avail s1 p" by (simp add: alloc_taken [OF assms(1,2)])
  ultimately have "p \<noteq> q" by auto
  then show ?thesis
    using assms alloc_page page_aligned_eqI by blast
qed

end

section \<open>kalloc meets the contract\<close>

definition free_page :: "addr \<Rightarrow> physmem \<Rightarrow> nat \<Rightarrow> bool" where
  "free_page kend s n \<longleftrightarrow>
     allocatable_physical_address kend (of_nat n * PAGESIZE) \<and> refcount s n = 0"

definition take_page :: "nat \<Rightarrow> physmem \<Rightarrow> physmem" where
  "take_page n s =
     s\<lparr>refcount := (refcount s)(n := refcount s n + 1),
       memory := fst (memset (memory s) (of_nat n * PAGESIZE) 0xCC PAGESIZE)\<rparr>"

lemma kalloc_loop_find:
  assumes "tries + pageno = NPAGES"
  shows "kalloc_loop tries kend pageno s =
    (case find (free_page kend s) [pageno..<NPAGES] of
       None \<Rightarrow> (s, 0) | Some n \<Rightarrow> (take_page n s, of_nat n * PAGESIZE))"
  using assms
proof (induction tries arbitrary: pageno)
  case (Suc tries)
  then have less: "pageno < NPAGES" by simp
  have "kalloc_loop tries kend (Suc pageno mod NPAGES) s =
      (case find (free_page kend s) [Suc pageno..<NPAGES] of
         None \<Rightarrow> (s, 0) | Some n \<Rightarrow> (take_page n s, of_nat n * PAGESIZE))"
  proof (cases "Suc pageno = NPAGES")
    case True
    with Suc.prems have "tries = 0" by simp
    with True show ?thesis by simp
  next
    case False
    with Suc show ?thesis by simp
  qed
  moreover have "kalloc_loop (Suc tries) kend pageno s =
      (if free_page kend s pageno then (take_page pageno s, of_nat pageno * PAGESIZE)
       else kalloc_loop tries kend (Suc pageno mod NPAGES) s)"
    by (simp add: free_page_def take_page_def Let_def)
  ultimately show ?case
    using less by (simp only: upt_conv_Cons find.simps option.case split: if_split) simp
qed simp

lemma kalloc_find:
  "kalloc kend sz s =
     (if sz > PAGESIZE then (s, 0)
      else case find (free_page kend s) [0..<NPAGES] of
        None \<Rightarrow> (s, 0) | Some n \<Rightarrow> (take_page n s, of_nat n * PAGESIZE))"
  by (simp add: kalloc_def kalloc_loop_find)

lemma unat_page_addr: "n < NPAGES \<Longrightarrow> unat (of_nat n * PAGESIZE) = n * 4096"
  using unat_of_nat [of "n * 4096", where 'a = 64] by simp

lemma page_addr_inj: "m < NPAGES \<Longrightarrow> n < NPAGES \<Longrightarrow>
    (of_nat m * PAGESIZE :: addr) = of_nat n * PAGESIZE \<longleftrightarrow> m = n"
  by (metis unat_page_addr mult_right_cancel zero_neq_numeral)

lemma page_addr_aligned: "n < NPAGES \<Longrightarrow> page_aligned (of_nat n * PAGESIZE)"
  by (simp add: page_aligned_def unat_page_addr)

lemma free_page_nonzero: "free_page kend s n \<Longrightarrow> (of_nat n * PAGESIZE :: addr) \<noteq> 0"
  by (auto simp: free_page_def allocatable_physical_address_def reserved_physical_address_def)

text \<open>The availability of a page address, the abstraction the contract speaks of.\<close>

definition page_available :: "addr \<Rightarrow> physmem \<Rightarrow> addr \<Rightarrow> bool" where
  "page_available kend s p \<longleftrightarrow>
     page_aligned p \<and> allocatable_physical_address kend p \<and> refcount s (unat p div 4096) = 0"

lemma free_page_available:
  "n < NPAGES \<Longrightarrow> page_available kend s (of_nat n * PAGESIZE) \<longleftrightarrow> free_page kend s n"
  by (simp add: page_available_def free_page_def page_addr_aligned unat_page_addr)

lemma kalloc_cases:
  assumes "kalloc kend PAGESIZE s = (s', p)" "p \<noteq> 0"
  obtains n where "n < NPAGES" "free_page kend s n" "s' = take_page n s" "p = of_nat n * PAGESIZE"
proof (cases "find (free_page kend s) [0..<NPAGES]")
  case None
  with assms show ?thesis by (simp add: kalloc_find)
next
  case (Some n)
  then have "n < NPAGES" "free_page kend s n"
    by (auto simp: find_Some_iff)
  with assms Some that show ?thesis by (simp add: kalloc_find)
qed

lemma kalloc_null:
  assumes "kalloc kend sz s = (s', 0)"
  shows "s' = s"
proof (cases "find (free_page kend s) [0..<NPAGES]")
  case (Some n)
  then have "free_page kend s n" by (simp add: find_Some_iff) blast
  from free_page_nonzero [OF this] assms Some show ?thesis
    by (simp add: kalloc_find split: if_splits)
qed (use assms in \<open>simp add: kalloc_find split: if_splits\<close>)

lemma page_available_take:
  assumes "n < NPAGES" "free_page kend s n"
  shows "page_available kend (take_page n s) = (page_available kend s)(of_nat n * PAGESIZE := False)"
proof
  fix p
  have "p = of_nat n * PAGESIZE" if "page_aligned p" "unat p div 4096 = n"
    using that assms(1) page_addr_aligned [OF assms(1)] unat_page_addr [OF assms(1)]
    by (intro page_aligned_eqI) (simp_all add: same_page_def)
  then show "page_available kend (take_page n s) p =
      ((page_available kend s)(of_nat n * PAGESIZE := False)) p"
    using assms(2) unat_page_addr [OF assms(1)]
    by (auto simp: page_available_def take_page_def free_page_def)
qed

interpretation kalloc_page: page_allocator "kalloc kend PAGESIZE" memory "page_available kend"
  for kend
proof unfold_locales
  fix s s' p
  show "kalloc kend PAGESIZE s = (s', 0) \<Longrightarrow> s' = s"
    by (rule kalloc_null)
  assume k: "kalloc kend PAGESIZE s = (s', p)" "p \<noteq> 0"
  then show "page_available kend s p"
    by (rule kalloc_cases) (simp add: free_page_available)
  from k show "page_available kend s' = (page_available kend s)(p := False)"
    by (rule kalloc_cases) (simp add: page_available_take)
  fix x assume "\<not> same_page x p"
  from k obtain n where "n < NPAGES" "s' = take_page n s" "p = of_nat n * PAGESIZE"
    by (rule kalloc_cases)
  with \<open>\<not> same_page x p\<close> show "memory s' x = memory s x"
    by (simp add: take_page_def memset_page page_addr_aligned)
next
  fix s p
  assume "page_available kend s p"
  then show "page_aligned p \<and> p \<noteq> 0 \<and> p < MEMSIZE_PHYSICAL"
    by (auto simp: page_available_def allocatable_physical_address_def reserved_physical_address_def)
qed

end
