(* ===== verification/PageTable.thy ===== *)
theory PageTable
  imports PhysPages
begin

text \<open>
  The reference semantics of x86-64 four-level page tables, against which the iterators of
  \<open>pset3/k-vmiter.cc\<close> are verified. A page table is read through a function \<open>E\<close> from entry
  addresses to entries; \<open>mmu_walk\<close> is the hardware's translation; \<open>pt_reach\<close> says which table
  page a walk visits at each level and the flags accumulated on the way; \<open>no_alias\<close> says that
  the table pages form a tree. The lemmas show what linking a new table page and writing a
  leaf entry do to every translation.
\<close>

section \<open>Translation\<close>

definition pgidx :: "nat \<Rightarrow> u64 \<Rightarrow> u64" where
  "pgidx n va = drop_bit (PAGEOFFBITS + PAGEINDEXBITS * n) va AND 0x1FF"

definition slot :: "addr \<Rightarrow> nat \<Rightarrow> u64 \<Rightarrow> addr" where
  "slot t n va = t + 8 * pgidx n va"

text \<open>An entry that points to a lower-level table: present and not a large page.\<close>

definition is_link :: "u64 \<Rightarrow> bool" where
  "is_link e \<longleftrightarrow> e AND (PTE_P OR PTE_PS) = PTE_P"

definition next_table :: "u64 \<Rightarrow> addr" where
  "next_table e = e AND PTE_PAMASK"

text \<open>The address a leaf entry at level \<open>n\<close> gives: bit 12 of a large-page entry is an
  attribute bit, not an address bit.\<close>

definition leaf_pa :: "nat \<Rightarrow> u64 \<Rightarrow> u64 \<Rightarrow> u64" where
  "leaf_pa n e va =
     (if n = 0 then e AND PTE_PAMASK else e AND PTE_PAMASK AND NOT 0x1000)
     + (va AND mask (PAGEOFFBITS + PAGEINDEXBITS * n))"

text \<open>A translation is a physical address with the writable and user permissions.\<close>

type_synonym translation = "u64 \<times> bool \<times> bool"

definition restrict_flags :: "u64 \<Rightarrow> translation option \<Rightarrow> translation option" where
  "restrict_flags f r = map_option (\<lambda>(pa, w, u). (pa, w \<and> bit f 1, u \<and> bit f 2)) r"

primrec mmu_walk :: "(addr \<Rightarrow> u64) \<Rightarrow> nat \<Rightarrow> addr \<Rightarrow> u64 \<Rightarrow> translation option" where
  "mmu_walk E 0 t va =
     (let e = E (slot t 0 va)
      in if bit e 0 then Some (leaf_pa 0 e va, bit e 1, bit e 2) else None)"
| "mmu_walk E (Suc n) t va =
     (let e = E (slot t (Suc n) va)
      in if \<not> bit e 0 then None
         else if bit e 7 then Some (leaf_pa (Suc n) e va, bit e 1, bit e 2)
         else restrict_flags e (mmu_walk E n (next_table e) va))"

definition translate :: "(addr \<Rightarrow> u64) \<Rightarrow> addr \<Rightarrow> u64 \<Rightarrow> translation option" where
  "translate E pt va = mmu_walk E 3 pt va"

section \<open>The tables a walk visits\<close>

inductive pt_reach :: "(addr \<Rightarrow> u64) \<Rightarrow> addr \<Rightarrow> u64 \<Rightarrow> nat \<Rightarrow> addr \<Rightarrow> u64 \<Rightarrow> bool"
  for E pt va where
  root: "pt_reach E pt va 3 pt (- 1)"
| down: "pt_reach E pt va (Suc n) t f \<Longrightarrow> is_link (E (slot t (Suc n) va)) \<Longrightarrow>
    pt_reach E pt va n (next_table (E (slot t (Suc n) va))) (f AND E (slot t (Suc n) va))"

definition agree_above :: "nat \<Rightarrow> u64 \<Rightarrow> u64 \<Rightarrow> bool" where
  "agree_above n va va' \<longleftrightarrow> (\<forall>k. n < k \<and> k \<le> 3 \<longrightarrow> pgidx k va = pgidx k va')"

text \<open>The table pages form a tree: a page is the table of one level and one address prefix.\<close>

definition no_alias :: "(addr \<Rightarrow> u64) \<Rightarrow> addr \<Rightarrow> bool" where
  "no_alias E pt \<longleftrightarrow>
     (\<forall>va n t f va' n' f'. pt_reach E pt va n t f \<and> pt_reach E pt va' n' t f' \<longrightarrow>
        n = n' \<and> agree_above n va va')"

section \<open>Bits of entries\<close>

lemma bit_0x81: "bit (0x81 :: u64) n \<longleftrightarrow> n = 0 \<or> n = 7"
proof -
  have "(0x81 :: u64) = 1 OR push_bit 7 1" by simp
  then have "bit (0x81 :: u64) n = bit (1 OR push_bit 7 1 :: u64) n" by (simp only:)
  also have "\<dots> \<longleftrightarrow> n = 0 \<or> n = 7"
    by (auto simp only: bit_or_iff bit_1_iff bit_push_bit_iff) auto
  finally show ?thesis .
qed

lemma bit_PAMASK: "bit PTE_PAMASK n \<longleftrightarrow> 12 \<le> n \<and> n < 52"
proof -
  have "PTE_PAMASK = push_bit 12 (mask 40)"
    by (simp add: mask_eq_exp_minus_1 push_bit_eq_mult)
  then have "bit PTE_PAMASK n = bit (push_bit 12 (mask 40) :: u64) n" by (simp only:)
  also have "\<dots> \<longleftrightarrow> 12 \<le> n \<and> n < 52"
    by (auto simp only: bit_push_bit_iff bit_mask_iff) auto
  finally show ?thesis .
qed

lemma is_link_bits: "is_link e \<longleftrightarrow> bit e 0 \<and> \<not> bit e 7"
proof
  assume "is_link e"
  then have eq: "e AND 0x81 = 1" by (simp add: is_link_def)
  have "bit (e AND 0x81) 0" "\<not> bit (e AND 0x81) 7" unfolding eq by simp_all
  then show "bit e 0 \<and> \<not> bit e 7" by (simp add: bit_and_iff bit_0x81)
next
  assume "bit e 0 \<and> \<not> bit e 7"
  then have "e AND 0x81 = 1"
    by (intro bit_word_eqI) (auto simp only: bit_and_iff bit_0x81 bit_1_iff)
  then show "is_link e" by (simp add: is_link_def)
qed

lemma page_aligned_take_bit: "page_aligned p \<longleftrightarrow> take_bit 12 p = 0"
proof -
  have "take_bit 12 p = 0 \<longleftrightarrow> unat (take_bit 12 p) = 0" by (simp add: unat_eq_zero)
  also have "unat (take_bit 12 p) = unat p mod 4096"
    by (simp add: take_bit_eq_mod unat_mod)
  finally show ?thesis by (simp add: page_aligned_def)
qed

lemma page_aligned_bits: "page_aligned p \<longleftrightarrow> (\<forall>n < 12. \<not> bit p n)"
proof -
  have "take_bit 12 p = 0 \<longleftrightarrow> (\<forall>n. \<not> bit (take_bit 12 p) n)"
    by (metis bit_0_eq bit_eqI bot_apply bot_bool_def)
  then show ?thesis by (auto simp: page_aligned_take_bit bit_take_bit_iff)
qed

lemma next_table_aligned: "page_aligned (next_table e)"
  unfolding page_aligned_bits next_table_def bit_and_iff bit_PAMASK by simp

lemma pgidx_take_bit: "pgidx n va = take_bit 9 (drop_bit (12 + 9 * n) va)"
  by (simp add: pgidx_def take_bit_eq_mask mask_eq_exp_minus_1)

lemma unat_pgidx_less: "unat (pgidx n va) < 512"
  by (simp add: pgidx_take_bit take_bit_eq_mod unat_mod)

lemma unat_table_entry:
  assumes "page_aligned t" "unat i < 512"
  shows "unat (t + 8 * i) = unat t + 8 * unat i"
proof -
  have "unat t < 18446744073709551616"
    using unsigned_less [of t] by simp
  moreover have "unat t = 4096 * (unat t div 4096)"
    using assms(1) by (simp add: page_aligned_def minus_mod_eq_mult_div [symmetric])
  moreover from calculation(1) have "unat t div 4096 < 4503599627370496"
    by (simp add: less_mult_imp_div_less)
  ultimately have "unat t + 4096 \<le> 18446744073709551616"
    by linarith
  moreover have "unat (8 * i) = 8 * unat i"
    using assms(2) by (subst unat_mult_lem [THEN iffD1]) simp_all
  ultimately show ?thesis
    using assms(2) by (subst unat_add_lem [THEN iffD1]) simp_all
qed

lemma unat_slot: "page_aligned t \<Longrightarrow> unat (slot t n va) = unat t + 8 * unat (pgidx n va)"
  by (simp add: slot_def unat_table_entry unat_pgidx_less)

lemma slot_same_page: "page_aligned t \<Longrightarrow> same_page (slot t n va) t"
  using unat_pgidx_less [of n va]
  by (simp add: same_page_def unat_slot page_aligned_def div_add1_eq)

lemma slot_aligned8:
  assumes "page_aligned t"
  shows "aligned8 (slot t n va)"
  using assms mod_mod_cancel [of 8 4096 "unat t"]
  by (simp add: aligned8_unat unat_slot page_aligned_def mod_add_eq [symmetric])

lemma slot_eq_iff:
  assumes "page_aligned t" "page_aligned t'"
  shows "slot t n va = slot t' n' va' \<longleftrightarrow> t = t' \<and> pgidx n va = pgidx n' va'"
proof
  assume eq: "slot t n va = slot t' n' va'"
  then have "t = t'"
    using assms slot_same_page same_page_trans page_aligned_eqI by metis
  with eq assms show "t = t' \<and> pgidx n va = pgidx n' va'"
    by (metis add_left_imp_eq mult_left_cancel unat_slot word_unat_eq_iff zero_neq_numeral)
qed (simp add: slot_def)

lemma slot_not_page: "page_aligned t \<Longrightarrow> page_aligned p \<Longrightarrow> t \<noteq> p \<Longrightarrow> \<not> same_page (slot t n va) p"
  using slot_same_page same_page_trans page_aligned_eqI by blast

section \<open>Properties of reachability\<close>

lemma pt_reach_level: "pt_reach E pt va n t f \<Longrightarrow> n \<le> 3"
  by (induction rule: pt_reach.induct) simp_all

lemma pt_reach_aligned: "pt_reach E pt va n t f \<Longrightarrow> page_aligned pt \<Longrightarrow> page_aligned t"
  by (induction rule: pt_reach.induct) (simp_all add: next_table_aligned)

lemma pt_reach_3: "pt_reach E pt va 3 t f \<longleftrightarrow> t = pt \<and> f = - 1"
proof
  show "t = pt \<and> f = - 1" if "pt_reach E pt va 3 t f"
    using that by (cases rule: pt_reach.cases) (auto dest: pt_reach_level)
qed (auto intro: pt_reach.root)

lemma pt_reach_Suc:
  assumes "pt_reach E pt va n t f" "n < 3"
  obtains t' f' where "pt_reach E pt va (Suc n) t' f'" "is_link (E (slot t' (Suc n) va))"
    "t = next_table (E (slot t' (Suc n) va))" "f = f' AND E (slot t' (Suc n) va)"
  using assms by (cases rule: pt_reach.cases) auto

lemma pt_reach_unique:
  assumes "pt_reach E pt va n t f" "pt_reach E pt va n t' f'"
  shows "t = t' \<and> f = f'"
  using assms
proof (induction arbitrary: t' f' rule: pt_reach.induct)
  case root
  then show ?case by (auto simp: pt_reach_3)
next
  case (down n t f)
  from down.hyps(1) have "n < 3" by (auto dest: pt_reach_level)
  from down.prems this obtain t'' f'' where "pt_reach E pt va (Suc n) t'' f''"
    "t' = next_table (E (slot t'' (Suc n) va))" "f' = f'' AND E (slot t'' (Suc n) va)"
    by (rule pt_reach_Suc)
  with down.IH show ?case by blast
qed

lemma restrict_flags_and: "restrict_flags f (restrict_flags g r) = restrict_flags (f AND g) r"
  by (cases r) (auto simp: restrict_flags_def bit_and_iff)

lemma restrict_flags_None [simp]: "restrict_flags f None = None"
  by (simp add: restrict_flags_def)

lemma translate_reach:
  "pt_reach E pt va n t f \<Longrightarrow> translate E pt va = restrict_flags f (mmu_walk E n t va)"
proof (induction rule: pt_reach.induct)
  case root
  show ?case
    by (cases "mmu_walk E 3 pt va") (auto simp: translate_def restrict_flags_def)
next
  case (down n t f)
  then show ?case
    by (simp add: is_link_bits Let_def restrict_flags_and)
qed

lemma translate_absent:
  assumes "pt_reach E pt va n t f" "\<not> bit (E (slot t n va)) 0"
  shows "translate E pt va = None"
  using translate_reach [OF assms(1)] assms(2) by (cases n) (simp_all add: Let_def)

lemma slot_cong: "pgidx n va = pgidx n va' \<Longrightarrow> slot t n va = slot t n va'"
  by (simp add: slot_def)

lemma pt_reach_agree:
  assumes "pt_reach E pt va n t f" "agree_above n va va'"
  shows "pt_reach E pt va' n t f"
  using assms
proof (induction rule: pt_reach.induct)
  case root
  show ?case by (rule pt_reach.root)
next
  case (down n t f)
  from down.hyps(1) have "Suc n \<le> 3" by (rule pt_reach_level)
  with down.prems have "agree_above (Suc n) va va'" "slot t (Suc n) va = slot t (Suc n) va'"
    by (auto simp: agree_above_def intro!: slot_cong)
  with down.IH down.hyps(2) pt_reach.down [of E pt va' n t f] show ?case by simp
qed

section \<open>Changing entries\<close>

text \<open>Entries that agree on every slot a walk reads give the same walk.\<close>

lemma pt_reach_cong_above:
  assumes "pt_reach E pt va n t f"
    and "\<And>k t' f'. pt_reach E pt va k t' f' \<Longrightarrow> n < k \<Longrightarrow> E' (slot t' k va) = E (slot t' k va)"
  shows "pt_reach E' pt va n t f"
  using assms
proof (induction rule: pt_reach.induct)
  case root
  show ?case by (rule pt_reach.root)
next
  case (down n t f)
  then have "pt_reach E' pt va (Suc n) t f" by simp
  moreover have "E' (slot t (Suc n) va) = E (slot t (Suc n) va)"
    using down by simp
  ultimately show ?case
    using down.hyps(2) pt_reach.down [of E' pt va n t f] by simp
qed

lemma mmu_walk_cong:
  assumes "pt_reach E pt va n t f"
    and "\<And>k t' f'. pt_reach E pt va k t' f' \<Longrightarrow> E' (slot t' k va) = E (slot t' k va)"
  shows "mmu_walk E' n t va = mmu_walk E n t va"
  using assms(1)
proof (induction n arbitrary: t f)
  case 0
  then show ?case using assms(2) by simp
next
  case (Suc n)
  note eq = assms(2) [OF Suc.prems]
  show ?case
  proof (cases "is_link (E (slot t (Suc n) va))")
    case True
    from Suc.IH [OF pt_reach.down [OF Suc.prems this]] show ?thesis
      by (simp add: Let_def eq)
  next
    case False
    then show ?thesis by (auto simp: Let_def eq is_link_bits)
  qed
qed

lemma translate_cong:
  assumes "\<And>k t' f'. pt_reach E pt va k t' f' \<Longrightarrow> E' (slot t' k va) = E (slot t' k va)"
  shows "translate E' pt va = translate E pt va"
  unfolding translate_def using pt_reach.root assms by (rule mmu_walk_cong)

lemma pt_reach_cong:
  assumes "\<And>k t' f'. pt_reach E pt va k t' f' \<Longrightarrow> 0 < k \<Longrightarrow> E' (slot t' k va) = E (slot t' k va)"
  shows "pt_reach E' pt va n t f \<longleftrightarrow> pt_reach E pt va n t f"
proof
  assume "pt_reach E' pt va n t f"
  then show "pt_reach E pt va n t f"
  proof (induction rule: pt_reach.induct)
    case root
    show ?case by (rule pt_reach.root)
  next
    case (down n t f)
    with assms [OF down.IH] pt_reach.down [OF down.IH] show ?case by simp
  qed
next
  assume "pt_reach E pt va n t f"
  then show "pt_reach E' pt va n t f"
    by (rule pt_reach_cong_above) (simp add: assms)
qed

text \<open>Entries are only read at 8-byte aligned addresses.\<close>

lemma walk_aligned_cong:
  assumes "page_aligned pt" "\<And>a. aligned8 a \<Longrightarrow> E' a = E a"
  shows "translate E' pt va = translate E pt va" "pt_reach E' pt va n t f = pt_reach E pt va n t f"
proof -
  have eq: "E' (slot t' k va) = E (slot t' k va)" if "pt_reach E pt va k t' f'" for k t' f'
    using that assms by (simp add: pt_reach_aligned slot_aligned8)
  show "translate E' pt va = translate E pt va"
    using eq by (rule translate_cong)
  show "pt_reach E' pt va n t f = pt_reach E pt va n t f"
    by (rule pt_reach_cong) (rule eq)
qed

lemma no_alias_aligned_cong:
  assumes "page_aligned pt" "\<And>a. aligned8 a \<Longrightarrow> E' a = E a"
  shows "no_alias E' pt = no_alias E pt"
  using walk_aligned_cong(2) [of pt E' E] assms by (simp add: no_alias_def)

section \<open>Linking a new table page\<close>

text \<open>
  \<open>link_entry E s p\<close> is the page table in which the entry at \<open>s\<close> points to the zeroed table
  page \<open>p\<close> with all permissions.
\<close>

definition link_entry :: "(addr \<Rightarrow> u64) \<Rightarrow> addr \<Rightarrow> addr \<Rightarrow> addr \<Rightarrow> u64" where
  "link_entry E s p = (\<lambda>a. if a = s then p OR PTE_PWU else if same_page a p then 0 else E a)"

definition fresh_table :: "(addr \<Rightarrow> u64) \<Rightarrow> addr \<Rightarrow> addr \<Rightarrow> bool" where
  "fresh_table E pt p \<longleftrightarrow>
     page_aligned p \<and> next_table p = p \<and> (\<forall>va n t f. pt_reach E pt va n t f \<longrightarrow> t \<noteq> p)"

lemma bit_7: "bit (7 :: u64) n \<longleftrightarrow> n < 3"
proof -
  have "(7 :: u64) = mask 3" by (simp add: mask_eq_exp_minus_1)
  then have "bit (7 :: u64) n = bit (mask 3 :: u64) n" by (simp only:)
  then show ?thesis by (simp only: bit_mask_iff) auto
qed

lemma link_value:
  assumes "page_aligned p" "next_table p = p"
  shows "is_link (p OR PTE_PWU)" "next_table (p OR PTE_PWU) = p"
proof -
  have bits: "\<not> bit p n" if "n < 12" for n
    using assms(1) that by (simp add: page_aligned_bits)
  show "is_link (p OR PTE_PWU)"
    unfolding is_link_bits bit_or_iff bit_7 using bits by simp
  have "next_table (p OR PTE_PWU) = next_table p"
    unfolding next_table_def by (rule bit_word_eqI) (auto simp only: bit_and_iff bit_or_iff bit_7 bit_PAMASK)
  with assms(2) show "next_table (p OR PTE_PWU) = p" by simp
qed

lemma same_slot_reach:
  assumes "page_aligned pt" "no_alias E pt"
    and "pt_reach E pt va n t f" "pt_reach E pt va' n' t' f'"
    and "slot t' n' va' = slot t n va"
  shows "n' = n \<and> t' = t \<and> agree_above n va va' \<and> pgidx n va = pgidx n va'"
proof -
  have "page_aligned t" "page_aligned t'"
    using assms pt_reach_aligned by blast+
  then have "t' = t" "pgidx n' va' = pgidx n va"
    using assms(5) by (simp_all add: slot_eq_iff)
  with assms(2-4) show ?thesis
    unfolding no_alias_def by metis
qed

lemma agree_above_Suc:
  "n < 3 \<Longrightarrow> agree_above n va va' \<longleftrightarrow> agree_above (Suc n) va va' \<and> pgidx (Suc n) va = pgidx (Suc n) va'"
  unfolding agree_above_def using less_Suc_eq by (auto simp: Suc_le_eq)

lemma agree_above_sym: "agree_above n va va' \<Longrightarrow> agree_above n va' va"
  by (simp add: agree_above_def)

lemma agree_above_trans: "agree_above n va va' \<Longrightarrow> agree_above n va' va'' \<Longrightarrow> agree_above n va va''"
  by (simp add: agree_above_def)

lemma link_entry_outside:
  assumes "page_aligned pt" "fresh_table E pt p" "pt_reach E pt va n t f" "slot t n va \<noteq> s"
  shows "link_entry E s p (slot t n va) = E (slot t n va)"
proof -
  have "page_aligned t" using assms pt_reach_aligned by blast
  moreover have "t \<noteq> p" "page_aligned p" using assms(2,3) by (auto simp: fresh_table_def)
  ultimately show ?thesis
    using assms(4) by (simp add: link_entry_def slot_not_page)
qed

lemma link_entry_empty:
  assumes "page_aligned p" "slot p n va \<noteq> s"
  shows "link_entry E s p (slot p n va) = 0"
  using assms by (simp add: link_entry_def slot_same_page)

lemma link_reach:
  assumes "page_aligned pt" "no_alias E pt" "fresh_table E pt p"
    and at: "pt_reach E pt va (Suc n) t f"
    and "pt_reach (link_entry E (slot t (Suc n) va) p) pt va' k t' f'"
  shows "pt_reach E pt va' k t' f' \<or> k = n \<and> t' = p \<and> agree_above n va va'"
  using assms(5)
proof (induction rule: pt_reach.induct)
  case root
  show ?case by (simp add: pt_reach.root)
next
  case (down m t' f')
  let ?E = "link_entry E (slot t (Suc n) va) p"
  have p: "page_aligned p" "next_table p = p" "t \<noteq> p" "page_aligned t"
    using assms(3) at pt_reach_aligned [OF at assms(1)] unfolding fresh_table_def by blast+
  have n: "n < 3" using pt_reach_level [OF at] by simp
  from down.IH show ?case
  proof (elim disjE)
    assume old: "pt_reach E pt va' (Suc m) t' f'"
    show ?thesis
    proof (cases "slot t' (Suc m) va' = slot t (Suc n) va")
      case True
      from same_slot_reach [OF assms(1,2) at old this] n
      have "m = n" "agree_above n va va'" by (simp_all add: agree_above_Suc)
      moreover have "next_table (?E (slot t' (Suc m) va')) = p"
        using True p by (simp add: link_entry_def link_value)
      ultimately show ?thesis by simp
    next
      case False
      with old down.hyps(2) pt_reach.down [OF old] show ?thesis
        by (simp add: link_entry_outside [OF assms(1,3)])
    qed
  next
    assume "Suc m = n \<and> t' = p \<and> agree_above n va va'"
    moreover from this p have "slot t' (Suc m) va' \<noteq> slot t (Suc n) va"
      by (simp add: slot_eq_iff)
    ultimately have "?E (slot t' (Suc m) va') = 0"
      using p by (simp add: link_entry_empty)
    with down.hyps(2) show ?thesis by (simp add: is_link_bits)
  qed
qed

lemma link_no_alias:
  assumes "page_aligned pt" "no_alias E pt" "fresh_table E pt p" "pt_reach E pt va (Suc n) t f"
  shows "no_alias (link_entry E (slot t (Suc n) va) p) pt"
  unfolding no_alias_def
proof (intro allI impI, elim conjE)
  fix va1 n1 t1 f1 va2 n2 f2
  assume "pt_reach (link_entry E (slot t (Suc n) va) p) pt va1 n1 t1 f1"
    and "pt_reach (link_entry E (slot t (Suc n) va) p) pt va2 n2 t1 f2"
  then have "pt_reach E pt va1 n1 t1 f1 \<or> n1 = n \<and> t1 = p \<and> agree_above n va va1"
    and "pt_reach E pt va2 n2 t1 f2 \<or> n2 = n \<and> t1 = p \<and> agree_above n va va2"
    using link_reach [OF assms] by blast+
  then show "n1 = n2 \<and> agree_above n1 va1 va2"
    using assms(2,3) unfolding no_alias_def fresh_table_def
    by (metis agree_above_sym agree_above_trans)
qed

lemma link_reach_upper:
  assumes "page_aligned pt" "no_alias E pt" "fresh_table E pt p"
    and at: "pt_reach E pt va (Suc n) t f" and "agree_above (Suc n) va va'"
  shows "pt_reach (link_entry E (slot t (Suc n) va) p) pt va' (Suc n) t f"
proof (rule pt_reach_cong_above)
  show "pt_reach E pt va' (Suc n) t f"
    using at assms(5) by (rule pt_reach_agree)
  fix k t' f' assume k: "pt_reach E pt va' k t' f'" "Suc n < k"
  then have "slot t' k va' \<noteq> slot t (Suc n) va"
    using same_slot_reach [OF assms(1,2) at k(1)] by auto
  then show "link_entry E (slot t (Suc n) va) p (slot t' k va') = E (slot t' k va')"
    by (rule link_entry_outside [OF assms(1,3) k(1)])
qed

lemma link_reaches:
  assumes "page_aligned pt" "no_alias E pt" "fresh_table E pt p"
    and at: "pt_reach E pt va (Suc n) t f" and "agree_above n va va'"
  shows "pt_reach (link_entry E (slot t (Suc n) va) p) pt va' n p (f AND (p OR PTE_PWU))"
proof -
  let ?E = "link_entry E (slot t (Suc n) va) p"
  have n: "n < 3" using pt_reach_level [OF at] by simp
  with assms(5) have ag: "agree_above (Suc n) va va'" "slot t (Suc n) va' = slot t (Suc n) va"
    by (simp_all add: agree_above_Suc slot_def)
  have "?E (slot t (Suc n) va') = p OR PTE_PWU"
    by (simp add: link_entry_def ag)
  then show ?thesis
    using pt_reach.down [OF link_reach_upper [OF assms(1-4) ag(1)]] assms(3) link_value
    by (simp add: fresh_table_def)
qed

lemma link_translate:
  assumes "page_aligned pt" "no_alias E pt" "fresh_table E pt p"
    and at: "pt_reach E pt va (Suc n) t f" and "\<not> bit (E (slot t (Suc n) va)) 0"
  shows "translate (link_entry E (slot t (Suc n) va) p) pt va' = translate E pt va'"
proof (cases "agree_above n va va'")
  case True
  let ?E = "link_entry E (slot t (Suc n) va) p"
  have n: "n < 3" using pt_reach_level [OF at] by simp
  have "pt_reach E pt va' (Suc n) t f" "slot t (Suc n) va' = slot t (Suc n) va"
    using at True n by (auto simp: agree_above_Suc slot_def intro: pt_reach_agree)
  with assms(5) have "translate E pt va' = None"
    by (metis translate_absent)
  moreover have "slot p n va' \<noteq> slot t (Suc n) va"
    using assms(1,3) at pt_reach_aligned by (simp add: fresh_table_def slot_eq_iff) blast
  then have "\<not> bit (?E (slot p n va')) 0"
    using assms(3) by (simp add: link_entry_empty fresh_table_def)
  then have "translate ?E pt va' = None"
    by (rule translate_absent [OF link_reaches [OF assms(1-4) True]])
  ultimately show ?thesis by simp
next
  case False
  have n: "n < 3" using pt_reach_level [OF at] by simp
  show ?thesis
  proof (rule translate_cong)
    fix k t' f' assume k: "pt_reach E pt va' k t' f'"
    have "slot t' k va' \<noteq> slot t (Suc n) va"
      using same_slot_reach [OF assms(1,2) at k] False n by (auto simp: agree_above_Suc)
    then show "link_entry E (slot t (Suc n) va) p (slot t' k va') = E (slot t' k va')"
      by (rule link_entry_outside [OF assms(1,3) k])
  qed
qed

section \<open>Writing a leaf entry\<close>

lemma leaf_write:
  assumes "page_aligned pt" "no_alias E pt" and at: "pt_reach E pt va 0 t f"
  shows "pt_reach (E(slot t 0 va := e)) pt va' k t' f' = pt_reach E pt va' k t' f'"
    and "no_alias (E(slot t 0 va := e)) pt"
    and "\<not> (agree_above 0 va va' \<and> pgidx 0 va = pgidx 0 va') \<Longrightarrow>
      translate (E(slot t 0 va := e)) pt va' = translate E pt va'"
    and "translate (E(slot t 0 va := e)) pt va =
      (if bit e 0 then Some (leaf_pa 0 e va, bit e 1 \<and> bit f 1, bit e 2 \<and> bit f 2) else None)"
proof -
  let ?E = "E(slot t 0 va := e)"
  have upper: "?E (slot t' k va') = E (slot t' k va')"
    if "pt_reach E pt va' k t' f'" "0 < k" for k t' f' va'
    using same_slot_reach [OF assms(1,2) at that(1)] that(2) by auto
  have reach: "pt_reach ?E pt va' k t' f' = pt_reach E pt va' k t' f'" for va' k t' f'
    using upper by (rule pt_reach_cong)
  then show "pt_reach ?E pt va' k t' f' = pt_reach E pt va' k t' f'" .
  show "no_alias ?E pt" using assms(2) by (simp add: no_alias_def reach)
  show "translate ?E pt va' = translate E pt va'"
    if "\<not> (agree_above 0 va va' \<and> pgidx 0 va = pgidx 0 va')"
    using that same_slot_reach [OF assms(1,2) at] by (intro translate_cong) auto
  have "pt_reach ?E pt va 0 t f" using at reach by simp
  from translate_reach [OF this] show "translate ?E pt va =
      (if bit e 0 then Some (leaf_pa 0 e va, bit e 1 \<and> bit f 1, bit e 2 \<and> bit f 2) else None)"
    by (simp add: Let_def restrict_flags_def)
qed

end
