(* ===== verification/Vmiter.thy ===== *)
theory Vmiter
  imports PageTable
begin

text \<open>
  The virtual memory iterator \<open>vmiter\<close> of \<open>pset3/k-vmiter.hh\<close> and \<open>pset3/k-vmiter.cc\<close>. An
  iterator holds the address of the page table, a pointer to the current entry, the number of
  address bits below the current level, the permissions accumulated on the way and the current
  virtual address. Memory is a parameter of the queries and of the traversal; \<open>try_map\<close> also
  changes it and calls \<open>kalloc\<close>.
\<close>

section \<open>Definitions\<close>

text \<open>The entry pointer \<open>pep_\<close> points into a table page or at the static zero entry.\<close>

datatype pep = ZeroPE | PE addr

record vmiter =
  vm_pt :: addr
  vm_pep :: pep
  vm_lbits :: nat
  vm_perm :: u32
  vm_va :: u64

abbreviation initial_lbits :: nat where "initial_lbits \<equiv> 39"
abbreviation noncanonical_lbits :: nat where "noncanonical_lbits \<equiv> 47"
abbreviation done_lbits :: nat where "done_lbits \<equiv> 64"
abbreviation initial_perm :: u32 where "initial_perm \<equiv> 0xFFF"

fun read_pe :: "mem \<Rightarrow> pep \<Rightarrow> u64" where
  "read_pe m ZeroPE = 0"
| "read_pe m (PE a) = load64 m a"

text \<open>C leaves a shift by the whole width undefined; \<open>lbits_mask 64\<close> is all ones here.\<close>

definition lbits_mask :: "nat \<Rightarrow> u64" where
  "lbits_mask lbits = NOT (push_bit lbits (NOT 0))"

subsection \<open>Queries\<close>

definition vmiter_done :: "vmiter \<Rightarrow> bool" where
  "vmiter_done it \<longleftrightarrow> vm_lbits it = done_lbits"

definition vmiter_last_va :: "vmiter \<Rightarrow> u64" where
  "vmiter_last_va it =
     (if vm_lbits it = noncanonical_lbits then VA_HIGHMIN
      else (vm_va it OR lbits_mask (vm_lbits it)) + 1)"

definition vmiter_range_size :: "vmiter \<Rightarrow> u64" where
  "vmiter_range_size it = vmiter_last_va it - vm_va it"

definition vmiter_low :: "vmiter \<Rightarrow> bool" where
  "vmiter_low it \<longleftrightarrow> vm_va it \<le> VA_LOWMAX"

definition vmiter_pa :: "mem \<Rightarrow> vmiter \<Rightarrow> u64" where
  "vmiter_pa m it =
     (let pe = read_pe m (vm_pep it) in
      if pe AND PTE_P \<noteq> 0
      then let pa = pe AND PTE_PAMASK;
               pa' = (if vm_lbits it > PAGEOFFBITS then pa AND NOT 0x1000 else pa)
           in pa' + (vm_va it AND lbits_mask (vm_lbits it))
      else - 1)"

text \<open>The null pointer is \<open>0\<close>.\<close>

definition vmiter_kptr :: "mem \<Rightarrow> vmiter \<Rightarrow> addr" where
  "vmiter_kptr m it = (if read_pe m (vm_pep it) AND PTE_P \<noteq> 0 then vmiter_pa m it else 0)"

definition vmiter_perm :: "mem \<Rightarrow> vmiter \<Rightarrow> u64" where
  "vmiter_perm m it =
     (let ph = read_pe m (vm_pep it) AND scast (vm_perm it) in ph AND - (ph AND PTE_P))"

definition vmiter_has_perm :: "mem \<Rightarrow> vmiter \<Rightarrow> u64 \<Rightarrow> bool" where
  "vmiter_has_perm m it desired_perm \<longleftrightarrow> vmiter_perm m it AND desired_perm = desired_perm"

definition vmiter_present :: "mem \<Rightarrow> vmiter \<Rightarrow> bool" where
  "vmiter_present m it \<longleftrightarrow> vmiter_has_perm m it PTE_P"

definition vmiter_writable :: "mem \<Rightarrow> vmiter \<Rightarrow> bool" where
  "vmiter_writable m it \<longleftrightarrow> vmiter_has_perm m it (PTE_P OR PTE_W)"

definition vmiter_user :: "mem \<Rightarrow> vmiter \<Rightarrow> bool" where
  "vmiter_user m it \<longleftrightarrow> vmiter_has_perm m it (PTE_P OR PTE_U)"

subsection \<open>Traversal\<close>

text \<open>The loop of \<open>vmiter::down\<close>, then its sanity check.\<close>

function vmiter_descend :: "mem \<Rightarrow> vmiter \<Rightarrow> vmiter" where
  "vmiter_descend m it =
     (if vm_lbits it > PAGEOFFBITS \<and> read_pe m (vm_pep it) AND (PTE_P OR PTE_PS) = PTE_P
      then let pe = read_pe m (vm_pep it);
               perm = ucast (scast (vm_perm it) AND (pe OR NOT (PTE_P OR PTE_W OR PTE_U)));
               lbits = vm_lbits it - PAGEINDEXBITS;
               pa = pe AND PTE_PAMASK
           in vmiter_descend m (it\<lparr>vm_perm := perm, vm_lbits := lbits,
                vm_pep := PE (pa + 8 * (drop_bit lbits (vm_va it) AND 0x1FF))\<rparr>)
      else it)"
  by pat_completeness auto
termination
  by (relation "measure (\<lambda>(m, it). vm_lbits it)") auto

declare vmiter_descend.simps [simp del]

definition vmiter_down :: "mem \<Rightarrow> vmiter \<Rightarrow> vmiter result" where
  "vmiter_down m it =
     (let it' = vmiter_descend m it in
      if read_pe m (vm_pep it') AND PTE_PAMASK \<ge> 0x100000000
         \<and> vm_lbits it' < PAGEOFFBITS + 2 * PAGEINDEXBITS
      then Inl (Panic ''Page table may contain uninitialized memory'')
      else Inr it')"

text \<open>Moving within the current table page: \<open>pep_ += index - curidx\<close>.\<close>

fun pep_move :: "pep \<Rightarrow> u64 \<Rightarrow> pep" where
  "pep_move ZeroPE idx = ZeroPE"
| "pep_move (PE a) idx = PE (a + 8 * (idx - drop_bit 3 (a mod PAGESIZE)))"

definition vmiter_find_impl :: "mem \<Rightarrow> vmiter \<Rightarrow> u64 \<Rightarrow> bool \<Rightarrow> vmiter result" where
  "vmiter_find_impl m it va stepping =
     (let it' =
        (if stepping \<and> va = 0
         then it\<lparr>vm_lbits := done_lbits, vm_perm := 0, vm_pep := ZeroPE\<rparr>
         else if vm_lbits it < initial_lbits
              \<and> (vm_va it XOR va) AND push_bit (vm_lbits it + PAGEINDEXBITS) (NOT 0) = 0
         then it\<lparr>vm_pep := pep_move (vm_pep it) (drop_bit (vm_lbits it) va AND 0x1FF)\<rparr>
         else if \<not> va_is_canonical va
         then it\<lparr>vm_lbits := noncanonical_lbits, vm_perm := 0, vm_pep := ZeroPE\<rparr>
         else it\<lparr>vm_lbits := initial_lbits, vm_perm := initial_perm,
                 vm_pep := PE (vm_pt it + 8 * (drop_bit initial_lbits va AND 0x1FF))\<rparr>)
      in vmiter_down m (it'\<lparr>vm_va := va\<rparr>))"

definition vmiter_new :: "mem \<Rightarrow> addr \<Rightarrow> u64 \<Rightarrow> vmiter result" where
  "vmiter_new m pt va =
     vmiter_find_impl m
       \<lparr>vm_pt = pt, vm_pep = PE pt, vm_lbits = initial_lbits, vm_perm = initial_perm, vm_va = 0\<rparr>
       va False"

definition vmiter_find :: "mem \<Rightarrow> vmiter \<Rightarrow> u64 \<Rightarrow> vmiter result" where
  "vmiter_find m it va = (if va \<noteq> vm_va it then vmiter_find_impl m it va False else Inr it)"

definition vmiter_add :: "mem \<Rightarrow> vmiter \<Rightarrow> u64 \<Rightarrow> vmiter result" where
  "vmiter_add m it delta = vmiter_find m it (vm_va it + delta)"

definition vmiter_sub :: "mem \<Rightarrow> vmiter \<Rightarrow> u64 \<Rightarrow> vmiter result" where
  "vmiter_sub m it delta = vmiter_find m it (vm_va it - delta)"

definition vmiter_next_range :: "mem \<Rightarrow> vmiter \<Rightarrow> vmiter result" where
  "vmiter_next_range m it = vmiter_find_impl m it (vmiter_last_va it) True"

definition vmiter_next :: "mem \<Rightarrow> vmiter \<Rightarrow> vmiter result" where
  "vmiter_next m it =
     (let lbits = (if vm_lbits it > PAGEOFFBITS \<and> vmiter_perm m it = 0 then vm_lbits it
                   else PAGEOFFBITS)
      in vmiter_find_impl m it ((vm_va it OR lbits_mask lbits) + 1) True)"

section \<open>The position an iterator should have\<close>

text \<open>
  \<open>vmiter_start pt va\<close> is an iterator at the root for \<open>va\<close>; the iterator the constructor
  builds is its descent. An iterator is well formed when it is in that position (or done).
\<close>

definition vmiter_start :: "addr \<Rightarrow> u64 \<Rightarrow> vmiter" where
  "vmiter_start pt va =
     (if va_is_canonical va
      then \<lparr>vm_pt = pt, vm_pep = PE (slot pt 3 va), vm_lbits = initial_lbits,
            vm_perm = initial_perm, vm_va = va\<rparr>
      else \<lparr>vm_pt = pt, vm_pep = ZeroPE, vm_lbits = noncanonical_lbits, vm_perm = 0, vm_va = va\<rparr>)"

definition vmiter_wf :: "mem \<Rightarrow> vmiter \<Rightarrow> bool" where
  "vmiter_wf m it \<longleftrightarrow> it = vmiter_descend m (vmiter_start (vm_pt it) (vm_va it))"

lemma vmiter_new_start: "vmiter_new m pt va = vmiter_down m (vmiter_start pt va)"
  by (simp add: vmiter_new_def vmiter_find_impl_def vmiter_start_def slot_def pgidx_def)

lemma lbits_mask_mask: "lbits_mask l = mask l"
  by (simp add: lbits_mask_def minus_exp_eq_not_mask)

section \<open>Permission bits\<close>

lemma and_eq_self_iff: "a AND b = b \<longleftrightarrow> (\<forall>i. bit b i \<longrightarrow> bit a i)" for a b :: "'a :: len word"
proof
  show "\<forall>i. bit b i \<longrightarrow> bit a i" if "a AND b = b"
    using that by (metis bit_and_iff)
  show "a AND b = b" if "\<forall>i. bit b i \<longrightarrow> bit a i"
    using that by (intro bit_word_eqI) (auto simp: bit_and_iff)
qed

lemma and_1_nonzero: "a AND 1 \<noteq> 0 \<longleftrightarrow> bit a 0" for a :: "'a :: len word"
  by (simp add: and_one_eq bit_0 odd_iff_mod_2_eq_one even_iff_mod_2_eq_zero)

lemma bit_3: "bit (3 :: u64) i \<longleftrightarrow> i = 0 \<or> i = 1"
proof -
  have "(3 :: u64) = mask 2" by (simp add: mask_eq_exp_minus_1)
  then have "bit (3 :: u64) i = bit (mask 2 :: u64) i" by (simp only:)
  then show ?thesis by (simp only: bit_mask_iff) auto
qed

lemma or_3: "PTE_P OR PTE_W = 3" and or_5: "PTE_P OR PTE_U = 5"
  by simp_all

lemma bit_5: "bit (5 :: u64) i \<longleftrightarrow> i = 0 \<or> i = 2"
proof -
  have "(5 :: u64) = 1 OR push_bit 2 1" by simp
  then have "bit (5 :: u64) i = bit (1 OR push_bit 2 1 :: u64) i" by (simp only:)
  then show ?thesis by (simp only: bit_or_iff bit_1_iff bit_push_bit_iff) auto
qed

text \<open>The permissions of an iterator whose path has the accumulated flags \<open>f\<close>.\<close>

definition path_perm :: "u64 \<Rightarrow> u32" where
  "path_perm f = ucast ((f OR NOT PTE_PWU) AND 0xFFF)"

lemma bit_0xFFF: "bit (0xFFF :: u64) i \<longleftrightarrow> i < 12"
proof -
  have "(0xFFF :: u64) = mask 12" by (simp add: mask_eq_exp_minus_1)
  then have "bit (0xFFF :: u64) i = bit (mask 12 :: u64) i" by (simp only:)
  then show ?thesis by (simp only: bit_mask_iff) auto
qed

lemma bit_path_perm: "bit (path_perm f) i \<longleftrightarrow> i < 12 \<and> (i < 3 \<longrightarrow> bit f i)"
  unfolding path_perm_def bit_unsigned_iff bit_and_iff bit_or_iff bit_not_iff bit_0xFFF bit_7
  by auto

lemma bit_scast_path_perm: "bit (scast (path_perm f) :: u64) i \<longleftrightarrow> i < 12 \<and> (i < 3 \<longrightarrow> bit f i)"
  by (auto simp: bit_signed_iff bit_path_perm)

lemma path_perm_root: "path_perm (- 1) = initial_perm"
  by (simp add: path_perm_def)

lemma path_perm_step:
  "ucast (scast (path_perm f) AND (e OR NOT (PTE_P OR PTE_W OR PTE_U))) = path_perm (f AND e)"
proof (rule bit_word_eqI)
  fix i
  have "PTE_P OR PTE_W OR PTE_U = 7" by simp
  then show "bit (ucast (scast (path_perm f) AND (e OR NOT (PTE_P OR PTE_W OR PTE_U))) :: u32) i
      = bit (path_perm (f AND e)) i"
    by (auto simp only: bit_unsigned_iff bit_and_iff bit_or_iff bit_not_iff bit_scast_path_perm
        bit_path_perm bit_7) auto
qed

section \<open>The descent follows the walk\<close>

definition vmiter_at :: "mem \<Rightarrow> vmiter \<Rightarrow> nat \<Rightarrow> addr \<Rightarrow> u64 \<Rightarrow> bool" where
  "vmiter_at m it n t f \<longleftrightarrow>
     vm_lbits it = PAGEOFFBITS + PAGEINDEXBITS * n \<and> vm_pep it = PE (slot t n (vm_va it))
     \<and> vm_perm it = path_perm f \<and> pt_reach (load64 m) (vm_pt it) (vm_va it) n t f"

lemma vmiter_start_at:
  "va_is_canonical va \<Longrightarrow> vmiter_at m (vmiter_start pt va) 3 pt (- 1)"
  by (simp add: vmiter_at_def vmiter_start_def path_perm_root pt_reach.root)

lemma vmiter_descend_zero: "vm_pep it = ZeroPE \<Longrightarrow> vmiter_descend m it = it"
  by (subst vmiter_descend.simps) simp

lemma vmiter_descend_stop:
  assumes "vmiter_at m it n t f" "n = 0 \<or> \<not> is_link (load64 m (slot t n (vm_va it)))"
  shows "vmiter_descend m it = it"
  using assms by (subst vmiter_descend.simps) (auto simp: vmiter_at_def is_link_def)

definition vmiter_child :: "vmiter \<Rightarrow> nat \<Rightarrow> addr \<Rightarrow> u64 \<Rightarrow> vmiter" where
  "vmiter_child it n t f =
     it\<lparr>vm_perm := path_perm f, vm_lbits := PAGEOFFBITS + PAGEINDEXBITS * n,
        vm_pep := PE (slot t n (vm_va it))\<rparr>"

lemma vmiter_child_at:
  "pt_reach (load64 m) (vm_pt it) (vm_va it) n t f \<Longrightarrow> vmiter_at m (vmiter_child it n t f) n t f"
  by (simp add: vmiter_at_def vmiter_child_def)

lemma vmiter_child_simps [simp]:
  "vm_pt (vmiter_child it n t f) = vm_pt it" "vm_va (vmiter_child it n t f) = vm_va it"
  by (simp_all add: vmiter_child_def)

lemma vmiter_at_unique:
  assumes "vmiter_at m it n t f" "vmiter_at m it' n t' f'" "vm_pt it = vm_pt it'" "vm_va it = vm_va it'"
  shows "it = it'"
  using assms pt_reach_unique [of "load64 m" "vm_pt it" "vm_va it" n t f t' f']
  by (auto simp: vmiter_at_def)

lemma vmiter_descend_step:
  assumes "vmiter_at m it (Suc n) t f" "is_link (load64 m (slot t (Suc n) (vm_va it)))"
  defines "e \<equiv> load64 m (slot t (Suc n) (vm_va it))"
  shows "vmiter_descend m it = vmiter_descend m (vmiter_child it n (next_table e) (f AND e))"
  using assms
  by (subst vmiter_descend.simps)
    (simp add: vmiter_at_def vmiter_child_def is_link_def Let_def path_perm_step [simplified]
      slot_def pgidx_def next_table_def)

text \<open>Where the descent ends: at a leaf entry or an entry that is not present.\<close>

definition vmiter_terminal :: "mem \<Rightarrow> vmiter \<Rightarrow> nat \<Rightarrow> addr \<Rightarrow> u64 \<Rightarrow> bool" where
  "vmiter_terminal m it n t f \<longleftrightarrow>
     vmiter_at m it n t f \<and> (n = 0 \<or> \<not> is_link (load64 m (slot t n (vm_va it))))"

lemma vmiter_descend_terminal:
  assumes "vmiter_at m it n t f"
  obtains n' t' f' where "n' \<le> n" "vmiter_terminal m (vmiter_descend m it) n' t' f'"
    "vm_pt (vmiter_descend m it) = vm_pt it" "vm_va (vmiter_descend m it) = vm_va it"
  using assms
proof (induction n arbitrary: it t f thesis)
  case 0
  then have "vmiter_descend m it = it" by (simp add: vmiter_descend_stop)
  with 0 show ?case by (simp add: vmiter_terminal_def)
next
  case (Suc n)
  let ?e = "load64 m (slot t (Suc n) (vm_va it))"
  show ?case
  proof (cases "is_link ?e")
    case True
    let ?it = "vmiter_child it n (next_table ?e) (f AND ?e)"
    have "vmiter_at m ?it n (next_table ?e) (f AND ?e)"
      using Suc.prems(2) pt_reach.down True by (intro vmiter_child_at) (simp add: vmiter_at_def)
    then obtain n' t' f' where "n' \<le> n" "vmiter_terminal m (vmiter_descend m ?it) n' t' f'"
      "vm_pt (vmiter_descend m ?it) = vm_pt ?it" "vm_va (vmiter_descend m ?it) = vm_va ?it"
      using Suc.IH by blast
    then show ?thesis
      using Suc.prems(1) [of n' t' f'] by (simp add: vmiter_descend_step [OF Suc.prems(2) True])
  next
    case False
    then have "vmiter_descend m it = it" using Suc.prems(2) by (simp add: vmiter_descend_stop)
    with Suc.prems(1) [of "Suc n" t f] Suc.prems(2) False show ?thesis
      by (simp add: vmiter_terminal_def)
  qed
qed

lemma vmiter_descend_from:
  assumes "pt_reach (load64 m) pt va n t f" "va_is_canonical va"
    and "vmiter_at m it n t f" "vm_pt it = pt" "vm_va it = va"
  shows "vmiter_descend m it = vmiter_descend m (vmiter_start pt va)"
  using assms
proof (induction arbitrary: it rule: pt_reach.induct)
  case root
  have "it = vmiter_start pt va"
    using root vmiter_start_at [of va m pt]
    by (intro vmiter_at_unique) (auto simp: vmiter_start_def)
  then show ?case by simp
next
  case (down n t f)
  let ?e = "load64 m (slot t (Suc n) va)"
  let ?up = "vmiter_child it (Suc n) t f"
  have up: "vmiter_at m ?up (Suc n) t f"
    using down by (intro vmiter_child_at) simp
  have "vmiter_descend m ?up =
      vmiter_descend m (vmiter_child ?up n (next_table ?e) (f AND ?e))"
    using vmiter_descend_step [OF up] down by simp
  also have "vmiter_child ?up n (next_table ?e) (f AND ?e) = it"
    using down pt_reach.down [of "load64 m" pt va n t f]
    by (intro vmiter_at_unique [OF vmiter_child_at]) auto
  finally show ?case
    using down.IH [OF down.prems(1) up] down.prems by simp
qed

lemma vmiter_wf_terminal:
  assumes "vmiter_wf m it" "va_is_canonical (vm_va it)"
  obtains n t f where "vmiter_terminal m it n t f" "n \<le> 3"
proof -
  have "vmiter_at m (vmiter_start (vm_pt it) (vm_va it)) 3 (vm_pt it) (- 1)"
    using assms(2) by (rule vmiter_start_at)
  then show ?thesis
    using that assms(1) unfolding vmiter_wf_def by (metis vmiter_descend_terminal)
qed

lemma vmiter_down_wf:
  assumes "vmiter_down m (vmiter_start pt va) = Inr it"
  shows "vmiter_wf m it" "vm_pt it = pt" "vm_va it = va"
proof -
  from assms have it: "it = vmiter_descend m (vmiter_start pt va)"
    by (simp add: vmiter_down_def Let_def split: if_splits)
  have "vm_pt it = pt \<and> vm_va it = va"
  proof (cases "va_is_canonical va")
    case True
    from vmiter_start_at [OF this, of m pt] show ?thesis
      unfolding it by (rule vmiter_descend_terminal) (simp add: vmiter_start_def)
  next
    case False
    then show ?thesis
      by (simp add: it vmiter_start_def vmiter_descend_zero)
  qed
  then show "vmiter_wf m it" "vm_pt it = pt" "vm_va it = va"
    by (simp_all add: vmiter_wf_def it)
qed

section \<open>An iterator answers as the hardware translates\<close>

lemma pt_reach_present: "pt_reach E pt va n t f \<Longrightarrow> bit f 0"
  by (induction rule: pt_reach.induct) (auto simp: bit_and_iff is_link_bits)

lemma mmu_walk_terminal:
  assumes "vmiter_terminal m it n t f"
  defines "e \<equiv> load64 m (slot t n (vm_va it))"
  shows "mmu_walk (load64 m) n t (vm_va it) =
    (if bit e 0 then Some (leaf_pa n e (vm_va it), bit e 1, bit e 2) else None)"
  using assms by (cases n) (auto simp: vmiter_terminal_def is_link_bits Let_def)

lemma bit_vmiter_perm:
  assumes "vmiter_at m it n t f"
  defines "e \<equiv> load64 m (slot t n (vm_va it))"
  shows "bit (vmiter_perm m it) i \<longleftrightarrow> bit e 0 \<and> bit e i \<and> i < 12 \<and> (i < 3 \<longrightarrow> bit f i)"
proof -
  define ph where "ph = e AND scast (path_perm f)"
  have ph: "bit ph j \<longleftrightarrow> bit e j \<and> j < 12 \<and> (j < 3 \<longrightarrow> bit f j)" for j
    by (simp add: ph_def bit_and_iff bit_scast_path_perm)
  have "bit f 0" using assms(1) by (auto simp: vmiter_at_def dest: pt_reach_present)
  then have ph0: "bit ph 0 = bit e 0" by (simp add: ph)
  have "vmiter_perm m it = ph AND - (ph AND 1)"
    using assms by (simp add: vmiter_perm_def vmiter_at_def Let_def ph_def)
  moreover have "ph AND 1 = (if bit ph 0 then 1 else 0)"
    by (simp add: and_one_eq bit_0 mod2_eq_if)
  ultimately have "vmiter_perm m it = (if bit ph 0 then ph else 0)" by simp
  then show ?thesis using \<open>bit f 0\<close> by (auto simp: ph ph0)
qed

lemma vmiter_terminal_answers:
  assumes "vmiter_terminal m it n t f"
  shows "translate (load64 m) (vm_pt it) (vm_va it) =
    (if vmiter_present m it then Some (vmiter_pa m it, vmiter_writable m it, vmiter_user m it) else None)"
    and "\<not> vmiter_present m it \<Longrightarrow> vmiter_pa m it = - 1"
proof -
  let ?e = "load64 m (slot t n (vm_va it))"
  have at: "vmiter_at m it n t f" using assms by (simp add: vmiter_terminal_def)
  then have "bit f 0" by (auto simp: vmiter_at_def dest: pt_reach_present)
  then have perms: "vmiter_present m it = bit ?e 0"
      "vmiter_writable m it = (bit ?e 0 \<and> bit ?e 1 \<and> bit f 1)"
      "vmiter_user m it = (bit ?e 0 \<and> bit ?e 2 \<and> bit f 2)"
    unfolding vmiter_present_def vmiter_writable_def vmiter_user_def vmiter_has_perm_def
      or_3 or_5 and_eq_self_iff bit_vmiter_perm [OF at] bit_3 bit_5 bit_1_iff
    by auto
  have pa: "vmiter_pa m it = (if bit ?e 0 then leaf_pa n ?e (vm_va it) else - 1)"
    using at unfolding vmiter_pa_def Let_def
    by (simp add: vmiter_at_def and_1_nonzero leaf_pa_def lbits_mask_mask and.assoc)
  have "translate (load64 m) (vm_pt it) (vm_va it) =
      restrict_flags f (mmu_walk (load64 m) n t (vm_va it))"
    using at by (intro translate_reach) (simp add: vmiter_at_def)
  then show "translate (load64 m) (vm_pt it) (vm_va it) =
      (if vmiter_present m it then Some (vmiter_pa m it, vmiter_writable m it, vmiter_user m it) else None)"
    by (simp add: mmu_walk_terminal [OF assms] perms pa restrict_flags_def)
  show "\<not> vmiter_present m it \<Longrightarrow> vmiter_pa m it = - 1"
    by (simp add: perms pa)
qed

section \<open>Moving an iterator equals building a new one\<close>

lemma pep_move_slot:
  assumes "page_aligned t"
  shows "pep_move (PE (slot t n va)) (pgidx n va') = PE (slot t n va')"
proof -
  have "unat (slot t n va mod PAGESIZE) = 8 * unat (pgidx n va)"
    using assms unat_pgidx_less [of n va]
    by (simp add: unat_mod unat_slot page_aligned_def mod_add_eq [symmetric])
  then have "unat (drop_bit 3 (slot t n va mod PAGESIZE)) = unat (pgidx n va)"
    by (simp add: drop_bit_eq_div unat_div)
  then have "drop_bit 3 (slot t n va mod PAGESIZE) = pgidx n va"
    by (simp add: word_unat_eq_iff)
  then show ?thesis by (simp add: slot_def algebra_simps)
qed

lemma drop_bit_eq_iff:
  "drop_bit k a = drop_bit k b \<longleftrightarrow> (\<forall>i \<ge> k. bit a i = bit b i)" for a b :: "'a :: len word"
proof
  assume "drop_bit k a = drop_bit k b"
  then have "bit (drop_bit k a) j = bit (drop_bit k b) j" for j by simp
  then show "\<forall>i \<ge> k. bit a i = bit b i"
    by (metis bit_drop_bit_eq comp_apply le_add_diff_inverse)
next
  assume "\<forall>i \<ge> k. bit a i = bit b i"
  then show "drop_bit k a = drop_bit k b"
    by (intro bit_word_eqI) (simp add: bit_drop_bit_eq)
qed

lemma xor_high_zero:
  "(a XOR b) AND push_bit k (NOT 0) = 0 \<longleftrightarrow> drop_bit k a = drop_bit k b" for a b :: "'a :: len word"
proof -
  have "bit ((a XOR b) AND push_bit k (NOT 0)) i \<longleftrightarrow> k \<le> i \<and> bit a i \<noteq> bit b i" for i
    by (auto simp: bit_and_iff bit_xor_iff bit_not_iff bit_mask_iff dest: bit_imp_le_length)
  then show ?thesis
    unfolding drop_bit_eq_iff by (metis bit_0_eq bit_eqI bot_apply bot_bool_def)
qed

lemma drop_bit_mono:
  fixes a b :: "'a :: len word"
  assumes "drop_bit k a = drop_bit k b" "k \<le> l"
  shows "drop_bit l a = drop_bit l b"
  using assms by (meson drop_bit_eq_iff order_trans)

lemma agree_above_drop_bit:
  "drop_bit (PAGEOFFBITS + PAGEINDEXBITS * n + PAGEINDEXBITS) va =
     drop_bit (PAGEOFFBITS + PAGEINDEXBITS * n + PAGEINDEXBITS) va' \<Longrightarrow> agree_above n va va'"
  unfolding agree_above_def pgidx_take_bit by (auto intro!: arg_cong [where f = "take_bit 9"] elim: drop_bit_mono)

lemma va_is_canonical_high: "va_is_canonical va \<longleftrightarrow> drop_bit 47 va = 0 \<or> drop_bit 47 va = 0x1FFFF"
proof -
  have less: "unat va < 18446744073709551616"
    using unsigned_less [of va] by simp
  have eq: "unat (drop_bit 47 va) = unat va div 140737488355328"
    by (simp add: drop_bit_eq_div unat_div)
  have "va \<le> VA_LOWMAX \<longleftrightarrow> unat va div 140737488355328 = 0"
    by (auto simp: word_le_nat_alt)
  moreover have "va \<ge> VA_HIGHMIN \<longleftrightarrow> unat va div 140737488355328 = 131071"
    using less by (auto simp: word_le_nat_alt)
  ultimately show ?thesis
    by (simp add: va_is_canonical_def word_unat_eq_iff eq)
qed

lemma vmiter_find_impl_start:
  assumes "vmiter_wf m it" "page_aligned (vm_pt it)"
  shows "vmiter_find_impl m it va False = vmiter_down m (vmiter_start (vm_pt it) va)"
proof (cases "vm_lbits it < initial_lbits
    \<and> (vm_va it XOR va) AND push_bit (vm_lbits it + PAGEINDEXBITS) (NOT 0) = 0")
  case True
  have can: "va_is_canonical (vm_va it)"
  proof (rule ccontr)
    assume "\<not> va_is_canonical (vm_va it)"
    with assms(1) have "vm_lbits it = noncanonical_lbits"
      unfolding vmiter_wf_def by (metis vmiter_descend_zero vmiter_start_def vmiter.select_convs(2,3))
    with True show False by simp
  qed
  with assms(1) obtain n t f where "vmiter_terminal m it n t f"
    by (rule vmiter_wf_terminal)
  then have at: "vmiter_at m it n t f" by (simp add: vmiter_terminal_def)
  then have lb: "vm_lbits it = PAGEOFFBITS + PAGEINDEXBITS * n" "vm_pep it = PE (slot t n (vm_va it))"
    and perm: "vm_perm it = path_perm f" and reach: "pt_reach (load64 m) (vm_pt it) (vm_va it) n t f"
    by (simp_all add: vmiter_at_def)
  have high: "drop_bit (PAGEOFFBITS + PAGEINDEXBITS * n + PAGEINDEXBITS) (vm_va it) =
      drop_bit (PAGEOFFBITS + PAGEINDEXBITS * n + PAGEINDEXBITS) va"
    using True by (simp only: xor_high_zero lb)
  then have reach': "pt_reach (load64 m) (vm_pt it) va n t f"
    using reach pt_reach_agree agree_above_drop_bit by blast
  have "drop_bit 47 (vm_va it) = drop_bit 47 va"
    using high by (rule drop_bit_mono) (use True lb in simp)
  with can have can': "va_is_canonical va" by (simp add: va_is_canonical_high)
  let ?it = "it\<lparr>vm_pep := PE (slot t n va), vm_va := va\<rparr>"
  have "page_aligned t" using reach assms(2) by (rule pt_reach_aligned)
  then have "vmiter_find_impl m it va False = vmiter_down m ?it"
    using True lb pep_move_slot [of t n "vm_va it" va]
    by (simp add: vmiter_find_impl_def pgidx_def)
  moreover have "vmiter_at m ?it n t f"
    using lb perm reach' by (simp add: vmiter_at_def)
  then have "vmiter_descend m ?it = vmiter_descend m (vmiter_start (vm_pt it) va)"
    using reach' can' by (intro vmiter_descend_from) simp_all
  ultimately show ?thesis by (simp add: vmiter_down_def)
next
  case False
  then show ?thesis
    unfolding vmiter_find_impl_def
    by (cases it) (auto simp: vmiter_start_def slot_def pgidx_def)
qed

section \<open>Ranges\<close>

lemma or_mask_nat: "n OR mask l = n div 2 ^ l * 2 ^ l + (2 ^ l - 1)" for n :: nat
proof -
  have "n OR mask l = push_bit l (drop_bit l n) OR mask l"
    by (rule bit_eqI) (auto simp: bit_simps)
  also have "\<dots> = push_bit l (drop_bit l n) + mask l"
    by (rule disjunctive_add_eq_or [symmetric]) (auto intro!: bit_eqI simp: bit_simps)
  finally show ?thesis
    by (simp add: push_bit_eq_mult drop_bit_eq_div mask_eq_exp_minus_1)
qed

lemma unat_drop: "unat (drop_bit l va) = unat va div 2 ^ l" for va :: u64
proof -
  have "take_bit 64 (unat va) = unat va"
    using unsigned_less [of va, where 'a = nat] by (simp add: take_bit_nat_eq_self_iff)
  then show ?thesis
    by (simp add: unsigned_drop_bit_eq drop_bit_eq_div [where 'a = nat])
qed

lemma unat_and_mask: "unat (va AND mask l) = unat va mod 2 ^ l" for va :: u64
  by (simp only: take_bit_eq_mask [symmetric] unsigned_take_bit_eq take_bit_eq_mod [where 'a = nat])

lemma range_split:
  fixes va :: u64
  assumes "l < 64"
  obtains q r P where "P = 2 ^ l" "unat va = q * P + r" "r < P" "unat (va OR mask l) = q * P + (P - 1)"
    "unat va div 2 ^ l = q" "unat va mod 2 ^ l = r" "P \<le> 2 ^ 63"
proof -
  have "unat (mask l :: u64) = mask l"
    using unat_and_mask [of "- 1" l] assms mask_mod_exp [of 64 l, where 'a = nat]
    by (simp add: unsigned_minus_1_eq_mask mask_eq_exp_minus_1)
  then have "unat (va OR mask l) = unat va div 2 ^ l * 2 ^ l + (2 ^ l - 1)"
    by (simp add: unsigned_or_eq or_mask_nat)
  moreover have "(2 :: nat) ^ l \<le> 2 ^ 63" using assms by (intro power_increasing) simp_all
  ultimately show ?thesis
    using that [OF refl div_mult_mod_eq [symmetric]] by simp
qed

lemma range_between:
  fixes va va' :: u64
  assumes "l < 64" "va \<le> va'" "va' \<le> va OR mask l"
  shows "drop_bit l va' = drop_bit l va"
proof -
  obtain q r P where P: "P = 2 ^ l" "unat va = q * P + r" "r < P" "unat (va OR mask l) = q * P + (P - 1)"
      "unat va div 2 ^ l = q" using range_split [OF assms(1)] .
  have "unat va' div P = unat va div 2 ^ l" unfolding P(5)
    using assms(2,3) P by (intro div_nat_eqI) (simp_all add: word_le_nat_alt mult.commute)
  then show ?thesis by (simp add: word_unat_eq_iff unat_drop P(1))
qed

lemma range_offset:
  fixes va N :: u64
  assumes "l < 64" "N \<le> (va OR mask l) - va"
  shows "va \<le> va + N" "drop_bit l (va + N) = drop_bit l va" "(va + N) AND mask l = (va AND mask l) + N"
proof -
  obtain q r P where P: "P = 2 ^ l" "unat va = q * P + r" "r < P" "unat (va OR mask l) = q * P + (P - 1)"
      "unat va div 2 ^ l = q" "unat va mod 2 ^ l = r" "P \<le> 2 ^ 63" using range_split [OF assms(1)] .
  then have "va \<le> va OR mask l" by (simp add: word_le_nat_alt)
  then have "unat N + r < P"
    using assms(2) P by (simp add: word_le_nat_alt unat_sub)
  then have le: "unat va + unat N \<le> unat (va OR mask l)" using P by linarith
  then have sum: "unat (va + N) = unat va + unat N"
    using unsigned_less [of "va OR mask l", where 'a = nat] by (subst unat_add_lem [symmetric]) simp
  then show ge: "va \<le> va + N" by (simp add: word_le_nat_alt)
  show "drop_bit l (va + N) = drop_bit l va"
    using le ge by (intro range_between [OF assms(1)]) (simp_all add: word_le_nat_alt sum)
  have "unat (va AND mask l) + unat N < 2 ^ 64"
    using \<open>unat N + r < P\<close> P by (simp add: unat_and_mask)
  then have "unat ((va AND mask l) + N) = r + unat N"
    by (subst unat_add_lem [THEN iffD1]) (simp_all add: unat_and_mask P(6))
  moreover have "(unat va + unat N) mod P = r + unat N"
    using \<open>unat N + r < P\<close> P by (simp add: add.assoc)
  ultimately show "(va + N) AND mask l = (va AND mask l) + N"
    by (simp add: word_unat_eq_iff unat_and_mask sum P(1))
qed

lemma vmiter_new_terminal:
  assumes "vmiter_new m pt va = Inr it" "va_is_canonical va"
  obtains n t f where "vmiter_terminal m it n t f" "n \<le> 3" "vm_pt it = pt" "vm_va it = va"
proof -
  have wf: "vmiter_wf m it" and eqs: "vm_pt it = pt" "vm_va it = va"
    using assms(1) vmiter_down_wf by (simp_all add: vmiter_new_start)
  then show ?thesis
    using assms(2) that vmiter_wf_terminal [OF wf] by blast
qed

text \<open>Within a range an iterator differs only in its address.\<close>

lemma vmiter_terminal_move:
  assumes "vmiter_terminal m it n t f"
    and "drop_bit (PAGEOFFBITS + PAGEINDEXBITS * n) va' = drop_bit (PAGEOFFBITS + PAGEINDEXBITS * n) (vm_va it)"
  shows "vmiter_terminal m (it\<lparr>vm_va := va'\<rparr>) n t f"
proof -
  have "pgidx n va' = pgidx n (vm_va it)" using assms(2) by (simp add: pgidx_def)
  then have "slot t n va' = slot t n (vm_va it)" by (simp add: slot_def)
  moreover have "agree_above n (vm_va it) va'"
    using assms(2) by (intro agree_above_drop_bit) (metis drop_bit_mono le_add1)
  ultimately show ?thesis
    using assms(1) pt_reach_agree by (auto simp: vmiter_terminal_def vmiter_at_def)
qed

lemma vmiter_terminal_bound: "vmiter_terminal m it n t f \<Longrightarrow> n \<le> 3"
proof -
  have "n \<le> 3" if "pt_reach E pt va n t f" for E pt va
    using that by (induction rule: pt_reach.induct) simp_all
  then show "vmiter_terminal m it n t f \<Longrightarrow> n \<le> 3"
    by (auto simp: vmiter_terminal_def vmiter_at_def)
qed

lemma vmiter_terminal_descend:
  assumes "vmiter_terminal m it n t f" "va_is_canonical (vm_va it)"
  shows "vmiter_descend m (vmiter_start (vm_pt it) (vm_va it)) = it"
proof -
  have at: "vmiter_at m it n t f" using assms(1) by (simp add: vmiter_terminal_def)
  then have "vmiter_descend m it = vmiter_descend m (vmiter_start (vm_pt it) (vm_va it))"
    using assms(2) by (intro vmiter_descend_from) (auto simp: vmiter_at_def)
  moreover have "vmiter_descend m it = it"
    using at assms(1) by (intro vmiter_descend_stop) (auto simp: vmiter_terminal_def)
  ultimately show ?thesis by simp
qed

lemma canonical_drop_bit:
  "drop_bit l va' = drop_bit l va \<Longrightarrow> l \<le> 47 \<Longrightarrow> va_is_canonical va' = va_is_canonical va"
  unfolding va_is_canonical_high by (metis drop_bit_mono)

lemma vmiter_new_same_range:
  assumes "vmiter_new m pt va = Inr it" "va_is_canonical va"
    and "drop_bit (vm_lbits it) va' = drop_bit (vm_lbits it) va"
  shows "vmiter_new m pt va' = Inr (it\<lparr>vm_va := va'\<rparr>)" "va_is_canonical va'"
proof -
  from assms(1,2) obtain n t f where trm: "vmiter_terminal m it n t f"
    and it: "vm_pt it = pt" "vm_va it = va" and "n \<le> 3" by (rule vmiter_new_terminal)
  then have lb: "vm_lbits it = PAGEOFFBITS + PAGEINDEXBITS * n"
    by (simp add: vmiter_terminal_def vmiter_at_def)
  then have "vm_lbits it \<le> 47" using \<open>n \<le> 3\<close> by simp
  then show can: "va_is_canonical va'" using assms(2,3) canonical_drop_bit by blast
  have "vmiter_terminal m (it\<lparr>vm_va := va'\<rparr>) n t f"
    using assms(3) it(2) lb by (intro vmiter_terminal_move [OF trm]) simp
  then have "vmiter_descend m (vmiter_start pt va') = it\<lparr>vm_va := va'\<rparr>"
    using vmiter_terminal_descend [of m "it\<lparr>vm_va := va'\<rparr>" n t f] can it(1) by simp
  moreover have "vmiter_descend m (vmiter_start pt va) = it"
    using vmiter_terminal_descend [OF trm] assms(2) it by simp
  ultimately show "vmiter_new m pt va' = Inr (it\<lparr>vm_va := va'\<rparr>)"
    using assms(1) by (simp add: vmiter_new_start vmiter_down_def split: if_splits)
qed

lemma vmiter_new_answers:
  assumes "vmiter_new m pt va = Inr it" "va_is_canonical va"
  shows "translate (load64 m) pt va =
      (if vmiter_present m it then Some (vmiter_pa m it, vmiter_writable m it, vmiter_user m it) else None)"
    and "\<not> vmiter_present m it \<Longrightarrow> vmiter_pa m it = - 1 \<and> vmiter_perm m it = 0 \<and> vmiter_kptr m it = 0"
    and "vm_lbits it < 64"
proof -
  from assms obtain n t f where trm: "vmiter_terminal m it n t f"
    and it: "vm_pt it = pt" "vm_va it = va" "n \<le> 3" by (rule vmiter_new_terminal)
  note answers = vmiter_terminal_answers [OF trm, unfolded it]
  show "translate (load64 m) pt va =
      (if vmiter_present m it then Some (vmiter_pa m it, vmiter_writable m it, vmiter_user m it) else None)"
    by (rule answers(1))
  have at: "vmiter_at m it n t f" using trm by (simp add: vmiter_terminal_def)
  then show "vm_lbits it < 64" using it(3) by (simp add: vmiter_at_def)
  assume absent: "\<not> vmiter_present m it"
  have f0: "bit f 0" using at pt_reach_present by (auto simp: vmiter_at_def)
  then have e: "\<not> bit (load64 m (slot t n (vm_va it))) 0"
    using absent unfolding vmiter_present_def vmiter_has_perm_def and_eq_self_iff bit_vmiter_perm [OF at]
    by (auto simp: bit_1_iff)
  then have "vmiter_perm m it = 0"
    by (intro bit_word_eqI) (simp add: bit_vmiter_perm [OF at])
  moreover have "vmiter_kptr m it = 0"
    using e at by (simp add: vmiter_kptr_def vmiter_at_def and_1_nonzero)
  ultimately show "vmiter_pa m it = - 1 \<and> vmiter_perm m it = 0 \<and> vmiter_kptr m it = 0"
    using answers(2) absent by simp
qed

lemma vmiter_present_perm: 
  assumes "vmiter_perm m it = 0" shows "\<not> vmiter_present m it"
  using assms by (simp add: vmiter_present_def vmiter_has_perm_def)

lemma vmiter_find_impl_new:
  assumes "vmiter_new m pt va = Inr it" "page_aligned pt"
  shows "vmiter_find_impl m it va' False = vmiter_new m pt va'"
  using assms vmiter_down_wf [of m pt va it] vmiter_find_impl_start [of m it va']
  by (simp add: vmiter_new_start)

lemma vmiter_find_impl_stepping:
  "va \<noteq> 0 \<Longrightarrow> vmiter_find_impl m it va True = vmiter_find_impl m it va False"
  by (simp add: vmiter_find_impl_def)

lemma range_size_canonical:
  assumes "vmiter_new m pt va = Inr it" "va_is_canonical va"
  shows "N < vmiter_range_size it \<longleftrightarrow> N \<le> (va OR mask (vm_lbits it)) - va"
proof -
  from assms obtain n t f where trm: "vmiter_terminal m it n t f"
    and it: "vm_va it = va" "n \<le> 3" by (rule vmiter_new_terminal)
  then have lb: "vm_lbits it = PAGEOFFBITS + PAGEINDEXBITS * n"
    by (simp add: vmiter_terminal_def vmiter_at_def)
  then have l: "vm_lbits it < 64" "vm_lbits it \<noteq> 47" using it(2) by simp_all
  let ?k = "(va OR mask (vm_lbits it)) - va"
  have "vmiter_range_size it = ?k + 1"
    using l(2) it(1) by (simp add: vmiter_range_size_def vmiter_last_va_def lbits_mask_mask)
  moreover obtain q r P where "unat va = q * P + r" "r < P" "unat (va OR mask (vm_lbits it)) = q * P + (P - 1)"
      "P \<le> 2 ^ 63" using range_split [OF l(1)] .
  then have "unat ?k < 2 ^ 63" by (auto simp: unat_sub_if')
  then have "unat (?k + 1) = unat ?k + 1" by (subst unat_add_lem [THEN iffD1]) simp_all
  ultimately show ?thesis by (auto simp: word_less_nat_alt word_le_nat_alt)
qed

lemma vmiter_move_perm:
  "vmiter_perm m (it\<lparr>vm_va := va\<rparr>) = vmiter_perm m it"
  by (simp add: vmiter_perm_def)

lemma vmiter_present_entry:
  assumes "vmiter_present m it"
  shows "read_pe m (vm_pep it) AND PTE_P \<noteq> 0"
proof
  assume "read_pe m (vm_pep it) AND PTE_P = 0"
  then have "(read_pe m (vm_pep it) AND x) AND PTE_P = 0" for x
    by (simp add: and.assoc and.left_commute [of _ x])
  with assms show False
    by (simp add: vmiter_present_def vmiter_has_perm_def vmiter_perm_def Let_def)
qed

lemma vmiter_move_pa:
  assumes "vm_lbits it < 64" "N \<le> (vm_va it OR mask (vm_lbits it)) - vm_va it" "vmiter_present m it"
  shows "vmiter_pa m (it\<lparr>vm_va := vm_va it + N\<rparr>) = vmiter_pa m it + N"
  using vmiter_present_entry [OF assms(3)] range_offset(3) [OF assms(1,2)]
  by (simp add: vmiter_pa_def Let_def lbits_mask_mask)

text \<open>No address between an iterator without permissions and the end of its range is mapped.\<close>

lemma vmiter_skip_absent:
  assumes "vmiter_new m pt va = Inr it" "va_is_canonical va" "vmiter_perm m it = 0"
    and "va \<le> va'" "va' \<le> va OR mask (vm_lbits it)"
  shows "translate (load64 m) pt va' = None"
proof -
  note l = vmiter_new_answers(3) [OF assms(1,2)]
  note new = vmiter_new_same_range [OF assms(1,2) range_between [OF l assms(4,5)]]
  have "\<not> vmiter_present m (it\<lparr>vm_va := va'\<rparr>)"
    using assms(3) by (intro vmiter_present_perm) (simp add: vmiter_move_perm)
  then show ?thesis using vmiter_new_answers(1) [OF new] by simp
qed

lemma same_page_mask:
  assumes "va \<le> va'" "va' \<le> va OR mask 12"
  shows "same_page va va'"
  using range_between [of 12, OF _ assms] by (simp add: same_page_def word_unat_eq_iff unat_drop)

text \<open>The gap between the canonical halves.\<close>

lemma noncanonical_gap:
  assumes "\<not> va_is_canonical va" "va \<le> va'" "va' \<le> va OR mask 47"
  shows "\<not> va_is_canonical va'"
  using assms range_between [of 47 va va'] canonical_drop_bit [of 47 va' va] by simp

lemma vmiter_new_noncanonical:
  assumes "vmiter_new m pt va = Inr it" "\<not> va_is_canonical va"
  shows "vm_lbits it = noncanonical_lbits" "vmiter_perm m it = 0" "vm_va it = va"
proof -
  have "it = vmiter_start pt va"
    using assms by (simp add: vmiter_new_start vmiter_start_def vmiter_down_def vmiter_descend_zero)
  with assms(2) show "vm_lbits it = noncanonical_lbits" "vmiter_perm m it = 0" "vm_va it = va"
    by (simp_all add: vmiter_start_def vmiter_perm_def)
qed

definition next_end :: "mem \<Rightarrow> vmiter \<Rightarrow> u64" where
  "next_end m it = vm_va it OR mask
     (if vm_lbits it > PAGEOFFBITS \<and> vmiter_perm m it = 0 then vm_lbits it else PAGEOFFBITS)"

lemma next_end_gap:
  assumes "vmiter_new m pt va = Inr it" "va \<le> va'" "va' \<le> next_end m it"
    and "va_is_canonical va'" "\<not> same_page va va'"
  shows "translate (load64 m) pt va' = None"
proof (cases "va_is_canonical va")
  case True
  have va: "vm_va it = va" using assms(1) True by (rule vmiter_new_terminal)
  show ?thesis
  proof (cases "vm_lbits it > PAGEOFFBITS \<and> vmiter_perm m it = 0")
    case skip: True
    with va assms(3) show ?thesis
      by (intro vmiter_skip_absent [OF assms(1) True _ assms(2)]) (simp_all add: next_end_def)
  next
    case False
    then show ?thesis using same_page_mask [OF assms(2)] assms(3,5) va by (auto simp: next_end_def)
  qed
next
  case False
  from noncanonical_gap [OF this assms(2)] vmiter_new_noncanonical [OF assms(1) False] assms(3,4)
  show ?thesis by (simp add: next_end_def)
qed

lemma vmiter_next_eq: "vmiter_next m it = vmiter_find_impl m it (next_end m it + 1) True"
  by (simp add: vmiter_next_def next_end_def lbits_mask_mask if_distrib [of mask])

lemma next_end_ge: "vm_va it \<le> next_end m it"
  by (simp add: next_end_def le_word_or2)

section \<open>An example: one large page\<close>

definition large_page_mem :: mem where
  "large_page_mem = store64 (store64 (store64 (\<lambda>_. 0) 0x1000 0x2007) 0x2000 0x3007) 0x3000 0x87"

lemma large_page_load64:
  "load64 large_page_mem 0x1000 = 0x2007" "load64 large_page_mem 0x2000 = 0x3007"
  "load64 large_page_mem 0x3000 = 0x87"
  by (simp_all add: large_page_mem_def load64_store64_same load64_store64_other aligned8_def)

abbreviation large_page_it :: "u64 \<Rightarrow> vmiter" where
  "large_page_it va \<equiv> \<lparr>vm_pt = 0x1000, vm_pep = PE 0x3000, vm_lbits = 21, vm_perm = 0xFFF, vm_va = va\<rparr>"

lemma large_page_new: "vmiter_new large_page_mem 0x1000 0x5000 = Inr (large_page_it 0x5000)"
  by (simp add: vmiter_new_def vmiter_find_impl_def va_is_canonical_def vmiter_down_def
      vmiter_descend.simps [of large_page_mem] large_page_load64)

lemma lbits_mask_values: "lbits_mask 12 = 0xFFF" "lbits_mask 21 = 0x1FFFFF"
  by (simp_all add: lbits_mask_mask mask_eq_exp_minus_1)

lemma large_page_pa: "vmiter_pa large_page_mem (large_page_it 0x5000) = 0x5000"
  by (simp add: vmiter_pa_def large_page_load64 lbits_mask_values)

lemma large_page_present: "vmiter_present large_page_mem (large_page_it va)"
  by (simp add: vmiter_present_def vmiter_has_perm_def vmiter_perm_def large_page_load64)

section \<open>Properties\<close>



text \<open>
  \<open>C3\<close>: moving an iterator is equivalent to building a new one. The fast path of
  \<open>find_impl\<close>, which stays in the current table page when the high address bits agree, gives
  the iterator the constructor gives, for every target address, canonical or not.
\<close>

theorem vmiter_find_fresh:
  assumes "vmiter_new m pt va = Inr it" "page_aligned pt"
  shows "vmiter_find m it va' = vmiter_new m pt va'"
  using assms vmiter_find_impl_new vmiter_down_wf(3)
  by (metis vmiter_find_def vmiter_new_start)

theorem vmiter_find_fresh_witness:
  "vmiter_find large_page_mem (large_page_it 0x5000) 0x6000 = vmiter_new large_page_mem 0x1000 0x6000"
  using vmiter_find_fresh [OF large_page_new] by (simp add: page_aligned_def)

text \<open>
  the contract of \<open>range_size\<close>. For every offset below the range size of a present
  iterator, \<open>*this + N\<close> exists, maps to the physical address \<open>pa() + N\<close> and has the same
  permissions.
\<close>

theorem vmiter_range_contract:
  assumes "vmiter_new m pt va = Inr it" "page_aligned pt" "va_is_canonical va"
    and "vmiter_present m it" "N < vmiter_range_size it"
  shows "\<exists>it'. vmiter_add m it N = Inr it' \<and> vmiter_pa m it' = vmiter_pa m it + N
    \<and> vmiter_perm m it' = vmiter_perm m it"
proof -
  have N: "N \<le> (va OR mask (vm_lbits it)) - va"
    using assms(5) by (simp add: range_size_canonical [OF assms(1,3)])
  have va: "vm_va it = va" using assms(1,3) by (rule vmiter_new_terminal)
  note l = vmiter_new_answers(3) [OF assms(1,3)]
  have "vmiter_new m pt (va + N) = Inr (it\<lparr>vm_va := va + N\<rparr>)"
    by (intro vmiter_new_same_range(1) [OF assms(1,3)] range_offset(2) [OF l N])
  then have "vmiter_add m it N = Inr (it\<lparr>vm_va := va + N\<rparr>)"
    using vmiter_find_impl_new [OF assms(1,2), of "va + N"] va
    by (cases it) (auto simp: vmiter_add_def vmiter_find_def)
  moreover have "vmiter_pa m (it\<lparr>vm_va := va + N\<rparr>) = vmiter_pa m it + N"
    using vmiter_move_pa [of it N m] l N assms(4) va by simp
  ultimately show ?thesis by (simp add: vmiter_move_perm)
qed

theorem vmiter_range_contract_witness:
  "\<exists>it'. vmiter_add large_page_mem (large_page_it 0x5000) 0x1234 = Inr it'
    \<and> vmiter_pa large_page_mem it' = 0x6234"
  using vmiter_range_contract [OF large_page_new, where N = "0x1234"]
  by (auto simp: page_aligned_def va_is_canonical_def large_page_present vmiter_range_size_def
      vmiter_last_va_def lbits_mask_values large_page_pa)

text \<open>
  \<open>C10\<close>: a loop with \<open>next()\<close> visits every mapped page. A step either reaches the end or
  moves to a higher address with the iterator the constructor gives there, and no canonical
  address outside the current page that lies before the new position is mapped.
\<close>

theorem vmiter_next_visits:
  assumes "vmiter_new m pt va = Inr it" "page_aligned pt" "vmiter_next m it = Inr it'"
  shows "(vmiter_done it' \<or> va < vm_va it' \<and> vmiter_new m pt (vm_va it') = Inr it')
    \<and> (\<forall>va'. va \<le> va' \<and> (vmiter_done it' \<or> va' < vm_va it') \<and> va_is_canonical va' \<and> \<not> same_page va va'
          \<longrightarrow> translate (load64 m) pt va' = None)"
proof -
  let ?e = "next_end m it"
  have va: "vm_va it = va"
    using assms(1) vmiter_new_terminal vmiter_new_noncanonical(3) by metis
  note gap = next_end_gap [OF assms(1)]
  show ?thesis
  proof (cases "?e + 1 = 0")
    case True
    then have "?e = - 1" by (simp add: eq_neg_iff_add_eq_0)
    moreover have "vmiter_done it'"
      using assms(3) True
      by (auto simp: vmiter_next_eq vmiter_find_impl_def vmiter_down_def vmiter_descend_zero vmiter_done_def)
    ultimately show ?thesis using gap by simp
  next
    case False
    then have new: "vmiter_new m pt (?e + 1) = Inr it'"
      using assms(3) vmiter_find_impl_new [OF assms(1,2)]
      by (simp add: vmiter_next_eq vmiter_find_impl_stepping)
    have va': "vm_va it' = ?e + 1"
      using new vmiter_new_terminal vmiter_new_noncanonical(3) by metis
    have "\<not> vmiter_done it'"
      using new vmiter_new_answers(3) vmiter_new_noncanonical(1)
      by (metis vmiter_done_def less_irrefl numeral_eq_iff num.distinct) 
    moreover have lt: "x < ?e + 1 \<longleftrightarrow> x \<le> ?e" for x
      using unatSuc [of ?e] False by (simp add: word_less_nat_alt word_le_nat_alt add.commute less_Suc_eq_le)
    ultimately show ?thesis
      using gap new va va' next_end_ge [of it m] by (auto simp: lt)
  qed
qed

theorem vmiter_next_visits_witness:
  "\<exists>it'. vmiter_next large_page_mem (large_page_it 0x5000) = Inr it' \<and> (vmiter_done it' \<or> 0x5000 < vm_va it')"
proof -
  have "vmiter_next large_page_mem (large_page_it 0x5000) = Inr (large_page_it 0x6000)"
    by (simp add: vmiter_next_def vmiter_perm_def large_page_load64 lbits_mask_values vmiter_find_impl_def va_is_canonical_def
        vmiter_down_def vmiter_descend.simps [of large_page_mem])
  moreover have "page_aligned 0x1000" by (simp add: page_aligned_def)
  ultimately show ?thesis
    using vmiter_next_visits [OF large_page_new] by blast
qed

end
