(* ===== verification/VmMap.thy ===== *)
theory VmMap
  imports Vmiter
begin

text \<open>
  Changing mappings: \<open>vmiter::try_map\<close> and \<open>vmiter::map\<close> of \<open>pset3/k-vmiter.cc\<close> and
  \<open>pset3/k-vmiter.hh\<close>. Missing table pages are allocated with \<open>kalloc\<close>. The theorems show
  that a successful call changes the translation of exactly one page, and that a failed call
  changes none.
\<close>

section \<open>Definitions\<close>

lemma vmiter_descend_lbits_le: "vm_lbits (vmiter_descend m it) \<le> vm_lbits it"
proof (induction m it rule: vmiter_descend.induct)
  case (1 m it)
  then show ?case
    by (subst vmiter_descend.simps) (fastforce simp: Let_def intro: order_trans)
qed

lemma vmiter_down_lbits_less:
  assumes "vm_lbits it > PAGEOFFBITS" "is_link (read_pe m (vm_pep it))" "vmiter_down m it = Inr it'"
  shows "vm_lbits it' < vm_lbits it"
proof -
  have "it' = vmiter_descend m it"
    using assms(3) by (simp add: vmiter_down_def Let_def split: if_splits)
  also have "vm_lbits (vmiter_descend m it) \<le> vm_lbits it - PAGEINDEXBITS"
    using assms(1,2)
    by (subst vmiter_descend.simps)
      (simp add: is_link_def Let_def order_trans [OF vmiter_descend_lbits_le])
  finally show ?thesis using assms(1) by simp
qed

text \<open>
  The loop that adds missing table pages. The Boolean result tells success from a failed
  \<open>kalloc\<close>. Writing through a pointer to the constant zero entry is undefined.
\<close>

function try_map_loop :: "addr \<Rightarrow> physmem \<Rightarrow> vmiter \<Rightarrow> u32 \<Rightarrow> (physmem \<times> vmiter \<times> bool) result" where
  "try_map_loop kend s it perm =
     (if vm_lbits it > PAGEOFFBITS \<and> perm \<noteq> 0
      then if read_pe (memory s) (vm_pep it) AND PTE_P \<noteq> 0 then Inl (AssertFail ''!(*pep_ & PTE_P)'')
           else case kalloc kend PAGESIZE s of (s1, pt) \<Rightarrow>
             (if pt = 0 then Inr (s1, it, False)
              else case vm_pep it of
                ZeroPE \<Rightarrow> Inl (Undefined ''write to zero_pe'')
              | PE a \<Rightarrow>
                  let m1 = fst (memset (memory s1) pt 0 PAGESIZE);
                      m2 = store64 m1 a (pt OR PTE_P OR PTE_W OR PTE_U)
                  in case vmiter_down m2 it of
                       Inl e \<Rightarrow> Inl e
                     | Inr it' \<Rightarrow> try_map_loop kend (s1\<lparr>memory := m2\<rparr>) it' perm)
      else Inr (s, it, True))"
  by pat_completeness auto

lemma or_PWU: "x OR PTE_P OR PTE_W OR PTE_U = x OR PTE_PWU"
  by simp

lemma is_link_or_PWU: "page_aligned p \<Longrightarrow> is_link (p OR PTE_PWU)"
  unfolding is_link_bits bit_or_iff bit_7 by (simp add: page_aligned_bits)

lemma try_map_step_less:
  assumes "kalloc kend PAGESIZE s = (s1, pt)" "pt \<noteq> 0" "vm_pep it = PE a" "vm_lbits it > PAGEOFFBITS"
    and "vmiter_down (store64 m1 a (pt OR PTE_PWU)) it = Inr it'"
  shows "vm_lbits it' < vm_lbits it"
proof (rule vmiter_down_lbits_less [OF assms(4) _ assms(5)])
  have "page_aligned pt" using assms(1,2) by (rule kalloc_page.alloc_page)
  then show "is_link (read_pe (store64 m1 a (pt OR PTE_PWU)) (vm_pep it))"
    by (simp only: assms(3) read_pe.simps load64_store64_same is_link_or_PWU)
qed

termination try_map_loop
  by (relation "measure (\<lambda>(kend, s, it, perm). vm_lbits it)") (simp, simp, metis try_map_step_less)

declare try_map_loop.simps [simp del]

definition try_map :: "addr \<Rightarrow> physmem \<Rightarrow> vmiter \<Rightarrow> u64 \<Rightarrow> u32 \<Rightarrow> (physmem \<times> vmiter \<times> int) result" where
  "try_map kend s it pa0 perm =
     (let pa = (if pa0 = - 1 \<and> perm = 0 then 0 else pa0) in
      if vm_va it mod PAGESIZE \<noteq> 0 then Inl (AssertFail ''vmiter::try_map va not aligned'')
      else if scast perm AND PTE_P \<noteq> 0 \<and> pa = - 1
      then Inl (AssertFail ''vmiter::try_map mapping nonexistent pa'')
      else if scast perm AND PTE_P \<noteq> 0 \<and> pa AND PTE_PAMASK \<noteq> pa
      then Inl (AssertFail ''vmiter::try_map pa not aligned'')
      else if scast perm AND PTE_P = 0 \<and> pa AND PTE_P \<noteq> 0
      then Inl (AssertFail ''vmiter::try_map invalid pa'')
      else if scast (perm AND NOT (vm_perm it)) AND (PTE_P OR PTE_W OR PTE_U) \<noteq> 0
      then Inl (AssertFail ''!(perm & ~perm_ & (PTE_P | PTE_W | PTE_U))'')
      else case try_map_loop kend s it perm of
        Inl e \<Rightarrow> Inl e
      | Inr (s', it', ok) \<Rightarrow>
          if \<not> ok then Inr (s', it', - 1)
          else if vm_lbits it' = PAGEOFFBITS
          then (case vm_pep it' of
                  ZeroPE \<Rightarrow> Inl (Undefined ''write to zero_pe'')
                | PE a \<Rightarrow> Inr (s'\<lparr>memory := store64 (memory s') a (pa OR scast perm)\<rparr>, it', 0))
          else Inr (s', it', 0))"

definition vmiter_map :: "addr \<Rightarrow> physmem \<Rightarrow> vmiter \<Rightarrow> u64 \<Rightarrow> u32 \<Rightarrow> (physmem \<times> vmiter) result" where
  "vmiter_map kend s it pa perm =
     (case try_map kend s it pa perm of
        Inl e \<Rightarrow> Inl e
      | Inr (s', it', r) \<Rightarrow>
          if r = 0 then Inr (s', it') else Inl (AssertFail ''vmiter::map failed''))"

text \<open>The overloads for kernel pointers first check the pointer for null.\<close>

definition vmiter_map_kptr :: "addr \<Rightarrow> physmem \<Rightarrow> vmiter \<Rightarrow> addr \<Rightarrow> u32 \<Rightarrow> (physmem \<times> vmiter) result" where
  "vmiter_map_kptr kend s it kp perm =
     (if kp = 0 then Inl (AssertFail ''kp != nullptr'') else vmiter_map kend s it kp perm)"

definition try_map_kptr :: "addr \<Rightarrow> physmem \<Rightarrow> vmiter \<Rightarrow> addr \<Rightarrow> u32 \<Rightarrow> (physmem \<times> vmiter \<times> int) result" where
  "try_map_kptr kend s it kp perm =
     (if kp = 0 then Inl (AssertFail ''kp != nullptr'') else try_map kend s it kp perm)"

section \<open>The invariant of a page table in memory\<close>

abbreviation entries :: "physmem \<Rightarrow> addr \<Rightarrow> u64" where
  "entries s \<equiv> load64 (memory s)"

text \<open>The table pages form a tree and none of them is a page \<open>kalloc\<close> could return.\<close>

definition pt_ok :: "addr \<Rightarrow> physmem \<Rightarrow> addr \<Rightarrow> bool" where
  "pt_ok kend s pt \<longleftrightarrow>
     page_aligned pt \<and> no_alias (entries s) pt
     \<and> (\<forall>va n t f. pt_reach (entries s) pt va n t f \<longrightarrow> \<not> page_available kend s t)"

lemma available_next_table:
  assumes "page_available kend s p"
  shows "next_table p = p"
proof -
  have p: "page_aligned p" "p < MEMSIZE_PHYSICAL"
    using kalloc_page.avail_page [OF assms] by simp_all
  have "bit p i \<Longrightarrow> i < 52" for i
  proof (rule ccontr)
    assume "bit p i" "\<not> i < 52"
    from \<open>bit p i\<close> have "bit (unat p) i"
      using bit_imp_le_length [of p i] by (simp add: bit_unsigned_iff)
    then have "odd (unat p div 2 ^ i)" by (rule bit_iff_odd [THEN iffD1])
    moreover have "unat p < 2 ^ i"
      using p(2) \<open>\<not> i < 52\<close> power_increasing [of 52 i "2 :: nat"] by (simp add: word_less_nat_alt)
    ultimately show False by simp
  qed
  with p(1) show ?thesis
    unfolding next_table_def page_aligned_bits
    by (intro bit_word_eqI) (auto simp only: bit_and_iff bit_PAMASK not_less [symmetric])
qed

lemma available_fresh:
  assumes "pt_ok kend s pt" "page_available kend s p"
  shows "fresh_table (entries s) pt p"
  using assms kalloc_page.avail_page [OF assms(2)] available_next_table [OF assms(2)]
  by (auto simp: fresh_table_def pt_ok_def)

text \<open>The memory after one iteration of the loop.\<close>

definition linked :: "physmem \<Rightarrow> addr \<Rightarrow> addr \<Rightarrow> physmem" where
  "linked s1 p a = s1\<lparr>memory := store64 (fst (memset (memory s1) p 0 PAGESIZE)) a (p OR PTE_PWU)\<rparr>"

lemma linked_entries:
  assumes "kalloc kend PAGESIZE s = (s1, p)" "p \<noteq> 0" "aligned8 a" "aligned8 x"
  shows "entries (linked s1 p a) x = link_entry (entries s) a p x"
  using assms
  by (simp add: linked_def link_entry_def load64_store64_same load64_store64_other
      kalloc_page.alloc_zeroed_load64)

lemma linked_available:
  "kalloc kend PAGESIZE s = (s1, p) \<Longrightarrow> p \<noteq> 0 \<Longrightarrow>
    page_available kend (linked s1 p a) = (page_available kend s)(p := False)"
  using kalloc_page.alloc_taken [of kend s s1 p]
  by (simp add: linked_def page_available_def fun_eq_iff)

lemma linked_step:
  assumes ok: "pt_ok kend s pt" and k: "kalloc kend PAGESIZE s = (s1, p)" "p \<noteq> 0"
    and at: "pt_reach (entries s) pt va (Suc n) t f"
    and absent: "\<not> bit (entries s (slot t (Suc n) va)) 0"
  defines "s2 \<equiv> linked s1 p (slot t (Suc n) va)"
  shows "pt_ok kend s2 pt"
    and "translate (entries s2) pt va' = translate (entries s) pt va'"
    and "pt_reach (entries s2) pt va n p (f AND (p OR PTE_PWU))"
    and "entries s2 (slot p n va) = 0"
    and "pt_reach (entries s2) pt va (Suc n) t f"
    and "entries s2 (slot t (Suc n) va) = p OR PTE_PWU"
proof -
  let ?a = "slot t (Suc n) va"
  let ?E = "link_entry (entries s) ?a p"
  have pt: "page_aligned pt" and tree: "no_alias (entries s) pt"
    using ok by (simp_all add: pt_ok_def)
  have av: "page_available kend s p" using k by (rule kalloc_page.alloc_avail)
  then have fresh: "fresh_table (entries s) pt p" using ok by (rule available_fresh [rotated])
  have t: "page_aligned t" using at pt by (rule pt_reach_aligned)
  have p: "page_aligned p" using fresh by (simp add: fresh_table_def)
  have "t \<noteq> p" using at fresh by (auto simp: fresh_table_def)
  have eq: "entries s2 x = ?E x" if "aligned8 x" for x
    unfolding s2_def using k t that by (intro linked_entries slot_aligned8)
  note cong = walk_aligned_cong [of pt "entries s2" ?E, OF pt eq]
  show "translate (entries s2) pt va' = translate (entries s) pt va'"
    using link_translate [OF pt tree fresh at absent] by (simp add: cong(1))
  show "pt_reach (entries s2) pt va n p (f AND (p OR PTE_PWU))"
    using link_reaches [OF pt tree fresh at] by (simp add: cong(2) agree_above_def)
  show "pt_reach (entries s2) pt va (Suc n) t f"
    using link_reach_upper [OF pt tree fresh at] by (simp add: cong(2) agree_above_def)
  show "entries s2 (slot t (Suc n) va) = p OR PTE_PWU"
    using t by (simp add: eq slot_aligned8 link_entry_def)
  show "entries s2 (slot p n va) = 0"
    using p t \<open>t \<noteq> p\<close> by (simp add: eq slot_aligned8 link_entry_empty slot_eq_iff)
  have "no_alias (entries s2) pt"
    using link_no_alias [OF pt tree fresh at] no_alias_aligned_cong [of pt "entries s2" ?E, OF pt eq]
    by simp
  moreover have "\<not> page_available kend s2 t'" if "pt_reach (entries s2) pt va' k t' f'" for va' k t' f'
  proof -
    have "pt_reach (entries s) pt va' k t' f' \<or> t' = p"
      using that link_reach [OF pt tree fresh at] by (auto simp: cong(2))
    then show ?thesis
      using ok k by (auto simp: s2_def linked_available pt_ok_def)
  qed
  ultimately show "pt_ok kend s2 pt"
    using pt by (auto simp: pt_ok_def)
qed

section \<open>The loop\<close>

lemma vmiter_down_linked:
  assumes "pt_ok kend s (vm_pt it)" "kalloc kend PAGESIZE s = (s1, p)" "p \<noteq> 0"
    and at: "vmiter_at (memory s) it (Suc n) t f"
    and "\<not> bit (entries s (slot t (Suc n) (vm_va it))) 0"
  defines "s2 \<equiv> linked s1 p (slot t (Suc n) (vm_va it))"
    and "it2 \<equiv> vmiter_child it n p (f AND (p OR PTE_PWU))"
  shows "vmiter_down (memory s2) it = Inr it2"
    and "vmiter_terminal (memory s2) it2 n p (f AND (p OR PTE_PWU))"
proof -
  have reach: "pt_reach (entries s) (vm_pt it) (vm_va it) (Suc n) t f"
    using at by (simp add: vmiter_at_def)
  note step = linked_step [OF assms(1-3) reach assms(5), folded s2_def]
  have p: "page_aligned p" "next_table p = p"
    using assms(1-3) available_fresh kalloc_page.alloc_avail by (auto simp: fresh_table_def)
  have at2: "vmiter_at (memory s2) it (Suc n) t f"
    using at step(5) by (simp add: vmiter_at_def)
  have trm: "vmiter_terminal (memory s2) it2 n p (f AND (p OR PTE_PWU))"
    unfolding vmiter_terminal_def it2_def using step(3,4)
    by (auto intro: vmiter_child_at simp: is_link_bits)
  then show "vmiter_terminal (memory s2) it2 n p (f AND (p OR PTE_PWU))" .
  have "vmiter_descend (memory s2) it = vmiter_descend (memory s2) it2"
    using vmiter_descend_step [OF at2] step(6) link_value [OF p] by (simp add: it2_def)
  also have "\<dots> = it2"
    using trm vmiter_descend_stop by (auto simp: vmiter_terminal_def)
  finally show "vmiter_down (memory s2) it = Inr it2"
    using trm step(4) by (simp add: vmiter_down_def vmiter_terminal_def vmiter_at_def it2_def)
qed

lemma try_map_loop_ok:
  assumes "pt_ok kend s (vm_pt it)" "vmiter_terminal (memory s) it n t f"
    and "n = 0 \<or> \<not> bit (entries s (slot t n (vm_va it))) 0" "perm \<noteq> 0"
  obtains s' it' ok where "try_map_loop kend s it perm = Inr (s', it', ok)"
    "pt_ok kend s' (vm_pt it)"
    "\<And>va'. translate (entries s') (vm_pt it) va' = translate (entries s) (vm_pt it) va'"
    "vm_pt it' = vm_pt it" "vm_va it' = vm_va it"
    "ok \<Longrightarrow> \<exists>t' f'. vmiter_at (memory s') it' 0 t' f' \<and> (\<forall>i < 3. bit f i \<longrightarrow> bit f' i)"
    "\<not> ok \<Longrightarrow> kalloc kend PAGESIZE s' = (s', 0)"
  using assms
proof (induction n arbitrary: s it t f thesis)
  case 0
  have at: "vmiter_at (memory s) it 0 t f" using "0.prems"(3) by (simp add: vmiter_terminal_def)
  then have "try_map_loop kend s it perm = Inr (s, it, True)"
    by (subst try_map_loop.simps) (simp add: vmiter_at_def)
  then show ?case
    by (rule "0.prems"(1) [OF _ "0.prems"(2)]) (use at in auto)
next
  case (Suc n)
  let ?a = "slot t (Suc n) (vm_va it)"
  have at: "vmiter_at (memory s) it (Suc n) t f" and absent: "\<not> bit (entries s ?a) 0"
    using Suc.prems by (simp_all add: vmiter_terminal_def)
  have it: "vm_lbits it > PAGEOFFBITS" "vm_pep it = PE ?a"
    using at by (simp_all add: vmiter_at_def)
  have not_present: "\<not> read_pe (memory s) (vm_pep it) AND PTE_P \<noteq> 0"
    using absent unfolding it read_pe.simps and_1_nonzero .
  obtain s1 p where k: "kalloc kend PAGESIZE s = (s1, p)" by (cases "kalloc kend PAGESIZE s")
  show ?case
  proof (cases "p = 0")
    case True
    then have "s1 = s" using k kalloc_null by blast
    then have "try_map_loop kend s it perm = Inr (s, it, False)"
      using it not_present k True Suc.prems(5) by (subst try_map_loop.simps) simp
    then show ?thesis
      by (rule Suc.prems(1) [OF _ Suc.prems(2)]) (use k True \<open>s1 = s\<close> in auto)
  next
    case False
    let ?s2 = "linked s1 p ?a"
    let ?it2 = "vmiter_child it n p (f AND (p OR PTE_PWU))"
    note down = vmiter_down_linked [OF Suc.prems(2) k False at absent]
    have reach: "pt_reach (entries s) (vm_pt it) (vm_va it) (Suc n) t f"
      using at by (simp add: vmiter_at_def)
    note step = linked_step [OF Suc.prems(2) k False reach absent]
    have loop: "try_map_loop kend s it perm = try_map_loop kend ?s2 ?it2 perm"
      using it not_present k False Suc.prems(5) down(1)
      by (subst try_map_loop.simps) (simp add: linked_def Let_def)
    obtain s' it' ok where r: "try_map_loop kend ?s2 ?it2 perm = Inr (s', it', ok)"
      "pt_ok kend s' (vm_pt it)"
      "\<And>va'. translate (entries s') (vm_pt it) va' = translate (entries ?s2) (vm_pt it) va'"
      "vm_pt it' = vm_pt it" "vm_va it' = vm_va it"
      "ok \<Longrightarrow> \<exists>t' f'. vmiter_at (memory s') it' 0 t' f' \<and>
        (\<forall>i < 3. bit (f AND (p OR PTE_PWU)) i \<longrightarrow> bit f' i)"
      "\<not> ok \<Longrightarrow> kalloc kend PAGESIZE s' = (s', 0)"
      using Suc.IH [where s = ?s2 and it = ?it2 and t = p and f = "f AND (p OR PTE_PWU)"]
        step(1,4) down(2) Suc.prems(5) by auto
    have keep: "bit (f AND (p OR PTE_PWU)) i" if "bit f i" "i < 3" for i
      unfolding bit_and_iff bit_or_iff bit_7 using that by simp
    show ?thesis
    proof (rule Suc.prems(1) [OF loop [THEN trans, OF r(1)] r(2) _ r(4,5) _ r(7)])
      show "translate (entries s') (vm_pt it) va' = translate (entries s) (vm_pt it) va'" for va'
        using r(3) step(2) by simp
      show "\<exists>t' f'. vmiter_at (memory s') it' 0 t' f' \<and> (\<forall>i<3. bit f i \<longrightarrow> bit f' i)" if ok
        using r(6) [OF that] keep by blast
    qed
  qed
qed

section \<open>One page\<close>

lemma canonical_high_bits:
  assumes "va_is_canonical va" "47 \<le> i" "i < 64"
  shows "bit va i = bit va 47"
proof -
  have "(0x1FFFF :: u64) = mask 17" by (simp add: mask_eq_exp_minus_1)
  with assms(1) have "drop_bit 47 va = 0 \<or> drop_bit 47 va = mask 17"
    by (simp only: va_is_canonical_high)
  moreover have "bit va (47 + j) = bit (drop_bit 47 va) j" for j
    by (simp add: bit_drop_bit_eq)
  from this [of "i - 47"] this [of 0] have "bit va i = bit (drop_bit 47 va) (i - 47)"
    "bit va 47 = bit (drop_bit 47 va) 0" using assms(2) by simp_all
  ultimately show ?thesis
    using assms(2,3) by (elim disjE) (simp_all only: bit_mask_iff bit_0_eq bot_apply, auto)
qed

lemma pgidx_bit:
  "12 + 9 * k \<le> i \<Longrightarrow> i < 12 + 9 * k + 9 \<Longrightarrow> bit va i = bit (pgidx k va) (i - (12 + 9 * k))"
  by (simp only: pgidx_take_bit bit_take_bit_iff bit_drop_bit_eq comp_apply) auto

lemma same_page_canonical:
  assumes "va_is_canonical va" "va_is_canonical va'"
    and "agree_above 0 va va'" "pgidx 0 va = pgidx 0 va'"
  shows "same_page va va'"
proof -
  have idx: "pgidx k va = pgidx k va'" if "k \<le> 3" for k
    using assms(3,4) that by (cases k) (simp_all add: agree_above_def)
  have low: "bit va i = bit va' i" if "12 \<le> i" "i < 48" for i
  proof -
    define k where "k = (i - 12) div 9"
    have "12 + 9 * k \<le> i" "i < 12 + 9 * k + 9" "k \<le> 3"
      using that by (simp_all add: k_def)
    then show ?thesis by (simp add: pgidx_bit [of k i va] pgidx_bit [of k i va'] idx)
  qed
  have "bit va i = bit va' i" if "12 \<le> i" for i
  proof (cases "i < 48")
    case False
    then show ?thesis
      using canonical_high_bits [OF assms(1), of i] canonical_high_bits [OF assms(2), of i] low [of 47]
        bit_imp_le_length [of va i] bit_imp_le_length [of va' i] by (cases "i < 64") auto
  qed (use that low in simp)
  then have "drop_bit 12 va = drop_bit 12 va'" by (simp add: drop_bit_eq_iff)
  then have "unat (drop_bit 12 va) = unat (drop_bit 12 va')" by simp
  then show ?thesis by (simp add: same_page_def drop_bit_eq_div unat_div)
qed

section \<open>try_map\<close>

lemma scast_bit_low: "i < 12 \<Longrightarrow> bit (scast (perm :: u32) :: u64) i = bit perm i"
  by (simp add: bit_signed_iff)

lemma scast_bit_small:
  assumes "perm < (0x1000 :: u32)"
  shows "bit (scast perm :: u64) i \<longleftrightarrow> i < 12 \<and> bit perm i"
proof -
  have "perm = take_bit 12 perm"
    using assms by (simp add: word_unat_eq_iff take_bit_eq_mod unat_mod word_less_nat_alt)
  then have low: "bit perm j \<Longrightarrow> j < 12" for j
    by (metis bit_take_bit_iff)
  from low [of "min 31 i"] low [of i] show ?thesis
    by (auto simp: bit_signed_iff min_def split: if_splits)
qed

text \<open>What one successful write of a leaf entry does, for the entry \<open>pa | perm\<close>.\<close>

lemma leaf_entry_translation:
  assumes "pa AND PTE_PAMASK = pa" "perm < (0x1000 :: u32)" "bit perm 0" "va mod PAGESIZE = 0"
  defines "e \<equiv> pa OR scast perm"
  shows "bit e 0" "bit e 1 = bit perm 1" "bit e 2 = bit perm 2" "leaf_pa 0 e va = pa"
proof -
  have pa: "bit pa i \<Longrightarrow> 12 \<le> i \<and> i < 52" for i
    using assms(1) by (metis bit_and_iff bit_PAMASK)
  show "bit e 0" "bit e 1 = bit perm 1" "bit e 2 = bit perm 2"
    unfolding e_def bit_or_iff using assms(3) pa [of 0] pa [of 1] pa [of 2]
    by (auto simp: scast_bit_low)
  have "e AND PTE_PAMASK = pa"
    unfolding e_def using pa
    by (intro bit_word_eqI) (auto simp only: bit_and_iff bit_or_iff bit_PAMASK scast_bit_small [OF assms(2)] not_less)
  moreover have "va AND mask PAGEOFFBITS = 0"
    using assms(4) by (simp only: take_bit_eq_mask [symmetric]) (simp add: take_bit_eq_mod)
  ultimately show "leaf_pa 0 e va = pa" by (simp add: leaf_pa_def)
qed

lemma leaf_store:
  fixes e :: u64
  assumes ok: "pt_ok kend s pt" and at: "vmiter_at (memory s) it 0 t f"
    and it: "vm_pt it = pt" "vm_va it = va" and "va_is_canonical va"
  defines "s' \<equiv> s\<lparr>memory := store64 (memory s) (slot t 0 va) e\<rparr>"
  shows "pt_ok kend s' pt"
    and "translate (entries s') pt va =
      (if bit e 0 then Some (leaf_pa 0 e va, bit e 1 \<and> bit f 1, bit e 2 \<and> bit f 2) else None)"
    and "va_is_canonical va' \<Longrightarrow> \<not> same_page va va' \<Longrightarrow>
      translate (entries s') pt va' = translate (entries s) pt va'"
proof -
  let ?E = "(entries s)(slot t 0 va := e)"
  have pt: "page_aligned pt" and tree: "no_alias (entries s) pt"
    using ok by (simp_all add: pt_ok_def)
  have reach: "pt_reach (entries s) pt va 0 t f"
    using at it by (simp add: vmiter_at_def)
  then have "aligned8 (slot t 0 va)" using pt pt_reach_aligned slot_aligned8 by blast
  then have eq: "entries s' x = ?E x" if "aligned8 x" for x
    using that by (simp add: s'_def load64_store64_same load64_store64_other)
  note cong = walk_aligned_cong [of pt "entries s'" ?E, OF pt eq]
  note leaf = leaf_write [OF pt tree reach, where e = e]
  have "no_alias (entries s') pt"
    using leaf(2) no_alias_aligned_cong [of pt "entries s'" ?E, OF pt eq] by simp
  moreover have "page_available kend s' = page_available kend s"
    by (simp add: s'_def page_available_def fun_eq_iff)
  ultimately show "pt_ok kend s' pt"
    using ok by (simp add: pt_ok_def cong leaf(1))
  show "translate (entries s') pt va =
      (if bit e 0 then Some (leaf_pa 0 e va, bit e 1 \<and> bit f 1, bit e 2 \<and> bit f 2) else None)"
    using leaf(4) by (simp only: cong)
  show "translate (entries s') pt va' = translate (entries s) pt va'"
    if "va_is_canonical va'" "\<not> same_page va va'"
    using leaf(3) [where va' = va'] same_page_canonical [of va va'] that assms(5) by (auto simp only: cong)
qed

text \<open>The permissions asked for are allowed by the tables above: assertion of \<open>try_map\<close>.\<close>

lemma perm_allowed:
  assumes "scast (perm AND NOT (path_perm f)) AND (PTE_P OR PTE_W OR PTE_U) = 0" "i < 3" "bit perm i"
  shows "bit f i"
proof (rule ccontr)
  assume "\<not> bit f i"
  then have "bit (perm AND NOT (path_perm f)) i"
    unfolding bit_and_iff bit_not_iff bit_path_perm using assms(2,3) by simp
  then have "bit (scast (perm AND NOT (path_perm f)) AND (7 :: u64)) i"
    using assms(2) unfolding bit_and_iff [of "scast (perm AND NOT (path_perm f))"] bit_7
    by (simp add: scast_bit_low)
  moreover have "PTE_P OR PTE_W OR PTE_U = 7" by simp
  ultimately show False using assms(1) by (metis bit_0_eq bot_apply bot_bool_def)
qed

lemma try_map_loop_present:
  assumes "vmiter_terminal (memory s) it n t f" "n \<noteq> 0" "bit (entries s (slot t n (vm_va it))) 0" "perm \<noteq> 0"
  shows "try_map_loop kend s it perm = Inl (AssertFail ''!(*pep_ & PTE_P)'')"
proof -
  have "read_pe (memory s) (vm_pep it) AND PTE_P \<noteq> 0" "vm_lbits it > PAGEOFFBITS"
    using assms by (simp_all add: vmiter_terminal_def vmiter_at_def and_1_nonzero)
  then show ?thesis using assms(4) by (subst try_map_loop.simps) simp
qed

lemma try_map_loop_result:
  assumes "pt_ok kend s (vm_pt it)" "vmiter_terminal (memory s) it n t f"
    and "n = 0 \<or> \<not> bit (entries s (slot t n (vm_va it))) 0" "perm \<noteq> 0"
    and "try_map_loop kend s it perm = Inr (s', it', ok)"
  shows "pt_ok kend s' (vm_pt it)
    \<and> (\<forall>va'. translate (entries s') (vm_pt it) va' = translate (entries s) (vm_pt it) va')
    \<and> vm_pt it' = vm_pt it \<and> vm_va it' = vm_va it
    \<and> (ok \<longrightarrow> (\<exists>t' f'. vmiter_at (memory s') it' 0 t' f' \<and> (\<forall>i < 3. bit f i \<longrightarrow> bit f' i)))
    \<and> (\<not> ok \<longrightarrow> kalloc kend PAGESIZE s' = (s', 0))"
  by (rule try_map_loop_ok [OF assms(1-4)]) (use assms(5) in simp)

lemma try_map_mapping:
  assumes ok: "pt_ok kend s pt" and can: "va_is_canonical va" and new: "vmiter_new (memory s) pt va = Inr it"
    and perm: "perm < (0x1000 :: u32)" "bit perm 0" and res: "try_map kend s it pa perm = Inr (s', it', r)"
  shows "pt_ok kend s' pt"
    and "r = 0 \<and> translate (entries s') pt va = Some (pa, bit perm 1, bit perm 2)
        \<and> (\<forall>va'. va_is_canonical va' \<longrightarrow> \<not> same_page va va' \<longrightarrow>
              translate (entries s') pt va' = translate (entries s) pt va')
      \<or> r = - 1 \<and> kalloc kend PAGESIZE s' = (s', 0)
        \<and> (\<forall>va'. translate (entries s') pt va' = translate (entries s) pt va')"
proof -
  from new can obtain n t f where trm: "vmiter_terminal (memory s) it n t f"
    and it: "vm_pt it = pt" "vm_va it = va" by (rule vmiter_new_terminal)
  have "perm \<noteq> 0" using perm(2) by auto
  have p: "scast perm AND PTE_P \<noteq> 0" unfolding and_1_nonzero using perm(2) by (simp add: scast_bit_low)
  have g: "va mod PAGESIZE = 0" "pa AND PTE_PAMASK = pa"
      "scast (perm AND NOT (vm_perm it)) AND (PTE_P OR PTE_W OR PTE_U) = 0"
    using res p it \<open>perm \<noteq> 0\<close> by (auto simp: try_map_def Let_def split: if_splits)
  have allowed: "bit f i" if "i < 3" "bit perm i" for i
    using perm_allowed [of perm f i] g(3) that trm by (simp add: vmiter_terminal_def vmiter_at_def)
  obtain s1 it1 okb where loop: "try_map_loop kend s it perm = Inr (s1, it1, okb)"
    using res by (auto simp: try_map_def Let_def split: if_splits sum.splits prod.splits)
  then have "n = 0 \<or> \<not> bit (entries s (slot t n (vm_va it))) 0"
    using try_map_loop_present [OF trm _ _ \<open>perm \<noteq> 0\<close>, of kend] by auto
  note l = try_map_loop_result [OF _ trm this \<open>perm \<noteq> 0\<close> loop, unfolded it, OF ok]
  have body: "try_map kend s it pa perm =
      (if \<not> okb then Inr (s1, it1, - 1)
       else if vm_lbits it1 = PAGEOFFBITS
       then (case vm_pep it1 of ZeroPE \<Rightarrow> Inl (Undefined ''write to zero_pe'')
             | PE a \<Rightarrow> Inr (s1\<lparr>memory := store64 (memory s1) a (pa OR scast perm)\<rparr>, it1, 0))
       else Inr (s1, it1, 0))"
    using res loop \<open>perm \<noteq> 0\<close> by (auto simp: try_map_def Let_def split: if_splits)
  have "pt_ok kend s' pt \<and> (r = 0 \<and> translate (entries s') pt va = Some (pa, bit perm 1, bit perm 2)
        \<and> (\<forall>va'. va_is_canonical va' \<longrightarrow> \<not> same_page va va' \<longrightarrow>
              translate (entries s') pt va' = translate (entries s) pt va')
      \<or> r = - 1 \<and> kalloc kend PAGESIZE s' = (s', 0)
        \<and> (\<forall>va'. translate (entries s') pt va' = translate (entries s) pt va'))"
  proof (cases okb)
    case True
    with l obtain t' f' where at: "vmiter_at (memory s1) it1 0 t' f'"
      and f': "\<forall>i < 3. bit f i \<longrightarrow> bit f' i" by blast
    let ?e = "pa OR scast perm"
    have s': "s' = s1\<lparr>memory := store64 (memory s1) (slot t' 0 va) ?e\<rparr>" "r = 0"
      using res body True at l by (simp_all add: vmiter_at_def)
    note st = leaf_store [OF _ at, where kend = kend and pt = pt and va = va and e = ?e, folded s'(1)]
    have "bit f' 1" if "bit perm 1" using f' allowed [of 1] that by simp
    moreover have "bit f' 2" if "bit perm 2" using f' allowed [of 2] that by simp
    ultimately have "translate (entries s') pt va = Some (pa, bit perm 1, bit perm 2)"
      using st(2) l can leaf_entry_translation [OF g(2) perm g(1)] by auto
    then show ?thesis using st(1,3) l can s'(2) by auto
  next
    case False
    with res body l show ?thesis by auto
  qed
  then show "pt_ok kend s' pt"
    and "r = 0 \<and> translate (entries s') pt va = Some (pa, bit perm 1, bit perm 2)
        \<and> (\<forall>va'. va_is_canonical va' \<longrightarrow> \<not> same_page va va' \<longrightarrow>
              translate (entries s') pt va' = translate (entries s) pt va')
      \<or> r = - 1 \<and> kalloc kend PAGESIZE s' = (s', 0)
        \<and> (\<forall>va'. translate (entries s') pt va' = translate (entries s) pt va')"
    by simp_all
qed

lemma try_map_progress:
  assumes ok: "pt_ok kend s pt" and can: "va_is_canonical va" and new: "vmiter_new (memory s) pt va = Inr it"
    and args: "va mod PAGESIZE = 0" "pa AND PTE_PAMASK = pa" "perm < (0x1000 :: u32)" "bit perm 0"
    and allowed: "scast (perm AND NOT (vm_perm it)) AND (PTE_P OR PTE_W OR PTE_U) = 0"
    and small: "vm_lbits it = PAGEOFFBITS \<or> \<not> vmiter_present (memory s) it"
  obtains s' it' r where "try_map kend s it pa perm = Inr (s', it', r)"
proof -
  from new can obtain n t f where trm: "vmiter_terminal (memory s) it n t f"
    and it: "vm_pt it = pt" "vm_va it = va" by (rule vmiter_new_terminal)
  have "perm \<noteq> 0" using args(4) by auto
  have p: "scast perm AND PTE_P \<noteq> 0" unfolding and_1_nonzero using args(4) by (simp add: scast_bit_low)
  have "n = 0 \<or> \<not> bit (entries s (slot t n (vm_va it))) 0"
    using small trm bit_vmiter_perm [of "memory s" it n t f 0] pt_reach_present
    by (auto simp: vmiter_terminal_def vmiter_at_def vmiter_present_def vmiter_has_perm_def
        and_eq_self_iff bit_1_iff)
  from try_map_loop_ok [OF _ trm this \<open>perm \<noteq> 0\<close>, of kend] ok it
  obtain s1 it1 okb where loop: "try_map_loop kend s it perm = Inr (s1, it1, okb)"
    and at: "okb \<Longrightarrow> \<exists>t' f'. vmiter_at (memory s1) it1 0 t' f'" by metis
  have pa: "pa \<noteq> - 1" using args(2) by auto
  show ?thesis
  proof (cases okb)
    case True
    with at obtain t' f' where "vmiter_at (memory s1) it1 0 t' f'" by blast
    with that loop True p pa args it allowed \<open>perm \<noteq> 0\<close> show ?thesis
      by (auto simp: try_map_def vmiter_at_def)
  next
    case False
    with that loop p pa args it allowed \<open>perm \<noteq> 0\<close> show ?thesis
      by (auto simp: try_map_def)
  qed
qed

section \<open>An empty address space, for examples\<close>

lemma load64_zero: "load64 (\<lambda>_. 0) a = 0"
  by (simp add: load64_def)

lemma pt_reach_zero: "pt_reach (load64 (\<lambda>_. 0)) pt va n t f \<Longrightarrow> n = 3 \<and> t = pt"
  by (induction rule: pt_reach.induct) (simp_all add: load64_zero is_link_def)

lemma vmiter_new_zero:
  "vmiter_new (\<lambda>_. 0) 0x1000 0x100000 =
     Inr \<lparr>vm_pt = 0x1000, vm_pep = PE 0x1000, vm_lbits = 39, vm_perm = 0xFFF, vm_va = 0x100000\<rparr>"
  by (simp add: vmiter_new_def vmiter_find_impl_def va_is_canonical_def vmiter_down_def
      vmiter_descend.simps [of "\<lambda>_. 0"] load64_zero)

definition empty_space :: physmem where
  "empty_space = \<lparr>memory = (\<lambda>_. 0), refcount = (\<lambda>_. 0)(1 := 1)\<rparr>"

lemma empty_space_ok: "pt_ok 0x60000 empty_space 0x1000"
proof -
  have only: "n = 3 \<and> t = 0x1000" if "pt_reach (entries empty_space) 0x1000 va n t f" for va n t f
    using that pt_reach_zero [of "0x1000" va n t f] by (simp add: empty_space_def)
  have "no_alias (entries empty_space) 0x1000"
    unfolding no_alias_def using only by (metis agree_above_def leD)
  moreover have "page_aligned 0x1000" by (simp add: page_aligned_def)
  moreover have "\<not> page_available 0x60000 empty_space 0x1000"
    by (simp add: page_available_def empty_space_def)
  ultimately show ?thesis unfolding pt_ok_def using only by blast
qed

section \<open>Properties\<close>

text \<open>
  \<open>C1\<close>: mapping a page is correct and total. For a canonical, page-aligned address whose
  iterator is at a last-level entry or at an absent entry, with a page-aligned physical
  address and permissions the tables above allow, \<open>try_map\<close> fails no assertion and returns.
  When it returns 0, the hardware translates the address to the given physical address with
  exactly the given permissions and translates every other page as before; when it returns
  -1, memory is exhausted and every page is translated as before. The page-table invariant
  holds afterwards in both cases.
\<close>

theorem try_map_correct:
  assumes "pt_ok kend s pt" "va_is_canonical va" "vmiter_new (memory s) pt va = Inr it"
    and "va mod PAGESIZE = 0" "pa AND PTE_PAMASK = pa" "perm < (0x1000 :: u32)" "bit perm 0"
    and "scast (perm AND NOT (vm_perm it)) AND (PTE_P OR PTE_W OR PTE_U) = 0"
    and "vm_lbits it = PAGEOFFBITS \<or> \<not> vmiter_present (memory s) it"
  shows "\<exists>s' it' r. try_map kend s it pa perm = Inr (s', it', r) \<and> pt_ok kend s' pt
    \<and> (r = 0 \<and> translate (entries s') pt va = Some (pa, bit perm 1, bit perm 2)
        \<and> (\<forall>va'. va_is_canonical va' \<longrightarrow> \<not> same_page va va' \<longrightarrow>
              translate (entries s') pt va' = translate (entries s) pt va')
      \<or> r = - 1 \<and> kalloc kend PAGESIZE s' = (s', 0)
        \<and> (\<forall>va'. translate (entries s') pt va' = translate (entries s) pt va'))"
proof -
  obtain s' it' r where r: "try_map kend s it pa perm = Inr (s', it', r)"
    using assms by (rule try_map_progress)
  from try_map_mapping [OF assms(1-3,6,7) r] r show ?thesis by blast
qed

theorem try_map_correct_witness:
  "\<exists>it s' it' r. vmiter_new (memory empty_space) 0x1000 0x100000 = Inr it
    \<and> try_map 0x60000 empty_space it 0x5000 7 = Inr (s', it', r) \<and> pt_ok 0x60000 s' 0x1000
    \<and> (r = 0 \<and> translate (entries s') 0x1000 0x100000 = Some (0x5000, True, True)
      \<or> r = - 1 \<and> kalloc 0x60000 PAGESIZE s' = (s', 0))"
proof -
  let ?it = "\<lparr>vm_pt = 0x1000, vm_pep = PE 0x1000, vm_lbits = 39, vm_perm = 0xFFF, vm_va = 0x100000\<rparr>"
  have new: "vmiter_new (memory empty_space) 0x1000 0x100000 = Inr ?it"
    by (simp only: empty_space_def physmem.select_convs vmiter_new_zero)
  have "\<not> vmiter_present (memory empty_space) ?it"
    by (simp add: vmiter_present_def vmiter_has_perm_def vmiter_perm_def load64_zero empty_space_def)
  moreover have "bit (7 :: u32) 0" "bit (7 :: u32) 1" "bit (7 :: u32) 2"
    by (simp_all add: bit_iff_odd)
  ultimately show ?thesis
    using try_map_correct [OF empty_space_ok _ new, where pa = "0x5000" and perm = 7] new
    by (fastforce simp: va_is_canonical_def)
qed

end
