(* ===== verification/VmWalk.thy ===== *)
theory VmWalk
  imports Vmiter
begin

text \<open>
  Walks over an address space: \<open>vmiter::range_perm\<close> and the page table iterator \<open>ptiter\<close>
  (\<open>pset3/k-vmiter.cc\<close>, \<open>pset3/k-vmiter.hh\<close>). Both loops are partial functions whose value
  is \<open>None\<close> when they do not end; that they end is proved for the iterators the code builds.
\<close>

section \<open>Permissions of a range\<close>

partial_function (option) range_perm_impl :: "mem \<Rightarrow> vmiter \<Rightarrow> u64 \<Rightarrow> u64 \<Rightarrow> u64 result option" where
  "range_perm_impl m it p sz =
     (if p \<noteq> 0 \<and> sz > 0
      then case vmiter_next_range m it of
             Inl e \<Rightarrow> Some (Inl e)
           | Inr it' \<Rightarrow>
               range_perm_impl m it' (p AND (if vm_va it \<noteq> 0 then vmiter_perm m it else 0))
                 (sz - min sz (vmiter_range_size it))
      else Some (Inr p))"

definition vmiter_range_perm :: "mem \<Rightarrow> vmiter \<Rightarrow> u64 \<Rightarrow> u64 result option" where
  "vmiter_range_perm m it sz =
     (let p = (if sz > 0 then vmiter_perm m it else - 1) in
      if p = 0 \<or> sz \<le> vmiter_range_size it then Some (Inr p)
      else case vmiter_next_range m it of
             Inl e \<Rightarrow> Some (Inl e)
           | Inr copy \<Rightarrow> range_perm_impl m copy p (sz - vmiter_range_size it))"

definition vmiter_range_has_perm :: "mem \<Rightarrow> vmiter \<Rightarrow> u64 \<Rightarrow> u64 \<Rightarrow> bool result option" where
  "vmiter_range_has_perm m it sz desired_perm =
     map_option (map_sum id (\<lambda>p. p AND desired_perm = desired_perm)) (vmiter_range_perm m it sz)"

section \<open>Page table iterator\<close>

record ptiter =
  pi_pt :: addr
  pi_pep :: addr
  pi_lbits :: nat
  pi_va :: u64

text \<open>
  The loop of \<open>ptiter::down\<close>. Its local variables \<open>stop_lbits\<close> and \<open>skip\<close> are arguments.
\<close>

partial_function (option) ptiter_down_loop :: "mem \<Rightarrow> nat \<Rightarrow> bool \<Rightarrow> ptiter \<Rightarrow> ptiter option" where
  "ptiter_down_loop m stop_lbits skip it =
     (if \<not> pi_lbits it < done_lbits then Some it
      else if \<not> skip \<and> load64 m (pi_pep it) AND (PTE_P OR PTE_PS) = PTE_P
      then if pi_lbits it = stop_lbits then Some it
           else let lbits = pi_lbits it - PAGEINDEXBITS;
                    pa = load64 m (pi_pep it) AND PTE_PAMASK
                in ptiter_down_loop m stop_lbits skip
                     (it\<lparr>pi_lbits := lbits,
                         pi_pep := pa + 8 * (drop_bit lbits (pi_va it) AND 0x1FF)\<rparr>)
      else let va = (pi_va it OR lbits_mask (pi_lbits it)) + 1 in
           if (va XOR pi_va it) AND NOT (lbits_mask (pi_lbits it + PAGEINDEXBITS)) \<noteq> 0
           then if va = 0 \<and> pi_lbits it = initial_lbits
                then Some (it\<lparr>pi_lbits := done_lbits\<rparr>)
                else ptiter_down_loop m (pi_lbits it + PAGEINDEXBITS) False
                       (it\<lparr>pi_lbits := initial_lbits,
                           pi_pep := pi_pt it + 8 * (drop_bit initial_lbits (pi_va it) AND 0x1FF)\<rparr>)
           else ptiter_down_loop m stop_lbits False
                  (it\<lparr>pi_pep := pi_pep it + 8,
                      pi_va := (if va_is_canonical va then va else VA_HIGHMIN)\<rparr>))"

definition ptiter_down :: "mem \<Rightarrow> bool \<Rightarrow> ptiter \<Rightarrow> ptiter option" where
  "ptiter_down m skip it = ptiter_down_loop m (PAGEOFFBITS + PAGEINDEXBITS) skip it"

definition ptiter_new :: "mem \<Rightarrow> addr \<Rightarrow> ptiter option" where
  "ptiter_new m pt =
     ptiter_down m False \<lparr>pi_pt = pt, pi_pep = pt, pi_lbits = initial_lbits, pi_va = 0\<rparr>"

definition ptiter_next :: "mem \<Rightarrow> ptiter \<Rightarrow> ptiter option" where
  "ptiter_next m it = ptiter_down m True it"

definition ptiter_done :: "ptiter \<Rightarrow> bool" where
  "ptiter_done it \<longleftrightarrow> pi_lbits it = done_lbits"

definition ptiter_va :: "ptiter \<Rightarrow> u64" where
  "ptiter_va it = pi_va it AND NOT (lbits_mask (pi_lbits it))"

definition ptiter_last_va :: "ptiter \<Rightarrow> u64" where
  "ptiter_last_va it = (pi_va it OR lbits_mask (pi_lbits it)) + 1"

definition ptiter_range_size :: "ptiter \<Rightarrow> u64" where
  "ptiter_range_size it = ptiter_last_va it - ptiter_va it"

definition ptiter_low :: "ptiter \<Rightarrow> bool" where
  "ptiter_low it \<longleftrightarrow> pi_va it \<le> VA_LOWMAX"

definition ptiter_level :: "ptiter \<Rightarrow> int" where
  "ptiter_level it = (int (pi_lbits it) - int PAGEOFFBITS - int PAGEINDEXBITS) div int PAGEINDEXBITS"

definition ptiter_pa :: "mem \<Rightarrow> ptiter \<Rightarrow> u64" where
  "ptiter_pa m it = load64 m (pi_pep it) AND PTE_PAMASK"

section \<open>Ranges of equal permissions\<close>

text \<open>Permissions at an address, as a new iterator reports them.\<close>

definition perm_at :: "mem \<Rightarrow> addr \<Rightarrow> u64 \<Rightarrow> u64" where
  "perm_at m pt a = (case vmiter_new m pt a of Inr it \<Rightarrow> vmiter_perm m it | Inl _ \<Rightarrow> 0)"

lemma vmiter_new_va: "vmiter_new m pt va = Inr it \<Longrightarrow> vm_va it = va"
  using vmiter_new_terminal vmiter_new_noncanonical(3) by metis

lemma vmiter_new_range_noncanonical:
  assumes "vmiter_new m pt va = Inr it" "\<not> va_is_canonical va"
  shows "unat va + unat (vmiter_range_size it) = unat VA_HIGHMIN"
    and "unat va < unat VA_HIGHMIN"
proof -
  have "va < VA_HIGHMIN" using assms(2) by (simp add: va_is_canonical_def not_le)
  then show "unat va < unat VA_HIGHMIN" by (simp only: word_less_nat_alt)
  have "vmiter_range_size it = VA_HIGHMIN - va"
    using vmiter_new_noncanonical [OF assms] by (simp add: vmiter_range_size_def vmiter_last_va_def)
  then show "unat va + unat (vmiter_range_size it) = unat VA_HIGHMIN"
    using \<open>va < VA_HIGHMIN\<close> by (simp only: unat_sub less_imp_le) (simp add: word_less_nat_alt)
qed

lemma vmiter_new_range_canonical:
  assumes "vmiter_new m pt va = Inr it" "va_is_canonical va"
  shows "unat va + unat (vmiter_range_size it) = unat (va OR mask (vm_lbits it)) + 1"
proof -
  from assms obtain n t f where trm: "vmiter_terminal m it n t f"
    and it: "vm_va it = va" "n \<le> 3" by (rule vmiter_new_terminal)
  then have lb: "vm_lbits it < 64" "vm_lbits it \<noteq> 47"
    by (simp_all add: vmiter_terminal_def vmiter_at_def)
  let ?k = "(va OR mask (vm_lbits it)) - va"
  have le: "va \<le> va OR mask (vm_lbits it)" by (rule le_word_or2)
  have "vmiter_range_size it = ?k + 1"
    using lb(2) it(1) by (simp add: vmiter_range_size_def vmiter_last_va_def lbits_mask_mask)
  moreover have "?k \<noteq> - 1"
  proof
    assume "?k = - 1"
    then have "0 < vmiter_range_size it \<longleftrightarrow> False" using \<open>vmiter_range_size it = ?k + 1\<close> by simp
    then show False using range_size_canonical [OF assms, of 0] by simp
  qed
  then have "unat (?k + 1) = unat ?k + 1"
    using unatSuc [of ?k] by (metis Suc_eq_plus1 add.commute add_eq_0_iff)
  ultimately show ?thesis using le by (simp add: unat_sub word_le_nat_alt)
qed

lemma vmiter_new_range:
  assumes "vmiter_new m pt va = Inr it"
  shows "0 < unat (vmiter_range_size it)"
    and "unat va + unat (vmiter_range_size it) \<le> 2 ^ 64"
    and "unat va \<le> unat a \<Longrightarrow> unat a < unat va + unat (vmiter_range_size it) \<Longrightarrow>
      \<exists>it'. vmiter_new m pt a = Inr it' \<and> vmiter_perm m it' = vmiter_perm m it"
proof -
  have "unat (va OR mask (vm_lbits it)) < 2 ^ 64" "unat va \<le> unat (va OR mask (vm_lbits it))"
    using unsigned_less [of "va OR mask (vm_lbits it)", where 'a = nat] le_word_or2 [of va]
    by (simp_all add: word_le_nat_alt)
  then show "0 < unat (vmiter_range_size it)" "unat va + unat (vmiter_range_size it) \<le> 2 ^ 64"
    using vmiter_new_range_canonical [OF assms] vmiter_new_range_noncanonical [OF assms]
    by (cases "va_is_canonical va"; simp)+
  assume a: "unat va \<le> unat a" "unat a < unat va + unat (vmiter_range_size it)"
  show "\<exists>it'. vmiter_new m pt a = Inr it' \<and> vmiter_perm m it' = vmiter_perm m it"
  proof (cases "va_is_canonical va")
    case True
    have l: "vm_lbits it < 64" using vmiter_new_answers(3) [OF assms True] .
    have "drop_bit (vm_lbits it) a = drop_bit (vm_lbits it) va"
      using a vmiter_new_range_canonical [OF assms True]
      by (intro range_between [OF l]) (simp_all add: word_le_nat_alt)
    from vmiter_new_same_range(1) [OF assms True this] show ?thesis by (simp add: vmiter_move_perm)
  next
    case False
    have "\<not> va_is_canonical a"
      using False a vmiter_new_range_noncanonical(1) [OF assms False]
      by (auto simp: va_is_canonical_def word_le_nat_alt not_le)
    then have "vmiter_new m pt a = Inr (vmiter_start pt a)"
      by (simp add: vmiter_new_start vmiter_start_def vmiter_down_def vmiter_descend_zero)
    with vmiter_new_noncanonical(2) [OF this \<open>\<not> va_is_canonical a\<close>]
      vmiter_new_noncanonical(2) [OF assms False]
    show ?thesis by simp
  qed
qed

lemma vmiter_next_range_new:
  assumes "vmiter_new m pt va = Inr it" "page_aligned pt"
    and "unat va + unat (vmiter_range_size it) < 2 ^ 64"
  shows "vmiter_next_range m it = vmiter_new m pt (va + vmiter_range_size it)"
    and "unat (va + vmiter_range_size it) = unat va + unat (vmiter_range_size it)"
proof -
  show sum: "unat (va + vmiter_range_size it) = unat va + unat (vmiter_range_size it)"
    using assms(3) by (subst unat_add_lem [symmetric]) simp
  have "vmiter_last_va it = va + vmiter_range_size it"
    using vmiter_new_va [OF assms(1)] by (simp add: vmiter_range_size_def)
  moreover have "va + vmiter_range_size it \<noteq> 0"
    using sum vmiter_new_range(1) [OF assms(1)] by (metis add_is_0 less_irrefl unat_0)
  ultimately show "vmiter_next_range m it = vmiter_new m pt (va + vmiter_range_size it)"
    using vmiter_find_impl_new [OF assms(1,2)]
    by (simp add: vmiter_next_range_def vmiter_find_impl_stepping)
qed

lemma vmiter_next_range_ok:
  assumes "vmiter_new m pt va = Inr it" "page_aligned pt" "\<And>a. \<exists>it. vmiter_new m pt a = Inr it"
  shows "\<exists>it'. vmiter_next_range m it = Inr it'"
proof (cases "vmiter_last_va it = 0")
  case True
  then show ?thesis
    by (simp add: vmiter_next_range_def vmiter_find_impl_def vmiter_down_def vmiter_descend_zero)
next
  case False
  then show ?thesis
    using assms(3) vmiter_find_impl_new [OF assms(1,2)]
    by (simp add: vmiter_next_range_def vmiter_find_impl_stepping)
qed

lemma and_cover: "(p AND x) AND d = d \<longleftrightarrow> p AND d = d \<and> x AND d = d" for p x d :: u64
  by (auto simp: and_eq_self_iff bit_and_iff)

definition covers :: "mem \<Rightarrow> addr \<Rightarrow> u64 \<Rightarrow> nat \<Rightarrow> nat \<Rightarrow> bool" where
  "covers m pt d lo hi \<longleftrightarrow> (\<forall>a. lo \<le> unat a \<and> unat a < hi \<longrightarrow> perm_at m pt a AND d = d)"

lemma covers_range:
  assumes "vmiter_new m pt va = Inr it" "unat va \<le> hi" "hi \<le> unat va + unat (vmiter_range_size it)"
    and "unat va < hi"
  shows "covers m pt d (unat va) hi \<longleftrightarrow> vmiter_perm m it AND d = d"
proof -
  have "perm_at m pt a = vmiter_perm m it" if "unat va \<le> unat a" "unat a < hi" for a
    using vmiter_new_range(3) [OF assms(1) that(1)] that(2) assms(3) by (auto simp: perm_at_def)
  note same = this
  show ?thesis
  proof
    assume "covers m pt d (unat va) hi"
    then have "perm_at m pt va AND d = d" using assms(4) by (simp add: covers_def)
    then show "vmiter_perm m it AND d = d" using same [of va] assms(4) by simp
  next
    assume "vmiter_perm m it AND d = d"
    then show "covers m pt d (unat va) hi" using same by (simp add: covers_def)
  qed
qed

lemma covers_split:
  "lo \<le> mid \<Longrightarrow> mid \<le> hi \<Longrightarrow> covers m pt d lo hi \<longleftrightarrow> covers m pt d lo mid \<and> covers m pt d mid hi"
  unfolding covers_def by (meson not_le order.strict_trans2 le_trans)

lemma covers_empty: "covers m pt d lo lo"
  by (auto simp: covers_def)

lemma range_perm_impl_covers:
  assumes "page_aligned pt" "\<And>a. \<exists>it. vmiter_new m pt a = Inr it"
    and "vmiter_new m pt va = Inr it" "va \<noteq> 0" "unat va + unat sz \<le> 2 ^ 64"
  shows "\<exists>q. range_perm_impl m it p sz = Some (Inr q)
    \<and> (\<forall>d. d \<noteq> 0 \<longrightarrow> (q AND d = d \<longleftrightarrow> p AND d = d \<and> covers m pt d (unat va) (unat va + unat sz)))"
  using assms(3-5)
proof (induction "unat sz" arbitrary: sz va it p rule: less_induct)
  case less
  let ?rs = "vmiter_range_size it" and ?p = "p AND vmiter_perm m it"
  note rng = vmiter_new_range [OF less(2)] and va = vmiter_new_va [OF less(2)]
  show ?case
  proof (cases "p \<noteq> 0 \<and> sz > 0")
    case False
    then have "range_perm_impl m it p sz = Some (Inr p)"
      by (subst range_perm_impl.simps) auto
    moreover have "p AND d = d \<longleftrightarrow> p AND d = d \<and> covers m pt d (unat va) (unat va + unat sz)"
      if "d \<noteq> 0" for d
    proof (cases "p = 0")
      case p: False
      with False have "unat sz = 0" by (simp add: word_gt_0)
      then show ?thesis by (simp add: covers_empty)
    qed (use that in simp)
    ultimately show ?thesis by blast
  next
    case True
    then have sz: "0 < unat sz" by (simp add: unat_gt_0 word_gt_0)
    obtain it' where nx: "vmiter_next_range m it = Inr it'"
      using vmiter_next_range_ok [OF less(2) assms(1,2)] by blast
    have rec: "range_perm_impl m it p sz = range_perm_impl m it' ?p (sz - min sz ?rs)"
      using True nx less(3) va by (subst range_perm_impl.simps) simp
    show ?thesis
    proof (cases "sz \<le> ?rs")
      case short: True
      then have "range_perm_impl m it p sz = Some (Inr ?p)"
        unfolding rec by (subst range_perm_impl.simps) (simp add: min_def)
      moreover have "covers m pt d (unat va) (unat va + unat sz) \<longleftrightarrow> vmiter_perm m it AND d = d" for d
        using short sz by (intro covers_range [OF less(2)]) (simp_all add: word_le_nat_alt)
      ultimately show ?thesis by (simp add: and_cover)
    next
      case False
      then have rs: "unat ?rs < unat sz" "min sz ?rs = ?rs"
        by (simp_all add: word_less_nat_alt word_le_nat_alt min_def)
      then have d: "unat (sz - ?rs) = unat sz - unat ?rs"
        by (intro unat_sub) (simp add: word_le_nat_alt)
      let ?va = "va + ?rs"
      have lt: "unat va + unat ?rs < 2 ^ 64" using less(4) rs(1) by linarith
      note nr = vmiter_next_range_new [OF less(2) assms(1) lt]
      have new: "vmiter_new m pt ?va = Inr it'" using nx nr(1) by simp
      have "?va \<noteq> 0" using nr(2) rng(1) by (metis add_is_0 less_irrefl unat_0)
      moreover have "unat (sz - ?rs) < unat sz" using d rng(1) sz by simp
      moreover have "unat ?va + unat (sz - ?rs) \<le> 2 ^ 64" using nr(2) d less(4) rs(1) by simp
      ultimately obtain q where q: "range_perm_impl m it' ?p (sz - ?rs) = Some (Inr q)"
        "\<forall>d. d \<noteq> 0 \<longrightarrow> (q AND d = d \<longleftrightarrow> ?p AND d = d \<and> covers m pt d (unat ?va) (unat ?va + unat (sz - ?rs)))"
        using less(1) [of "sz - ?rs" ?va it' ?p] new by blast
      have "unat ?va + unat (sz - ?rs) = unat va + unat sz" using nr(2) d rs(1) by simp
      moreover have "covers m pt d (unat va) (unat va + unat sz) \<longleftrightarrow>
          vmiter_perm m it AND d = d \<and> covers m pt d (unat ?va) (unat va + unat sz)" for d
        using covers_split [of "unat va" "unat ?va" "unat va + unat sz" m pt d]
          covers_range [OF less(2), of "unat ?va" d] nr(2) rs(1) rng(1) by simp
      ultimately show ?thesis using q rec rs(2) by (auto simp: and_cover)
    qed
  qed
qed

text \<open>The loop also ends when it wraps around the address space or an iterator panics.\<close>

lemma range_perm_impl_wrapped:
  assumes "vm_va it = 0"
  shows "\<exists>r. range_perm_impl m it p sz = Some r"
proof -
  have "range_perm_impl m it' 0 sz' = Some (Inr 0)" for it' sz'
    by (subst range_perm_impl.simps) simp
  with assms show ?thesis by (subst range_perm_impl.simps) (auto split: sum.splits)
qed

lemma range_perm_impl_ends:
  assumes "page_aligned pt" "vmiter_new m pt va = Inr it"
  shows "\<exists>r. range_perm_impl m it p sz = Some r"
  using assms(2)
proof (induction "unat sz" arbitrary: sz va it p rule: less_induct)
  case less
  let ?rs = "vmiter_range_size it"
  show ?case
  proof (cases "p \<noteq> 0 \<and> sz > 0")
    case False
    then show ?thesis by (subst range_perm_impl.simps) auto
  next
    case True
    show ?thesis
    proof (cases "vmiter_next_range m it")
      case (Inl e)
      then show ?thesis using True by (subst range_perm_impl.simps) simp
    next
      case (Inr it')
      let ?p = "p AND (if vm_va it \<noteq> 0 then vmiter_perm m it else 0)"
      have rec: "range_perm_impl m it p sz = range_perm_impl m it' ?p (sz - min sz ?rs)"
        using True Inr by (subst range_perm_impl.simps) simp
      have dec: "unat (sz - min sz ?rs) < unat sz"
        using True vmiter_new_range(1) [OF less(2)]
        by (auto simp: min_def unat_sub word_le_nat_alt word_less_nat_alt unat_sub_if')
      show ?thesis
      proof (cases "vmiter_last_va it = 0")
        case True
        then have "vm_va it' = 0"
          using Inr by (auto simp: vmiter_next_range_def vmiter_find_impl_def vmiter_down_def vmiter_descend_zero)
        then show ?thesis using rec range_perm_impl_wrapped by simp
      next
        case False
        then have "vmiter_new m pt (vmiter_last_va it) = Inr it'"
          using Inr vmiter_find_impl_new [OF less(2) assms(1)]
          by (simp add: vmiter_next_range_def vmiter_find_impl_stepping)
        then show ?thesis using rec less(1) [OF dec] by simp
      qed
    qed
  qed
qed

lemma vmiter_range_perm_ends:
  assumes "page_aligned pt" "vmiter_new m pt va = Inr it"
  shows "\<exists>r. vmiter_range_perm m it sz = Some r"
proof (cases "vmiter_next_range m it")
  case (Inl e)
  then show ?thesis by (auto simp: vmiter_range_perm_def Let_def)
next
  case (Inr it')
  have "\<exists>r. range_perm_impl m it' p sz' = Some r" for p sz'
  proof (cases "vmiter_last_va it = 0")
    case True
    then have "vm_va it' = 0"
      using Inr by (auto simp: vmiter_next_range_def vmiter_find_impl_def vmiter_down_def vmiter_descend_zero)
    then show ?thesis using range_perm_impl_wrapped by simp
  next
    case False
    then have "vmiter_new m pt (vmiter_last_va it) = Inr it'"
      using Inr vmiter_find_impl_new [OF assms(2,1)]
      by (simp add: vmiter_next_range_def vmiter_find_impl_stepping)
    then show ?thesis using range_perm_impl_ends [OF assms(1)] by blast
  qed
  with Inr show ?thesis by (auto simp: vmiter_range_perm_def Let_def)
qed

section \<open>The next entry of a table\<close>

definition after :: "nat \<Rightarrow> u64 \<Rightarrow> u64" where
  "after l va = (va OR mask l) + 1"

lemma unat_after:
  assumes "l < 64"
  shows "after l va \<noteq> 0 \<Longrightarrow> unat (after l va) = (unat va div 2 ^ l + 1) * 2 ^ l"
    and "after l va = 0 \<Longrightarrow> (unat va div 2 ^ l + 1) * 2 ^ l = 2 ^ 64"
proof -
  obtain q r P where P: "P = 2 ^ l" "unat (va OR mask l) = q * P + (P - 1)" "unat va div 2 ^ l = q" "r < P"
    using range_split [OF assms, of va] by metis
  then have "Suc (unat (va OR mask l)) = (q + 1) * P" by simp
  then show "after l va \<noteq> 0 \<Longrightarrow> unat (after l va) = (unat va div 2 ^ l + 1) * 2 ^ l"
    using unatSuc [of "va OR mask l"] P by (simp add: after_def add.commute)
  assume "after l va = 0"
  then have "va OR mask l = - 1" by (simp add: after_def eq_neg_iff_add_eq_0)
  then have "Suc (unat (va OR mask l)) = 2 ^ 64" by (simp add: unsigned_minus_1_eq_mask mask_eq_exp_minus_1)
  then show "(unat va div 2 ^ l + 1) * 2 ^ l = 2 ^ 64" using \<open>Suc (unat (va OR mask l)) = (q + 1) * P\<close> P by simp
qed

lemma after_greater:
  assumes "l < 64" "after l va \<noteq> 0"
  shows "unat va < unat (after l va)"
proof -
  obtain q r P where "P = 2 ^ l" "unat va = q * P + r" "r < P" "unat va div 2 ^ l = q"
    using range_split [OF assms(1), of va] by metis
  then have "unat va < (unat va div 2 ^ l + 1) * 2 ^ l" by simp
  then show ?thesis using unat_after(1) [OF assms] by simp
qed

lemma drop_bit_add_9: "unat (drop_bit (l + 9) va) = unat va div 2 ^ l div 512" for va :: u64
  by (simp add: unat_drop power_add div_mult2_eq)

lemma unat_pgidx: "unat (pgidx n va) = unat va div 2 ^ (12 + 9 * n) mod 512"
  unfolding pgidx_take_bit by (simp add: take_bit_eq_mod unat_mod unat_drop)

lemma after_same_table:
  assumes "l + 9 < 64" "drop_bit (l + 9) (after l va) = drop_bit (l + 9) va"
  shows "after l va \<noteq> 0"
    and "unat (after l va) div 2 ^ l mod 512 = unat va div 2 ^ l mod 512 + 1"
proof -
  define q where "q = unat va div 2 ^ l"
  have l: "l < 64" using assms(1) by simp
  show nz: "after l va \<noteq> 0"
  proof
    assume z: "after l va = 0"
    then have "unat (drop_bit (l + 9) va) = 0" using assms(2) by (metis drop_bit_of_0 unat_0)
    then have "q < 512" by (simp add: drop_bit_add_9 q_def div_eq_0_iff)
    then have "(q + 1) * 2 ^ l \<le> 2 ^ 9 * 2 ^ l" by simp
    also have "\<dots> < 2 ^ 64" using assms(1) power_strict_increasing [of "l + 9" 64 "2 :: nat"]
      by (simp only: power_add [symmetric] add.commute)
    finally show False using unat_after(2) [OF l z] by (simp add: q_def)
  qed
  have "unat (after l va) div 2 ^ l = q + 1" using unat_after(1) [OF l nz] by (simp add: q_def)
  moreover have "unat (after l va) div 2 ^ l div 512 = q div 512"
    using arg_cong [OF assms(2), of unat] by (simp only: drop_bit_add_9 q_def)
  ultimately have "(q + 1) div 512 = q div 512" by simp
  then have "(q + 1) mod 512 = q mod 512 + 1"
    using div_mult_mod_eq [of q 512] div_mult_mod_eq [of "q + 1" 512] by linarith
  then show "unat (after l va) div 2 ^ l mod 512 = unat va div 2 ^ l mod 512 + 1"
    using \<open>unat (after l va) div 2 ^ l = q + 1\<close> by (simp add: q_def)
qed

lemma slot_after:
  assumes "n \<le> 3" "drop_bit (12 + 9 * n + 9) (after (12 + 9 * n) va) = drop_bit (12 + 9 * n + 9) va"
  shows "slot t n (after (12 + 9 * n) va) = slot t n va + 8"
proof -
  have "12 + 9 * n + 9 < 64" using assms(1) by simp
  from after_same_table(2) [OF this assms(2)]
  have "unat (pgidx n (after (12 + 9 * n) va)) = unat (pgidx n va) + 1" by (simp add: unat_pgidx)
  moreover have "unat (pgidx n va + 1) = unat (pgidx n va) + 1"
    using unat_pgidx_less [of n va] by (subst unat_add_lem [THEN iffD1]) simp_all
  ultimately have "pgidx n (after (12 + 9 * n) va) = pgidx n va + 1" by (simp add: word_unat_eq_iff)
  then show ?thesis by (simp add: slot_def algebra_simps)
qed

lemma canonical_nat:
  "va_is_canonical va \<longleftrightarrow> unat va div 2 ^ 39 < 256 \<or> unat va div 2 ^ 39 \<ge> 33554176"
proof -
  have "unat va < 2 ^ 64" using unsigned_less [of va, where 'a = nat] by simp
  then show ?thesis
    unfolding va_is_canonical_def word_le_nat_alt
    by (auto simp: div_less_iff_less_mult less_eq_div_iff_mult_less_eq)
qed

lemma after_top:
  assumes "va_is_canonical va" "after 39 va \<noteq> 0"
  shows "drop_bit 48 (after 39 va) = drop_bit 48 va"
    and "\<not> va_is_canonical (after 39 va) \<Longrightarrow> after 39 va = VA_LOWEND"
proof -
  define q where "q = unat va div 2 ^ 39"
  have a: "unat (after 39 va) = (q + 1) * 2 ^ 39" using unat_after(1) [OF _ assms(2)] by (simp add: q_def)
  have lt: "unat (after 39 va) < 2 ^ 64" using unsigned_less [of "after 39 va", where 'a = nat] by simp
  have q: "q < 256 \<or> q \<ge> 33554176" "q + 1 < 33554432"
    using assms(1) a lt by (simp_all add: canonical_nat q_def)
  then have "(q + 1) div 512 = q div 512"
    using div_nat_eqI [of 512 65535 q] div_nat_eqI [of 512 65535 "q + 1"] by auto
  then have "unat (drop_bit (39 + 9) (after 39 va)) = unat (drop_bit (39 + 9) va)"
    unfolding drop_bit_add_9 a by (simp add: q_def)
  then show "drop_bit 48 (after 39 va) = drop_bit 48 va" by (simp add: word_unat_eq_iff)
  assume "\<not> va_is_canonical (after 39 va)"
  then have "q + 1 = 256" using q unfolding canonical_nat a by simp
  then show "after 39 va = VA_LOWEND" using a by (simp add: word_unat_eq_iff)
qed

section \<open>Where a page table iterator stands\<close>

text \<open>
  The table \<open>t\<close> the iterator is in is one the page walk reaches in memory \<open>m\<close>; the argument
  \<open>b\<close> says whether that is claimed, since memory may change under an iterator.
\<close>

definition ptiter_at :: "bool \<Rightarrow> mem \<Rightarrow> ptiter \<Rightarrow> nat \<Rightarrow> addr \<Rightarrow> bool" where
  "ptiter_at b m it n t \<longleftrightarrow>
     1 \<le> n \<and> n \<le> 3 \<and> pi_lbits it = PAGEOFFBITS + PAGEINDEXBITS * n \<and> pi_pep it = slot t n (pi_va it)
     \<and> va_is_canonical (pi_va it) \<and> (b \<longrightarrow> (\<exists>f. pt_reach (load64 m) (pi_pt it) (pi_va it) n t f))"

lemma ptiter_at_level: "ptiter_at b m it n t \<Longrightarrow> n \<le> 3"
  by (simp add: ptiter_at_def)

lemma ptiter_at_changed: "ptiter_at b m it n t \<Longrightarrow> ptiter_at False m' it n t"
  by (simp add: ptiter_at_def)

text \<open>The three ways the loop goes on: down a link, to the next entry, back to the root.\<close>

lemma ptiter_at_down:
  assumes "ptiter_at b m it (Suc n) t" "1 \<le> n" "is_link (load64 m (pi_pep it))"
  shows "ptiter_at b m (it\<lparr>pi_lbits := pi_lbits it - PAGEINDEXBITS,
      pi_pep := (load64 m (pi_pep it) AND PTE_PAMASK)
        + 8 * (drop_bit (pi_lbits it - PAGEINDEXBITS) (pi_va it) AND 0x1FF)\<rparr>)
    n (next_table (load64 m (pi_pep it)))"
  using assms pt_reach.down [of "load64 m" "pi_pt it" "pi_va it" n t]
  by (auto simp: ptiter_at_def next_table_def slot_def pgidx_def)

lemma ptiter_at_root:
  assumes "ptiter_at b m it n t"
  shows "ptiter_at b m (it\<lparr>pi_lbits := initial_lbits,
      pi_pep := pi_pt it + 8 * (drop_bit initial_lbits (pi_va it) AND 0x1FF)\<rparr>) 3 (pi_pt it)"
  using assms pt_reach.root by (auto simp: ptiter_at_def slot_def pgidx_def)

definition next_va :: "u64 \<Rightarrow> u64" where
  "next_va va = (if va_is_canonical va then va else VA_HIGHMIN)"

lemma ptiter_at_advance:
  assumes at: "ptiter_at b m it n t"
    and same: "drop_bit (pi_lbits it + 9) (after (pi_lbits it) (pi_va it)) = drop_bit (pi_lbits it + 9) (pi_va it)"
  defines "va' \<equiv> next_va (after (pi_lbits it) (pi_va it))"
  shows "ptiter_at b m (it\<lparr>pi_pep := pi_pep it + 8, pi_va := va'\<rparr>) n t" "unat (pi_va it) < unat va'"
proof -
  let ?a = "after (pi_lbits it) (pi_va it)"
  have n: "n \<le> 3" and l: "pi_lbits it = 12 + 9 * n" and can: "va_is_canonical (pi_va it)"
    and pep: "pi_pep it = slot t n (pi_va it)" and n1: "1 \<le> n"
    using at ptiter_at_level [OF at] by (simp_all add: ptiter_at_def)
  have reach: "b \<Longrightarrow> \<exists>f. pt_reach (load64 m) (pi_pt it) (pi_va it) n t f"
    using at by (simp add: ptiter_at_def)
  have lt: "pi_lbits it + 9 < 64" using n l by simp
  have nz: "?a \<noteq> 0" using after_same_table(1) [OF lt same] .
  have gt: "unat (pi_va it) < unat ?a" using after_greater [OF _ nz] lt by simp
  have slot: "slot t n ?a = pi_pep it + 8"
    using slot_after [OF n] same l pep by simp
  have agree: "agree_above n (pi_va it) ?a"
    using same l by (intro agree_above_drop_bit) simp
  have "ptiter_at b m (it\<lparr>pi_pep := pi_pep it + 8, pi_va := va'\<rparr>) n t \<and> unat (pi_va it) < unat va'"
  proof (cases "va_is_canonical ?a")
    case True
    then show ?thesis
      using slot pt_reach_agree [OF _ agree] reach l n n1 gt
      by (auto simp: ptiter_at_def va'_def next_va_def) metis
  next
    case False
    have "n = 3"
    proof (rule ccontr)
      assume "n \<noteq> 3"
      then have "pi_lbits it + 9 \<le> 47" using n l by simp
      then show False using canonical_drop_bit [OF same] can False by simp
    qed
    then have a: "?a = VA_LOWEND" using after_top(2) [OF can] nz False l by simp
    have "slot t 3 VA_HIGHMIN = slot t 3 VA_LOWEND" by (simp add: slot_def pgidx_def)
    moreover have "agree_above 3 (pi_va it) VA_HIGHMIN" by (auto simp: agree_above_def)
    moreover have "va_is_canonical VA_HIGHMIN" by (simp add: va_is_canonical_def)
    ultimately show ?thesis
      using slot pt_reach_agree [of "load64 m" "pi_pt it" "pi_va it" 3 t _ VA_HIGHMIN] reach l n1 gt a
        \<open>n = 3\<close> False
      by (auto simp: ptiter_at_def va'_def next_va_def)
  qed
  then show "ptiter_at b m (it\<lparr>pi_pep := pi_pep it + 8, pi_va := va'\<rparr>) n t" "unat (pi_va it) < unat va'"
    by simp_all
qed

definition ptiter_result :: "bool \<Rightarrow> mem \<Rightarrow> addr \<Rightarrow> ptiter \<Rightarrow> bool" where
  "ptiter_result b m pt it \<longleftrightarrow>
     pi_pt it = pt \<and> (ptiter_done it \<or> (\<exists>n t. ptiter_at b m it n t \<and> is_link (load64 m (pi_pep it))))"

lemma crossing_iff:
  "(va' XOR va) AND NOT (lbits_mask l) \<noteq> 0 \<longleftrightarrow> drop_bit l va' \<noteq> drop_bit l va"
  unfolding lbits_mask_def bit.double_compl xor_high_zero by (rule refl)

definition ptiter_passed :: "ptiter \<Rightarrow> nat \<Rightarrow> ptiter \<Rightarrow> bool" where
  "ptiter_passed it k it' \<longleftrightarrow>
     unat (pi_va it) < unat (pi_va it') \<or> pi_va it = pi_va it' \<and> 12 + 9 * k \<le> pi_lbits it'"

lemma ptiter_loop_up:
  assumes at: "ptiter_at b m it n t" and stay: "skip \<or> \<not> is_link (load64 m (pi_pep it))"
    and cross: "drop_bit (pi_lbits it + 9) (after (pi_lbits it) (pi_va it)) \<noteq> drop_bit (pi_lbits it + 9) (pi_va it)"
  shows "ptiter_down_loop m stop skip it =
      (if n = 3 then Some (it\<lparr>pi_lbits := done_lbits\<rparr>)
       else ptiter_down_loop m (12 + 9 * (n + 1)) False (it\<lparr>pi_lbits := initial_lbits,
          pi_pep := pi_pt it + 8 * (drop_bit initial_lbits (pi_va it) AND 0x1FF)\<rparr>))"
proof -
  let ?a = "after (pi_lbits it) (pi_va it)"
  have l: "pi_lbits it = 12 + 9 * n" and can: "va_is_canonical (pi_va it)" and lt: "pi_lbits it < 64"
    using at ptiter_at_level [OF at] by (simp_all add: ptiter_at_def)
  have "?a = 0" if "n = 3" using that after_top(1) [OF can] cross l by force
  then have "?a = 0 \<and> pi_lbits it = initial_lbits \<longleftrightarrow> n = 3" using l by auto
  then show ?thesis
    using stay cross lt l crossing_iff [of ?a "pi_va it" "pi_lbits it + 9"]
    by (subst ptiter_down_loop.simps)
       (auto simp: is_link_def Let_def lbits_mask_mask after_def)
qed

lemma ptiter_loop_advance:
  assumes at: "ptiter_at b m it n t" and stay: "skip \<or> \<not> is_link (load64 m (pi_pep it))"
    and same: "drop_bit (pi_lbits it + 9) (after (pi_lbits it) (pi_va it)) = drop_bit (pi_lbits it + 9) (pi_va it)"
  shows "ptiter_down_loop m stop skip it =
      ptiter_down_loop m stop False
        (it\<lparr>pi_pep := pi_pep it + 8, pi_va := next_va (after (pi_lbits it) (pi_va it))\<rparr>)"
proof -
  let ?a = "after (pi_lbits it) (pi_va it)"
  have "pi_lbits it < 64" using at ptiter_at_level [OF at] by (simp add: ptiter_at_def)
  then show ?thesis
    using stay same crossing_iff [of ?a "pi_va it" "pi_lbits it + 9"]
    by (subst ptiter_down_loop.simps)
       (auto simp: is_link_def Let_def lbits_mask_mask after_def next_va_def)
qed

lemma ptiter_down_loop_ends:
  assumes "ptiter_at b m it n t" "k \<le> n" "1 \<le> k"
  shows "\<exists>it'. ptiter_down_loop m (12 + 9 * k) skip it = Some it' \<and> ptiter_result b m (pi_pt it) it'
    \<and> ptiter_passed it (if skip then n + 1 else k) it'"
  using assms
proof (induction "(2 ^ 64 - unat (pi_va it)) * 64 + (4 - k) * 8 + n" arbitrary: it n t k skip
    rule: less_induct)
  case less
  let ?e = "load64 m (pi_pep it)" and ?a = "after (pi_lbits it) (pi_va it)"
  have n: "n \<le> 3" and l: "pi_lbits it = 12 + 9 * n" and can: "va_is_canonical (pi_va it)"
    using less.prems(1) ptiter_at_level [OF less.prems(1)] by (simp_all add: ptiter_at_def)
  have lt: "pi_lbits it < 64" using n l by simp
  have va: "unat (pi_va it) < 2 ^ 64" using unsigned_less [of "pi_va it", where 'a = nat] by simp
  consider (stop) "\<not> skip" "is_link ?e" "n = k" | (down) "\<not> skip" "is_link ?e" "n \<noteq> k"
    | (advance) "skip \<or> \<not> is_link ?e" "drop_bit (pi_lbits it + 9) ?a = drop_bit (pi_lbits it + 9) (pi_va it)"
    | (up) "skip \<or> \<not> is_link ?e" "drop_bit (pi_lbits it + 9) ?a \<noteq> drop_bit (pi_lbits it + 9) (pi_va it)"
    by blast
  then show ?case
  proof cases
    case stop
    then show ?thesis
      using lt l less.prems(1)
      by (subst ptiter_down_loop.simps) (auto simp: is_link_def ptiter_result_def ptiter_passed_def)
  next
    case down
    then obtain n' where n': "n = Suc n'" "k \<le> n'" using less.prems(2,3) by (cases n) auto
    note at = ptiter_at_down [OF less.prems(1) [unfolded n'(1)] _ down(2)]
    show ?thesis
      using down n' lt l less.prems(3) less.hyps [OF _ at, of k skip]
      by (subst ptiter_down_loop.simps)
         (auto simp: is_link_def ptiter_result_def ptiter_passed_def Let_def)
  next
    case advance
    note at = ptiter_at_advance [OF less.prems(1) advance(2)]
    have "(2 ^ 64 - unat (next_va ?a)) * 64 < (2 ^ 64 - unat (pi_va it)) * 64"
      using at(2) va by simp
    then obtain it' where "ptiter_down_loop m (12 + 9 * k) False
          (it\<lparr>pi_pep := pi_pep it + 8, pi_va := next_va ?a\<rparr>) = Some it'"
        "ptiter_result b m (pi_pt it) it'" "unat (next_va ?a) \<le> unat (pi_va it')"
      using less.hyps [OF _ at(1) less.prems(2,3), of False] by (auto simp: ptiter_passed_def)
    then show ?thesis
      using at(2) ptiter_loop_advance [OF less.prems(1) advance] by (auto simp: ptiter_passed_def)
  next
    case up
    note at = ptiter_at_root [OF less.prems(1)] and step = ptiter_loop_up [OF less.prems(1) up]
    show ?thesis
    proof (cases "n = 3")
      case True
      then show ?thesis
        using step less.prems(2) by (simp add: ptiter_result_def ptiter_done_def ptiter_passed_def)
    next
      case False
      then have n1: "n + 1 \<le> 3" using n by simp
      then have "4 - (n + 1) + 1 \<le> 4 - k" using less.prems(2) by simp
      then have "(4 - (n + 1)) * 8 + 3 < (4 - k) * 8 + n" by linarith
      then obtain it' where "ptiter_down_loop m (12 + 9 * k) skip it = Some it'"
        "ptiter_result b m (pi_pt it) it'" "ptiter_passed it (n + 1) it'"
        using False step n1 less.hyps [OF _ at n1, of False] by (auto simp: ptiter_passed_def)
      then show ?thesis using less.prems(2) by (auto simp: ptiter_passed_def)
    qed
  qed
qed

lemma ptiter_new_at:
  "ptiter_at b m \<lparr>pi_pt = pt, pi_pep = pt, pi_lbits = initial_lbits, pi_va = 0\<rparr> 3 pt"
  using pt_reach.root by (auto simp: ptiter_at_def slot_def pgidx_def va_is_canonical_def)

text \<open>The pages an iterator visits, as the loops over \<open>ptiter\<close> collect them.\<close>

partial_function (option) ptiter_pages :: "mem \<Rightarrow> ptiter \<Rightarrow> u64 list option" where
  "ptiter_pages m it =
     (if ptiter_done it then Some []
      else case ptiter_next m it of
             None \<Rightarrow> None
           | Some it' \<Rightarrow>
               Option.bind (ptiter_pages m it') (\<lambda>ps. Some (ptiter_pa m it # ps)))"

section \<open>Total iterators\<close>

text \<open>When no entry has an address of 4 GiB or more, no iterator panics.\<close>

lemma vmiter_new_total:
  assumes "page_aligned pt" "\<And>a. aligned8 a \<Longrightarrow> load64 m a < 0x100000000"
  shows "\<exists>it. vmiter_new m pt va = Inr it"
proof -
  let ?it = "vmiter_descend m (vmiter_start pt va)"
  have "read_pe m (vm_pep ?it) < 0x100000000"
  proof (cases "va_is_canonical va")
    case True
    from vmiter_start_at [OF this, of m pt] obtain n t f where "vmiter_terminal m ?it n t f"
      "vm_pt ?it = pt" by (rule vmiter_descend_terminal) (simp add: vmiter_start_def True)
    then have "vm_pep ?it = PE (slot t n (vm_va ?it))" "page_aligned t"
      using pt_reach_aligned assms(1) by (auto simp: vmiter_terminal_def vmiter_at_def)
    then show ?thesis using assms(2) slot_aligned8 by simp
  next
    case False
    then show ?thesis by (simp add: vmiter_descend_zero vmiter_start_def)
  qed
  moreover have "read_pe m (vm_pep ?it) AND PTE_PAMASK \<le> read_pe m (vm_pep ?it)"
    by (rule word_and_le2)
  ultimately have "read_pe m (vm_pep ?it) AND PTE_PAMASK < 0x100000000" by (rule le_less_trans [rotated])
  then show ?thesis by (auto simp: vmiter_new_start vmiter_down_def Let_def not_le)
qed

section \<open>Iterating over the table pages\<close>

lemma ptiter_next_ends:
  assumes "ptiter_at b m it n t"
  shows "\<exists>it'. ptiter_next m it = Some it' \<and> ptiter_result b m (pi_pt it) it'
    \<and> (pi_va it < pi_va it' \<or> pi_va it = pi_va it' \<and> pi_lbits it < pi_lbits it')"
proof -
  have n: "1 \<le> n" "pi_lbits it = 12 + 9 * n" using assms by (auto simp: ptiter_at_def)
  then show ?thesis
    using ptiter_down_loop_ends [OF assms, of 1 True]
    by (auto simp: ptiter_next_def ptiter_down_def ptiter_passed_def word_less_nat_alt)
qed

text \<open>The loop visits only table pages of the page table, and ends.\<close>

lemma ptiter_pages_end:
  assumes "ptiter_result True m pt it"
  shows "\<exists>ps. ptiter_pages m it = Some ps
    \<and> (\<forall>p \<in> set ps. \<exists>va n f. n < 3 \<and> pt_reach (load64 m) pt va n p f)"
  using assms
proof (induction "(2 ^ 64 - unat (pi_va it)) * 64 + (64 - pi_lbits it)" arbitrary: it rule: less_induct)
  case less
  show ?case
  proof (cases "ptiter_done it")
    case True
    then show ?thesis by (subst ptiter_pages.simps) simp
  next
    case False
    with less.prems obtain n t where at: "ptiter_at True m it n t" and link: "is_link (load64 m (pi_pep it))"
      and pt: "pi_pt it = pt" by (auto simp: ptiter_result_def)
    obtain f where reach: "pt_reach (load64 m) pt (pi_va it) n t f"
      using at pt by (auto simp: ptiter_at_def)
    have n: "1 \<le> n" "n \<le> 3" "pi_lbits it = 12 + 9 * n" "pi_pep it = slot t n (pi_va it)"
      using at ptiter_at_level [OF at] by (simp_all add: ptiter_at_def)
    obtain n' where n': "n = Suc n'" using n(1) by (cases n) auto
    have page: "pt_reach (load64 m) pt (pi_va it) n' (ptiter_pa m it) (f AND load64 m (pi_pep it))"
      using reach link n(4) n' pt_reach.down [of "load64 m" pt "pi_va it" n' t f]
      by (simp add: ptiter_pa_def next_table_def)
    obtain it' where nx: "ptiter_next m it = Some it'" "ptiter_result True m pt it'"
      and lt: "pi_va it < pi_va it' \<or> pi_va it = pi_va it' \<and> pi_lbits it < pi_lbits it'"
      using ptiter_next_ends [OF at] pt by auto
    have "unat (pi_va it') < 2 ^ 64" using unsigned_less [of "pi_va it'", where 'a = nat] by simp
    then have "(2 ^ 64 - unat (pi_va it')) * 64 + (64 - pi_lbits it') <
        (2 ^ 64 - unat (pi_va it)) * 64 + (64 - pi_lbits it)"
      using lt n(2,3) by (auto simp: word_less_nat_alt)
    from less.hyps [OF this nx(2)] obtain ps where "ptiter_pages m it' = Some ps"
      "\<forall>p \<in> set ps. \<exists>va n f. n < 3 \<and> pt_reach (load64 m) pt va n p f" by blast
    then show ?thesis
      using False nx(1) page n(2) n' by (subst ptiter_pages.simps) force
  qed
qed

lemma ptiter_new_ends: "\<exists>it. ptiter_new m pt = Some it \<and> ptiter_result b m pt it"
  using ptiter_down_loop_ends [OF ptiter_new_at [of b m pt], of 1 False]
  by (auto simp: ptiter_new_def ptiter_down_def)

section \<open>Properties\<close>

text \<open>
  \<open>C31\<close>: \<open>range_perm(sz, perm)\<close> ends and is true exactly when every address of the range has
  the permissions asked for, across page and table boundaries and the gap of non-canonical
  addresses, for ranges that do not wrap around the address space.
\<close>

theorem range_perm_correct:
  assumes "page_aligned pt" "\<forall>a. \<exists>it. vmiter_new m pt a = Inr it" "vmiter_new m pt va = Inr it"
    and "0 < sz" "unat va + unat sz \<le> 2 ^ 64" "desired \<noteq> 0"
  shows "\<exists>b. vmiter_range_has_perm m it sz desired = Some (Inr b)
    \<and> (b \<longleftrightarrow> (\<forall>a. unat va \<le> unat a \<and> unat a < unat va + unat sz \<longrightarrow> perm_at m pt a AND desired = desired))"
proof -
  let ?rs = "vmiter_range_size it" and ?p = "vmiter_perm m it"
  let ?all = "covers m pt desired (unat va) (unat va + unat sz)"
  note rng = vmiter_new_range [OF assms(3)]
  have sz: "0 < unat sz" using assms(4) by (simp add: unat_gt_0 word_gt_0)
  have p: "perm_at m pt va = ?p" using assms(3) by (simp add: perm_at_def)
  have "\<exists>q. vmiter_range_perm m it sz = Some (Inr q) \<and> (q AND desired = desired \<longleftrightarrow> ?all)"
  proof (cases "?p = 0 \<or> sz \<le> ?rs")
    case True
    have "?p AND desired = desired \<longleftrightarrow> ?all"
    proof (cases "sz \<le> ?rs")
      case True
      then show ?thesis
        using sz covers_range [OF assms(3), of "unat va + unat sz" desired] by (simp add: word_le_nat_alt)
    next
      case False
      then have "?p = 0" using True by simp
      then have "\<not> ?all" using p sz assms(6) by (auto simp: covers_def intro!: exI [of _ va])
      then show ?thesis using \<open>?p = 0\<close> assms(6) by simp
    qed
    then show ?thesis using True assms(4) by (simp add: vmiter_range_perm_def)
  next
    case False
    then have rs: "unat ?rs < unat sz" by (simp add: word_less_nat_alt word_le_nat_alt)
    then have d: "unat (sz - ?rs) = unat sz - unat ?rs" by (intro unat_sub) (simp add: word_le_nat_alt)
    have lt: "unat va + unat ?rs < 2 ^ 64" using assms(5) rs by linarith
    note nr = vmiter_next_range_new [OF assms(3,1) lt]
    obtain it' where it': "vmiter_new m pt (va + ?rs) = Inr it'" using assms(2) by blast
    have "va + ?rs \<noteq> 0" using nr(2) rng(1) by (metis add_is_0 less_irrefl unat_0)
    moreover have "unat (va + ?rs) + unat (sz - ?rs) = unat va + unat sz" using nr(2) d rs by simp
    ultimately obtain q where q: "range_perm_impl m it' ?p (sz - ?rs) = Some (Inr q)"
      "q AND desired = desired \<longleftrightarrow> ?p AND desired = desired \<and> covers m pt desired (unat (va + ?rs)) (unat va + unat sz)"
      using range_perm_impl_covers [OF assms(1) _ it', of "sz - ?rs" ?p] assms(2,5,6) by auto
    have "?all \<longleftrightarrow> ?p AND desired = desired \<and> covers m pt desired (unat (va + ?rs)) (unat va + unat sz)"
      using covers_split [of "unat va" "unat (va + ?rs)" "unat va + unat sz" m pt desired]
        covers_range [OF assms(3), of "unat (va + ?rs)" desired] nr(2) rs rng(1) by simp
    then show ?thesis using False assms(4) nr(1) it' q by (auto simp: vmiter_range_perm_def)
  qed
  then show ?thesis by (auto simp: vmiter_range_has_perm_def covers_def)
qed

lemma large_page_small:
  assumes "aligned8 a"
  shows "load64 large_page_mem a < 0x100000000"
proof -
  have "aligned8 0x1000" "aligned8 0x2000" "aligned8 0x3000" by (simp_all add: aligned8_def)
  then show ?thesis
    using assms load64_store64_same load64_store64_other
    unfolding large_page_mem_def by (cases "a = 0x3000"; cases "a = 0x2000"; cases "a = 0x1000")
      (simp_all add: load64_store64_same load64_store64_other load64_def [of "\<lambda>_. 0"])
qed

theorem range_perm_correct_witness:
  "\<exists>b. vmiter_range_has_perm large_page_mem (large_page_it 0x5000) 0x3000 PTE_P = Some (Inr b)
    \<and> (b \<longleftrightarrow> (\<forall>a. 0x5000 \<le> unat a \<and> unat a < 0x8000 \<longrightarrow>
          perm_at large_page_mem 0x1000 a AND PTE_P = PTE_P))"
proof -
  have "page_aligned 0x1000" by (simp add: page_aligned_def)
  moreover from this have "\<forall>a. \<exists>it. vmiter_new large_page_mem 0x1000 a = Inr it"
    using vmiter_new_total large_page_small by blast
  ultimately show ?thesis
    using range_perm_correct [OF _ _ large_page_new, of "0x3000" PTE_P] by simp
qed

text \<open>
  \<open>C32\<close>: a loop over the page table pages with \<open>ptiter\<close> ends for every page table, whatever
  its contents, and every page it visits is a table page of levels 1 to 3 that the hardware's
  page walk can reach: a loop that frees the visited pages frees nothing else.
\<close>

theorem ptiter_visits_tables:
  "\<exists>it ps. ptiter_new m pt = Some it \<and> ptiter_pages m it = Some ps
    \<and> list_all (\<lambda>p. \<exists>va n f. n < 3 \<and> pt_reach (load64 m) pt va n p f) ps"
  using ptiter_new_ends [of m pt True] ptiter_pages_end by (fastforce simp: list_all_iff)

end
