(* ===== verification/PortIO.thy ===== *)
theory PortIO
  imports Arith
begin

text \<open>
  Programmed and memory-mapped input and output: the instruction wrappers of
  \<open>pset3/x86-64.h\<close>, the interrupt controllers of \<open>pset3/k-apic.hh\<close> and the PCI
  configuration space of \<open>pset3/k-pci.hh\<close> and \<open>pset3/k-hardware.cc\<close>.

  A run of kernel code leaves a trace of the operations it performed, newest first. The
  hardware is the parameter \<open>dev\<close>: it gives the value an input operation returns after the
  operations of a trace. Where the code relies on a device (PCI configuration space), the
  device's documented behaviour is a named predicate on \<open>dev\<close>.
\<close>

section \<open>Operations and traces\<close>

datatype io =
    InB u16 | InW u16 | InL u16
  | OutB u16 byte | OutW u16 u16 | OutL u16 u32
  | MmioRead addr | MmioWrite addr u32
  | RdCr0 | RdCr2 | RdMsr u32 | Cpuid u32
  | WrCr0 u64 | WrCr3 u64 | WrMsr u32 u64
  | Lgdt u16 addr | Ltr u16 | Lidt u16 addr | LoadFsGs u16 | Cli

type_synonym trace = "io list"
type_synonym device = "trace \<Rightarrow> io \<Rightarrow> u64"

definition inb :: "device \<Rightarrow> int \<Rightarrow> trace \<Rightarrow> byte \<times> trace" where
  "inb dev port tr = (let ev = InB (word_of_int port) in (ucast (dev tr ev), ev # tr))"

definition inw :: "device \<Rightarrow> int \<Rightarrow> trace \<Rightarrow> u16 \<times> trace" where
  "inw dev port tr = (let ev = InW (word_of_int port) in (ucast (dev tr ev), ev # tr))"

definition inl :: "device \<Rightarrow> int \<Rightarrow> trace \<Rightarrow> u32 \<times> trace" where
  "inl dev port tr = (let ev = InL (word_of_int port) in (ucast (dev tr ev), ev # tr))"

definition outb :: "int \<Rightarrow> byte \<Rightarrow> trace \<Rightarrow> trace" where
  "outb port data tr = OutB (word_of_int port) data # tr"

definition outw :: "int \<Rightarrow> u16 \<Rightarrow> trace \<Rightarrow> trace" where
  "outw port data tr = OutW (word_of_int port) data # tr"

definition outl :: "int \<Rightarrow> u32 \<Rightarrow> trace \<Rightarrow> trace" where
  "outl port data tr = OutL (word_of_int port) data # tr"

definition rdcr0 :: "device \<Rightarrow> trace \<Rightarrow> u32 \<times> trace" where
  "rdcr0 dev tr = (ucast (dev tr RdCr0), RdCr0 # tr)"

definition wrcr0 :: "u64 \<Rightarrow> trace \<Rightarrow> trace" where
  "wrcr0 x tr = WrCr0 x # tr"

definition rdcr2 :: "device \<Rightarrow> trace \<Rightarrow> u64 \<times> trace" where
  "rdcr2 dev tr = (dev tr RdCr2, RdCr2 # tr)"

definition wrcr3 :: "u64 \<Rightarrow> trace \<Rightarrow> trace" where
  "wrcr3 x tr = WrCr3 x # tr"

definition cpuid_edx :: "device \<Rightarrow> u32 \<Rightarrow> trace \<Rightarrow> u32 \<times> trace" where
  "cpuid_edx dev leaf tr = (ucast (dev tr (Cpuid leaf)), Cpuid leaf # tr)"

text \<open>\<open>rdmsr\<close> and \<open>wrmsr\<close> move a 64-bit value through the pair \<open>edx:eax\<close>.\<close>

definition rdmsr :: "device \<Rightarrow> u32 \<Rightarrow> trace \<Rightarrow> u64 \<times> trace" where
  "rdmsr dev msr tr =
     (let low = dev tr (RdMsr msr) AND 0xFFFFFFFF; high = drop_bit 32 (dev tr (RdMsr msr)) in
      (low OR push_bit 32 high, RdMsr msr # tr))"

definition wrmsr :: "u32 \<Rightarrow> u64 \<Rightarrow> trace \<Rightarrow> trace" where
  "wrmsr msr x tr =
     WrMsr msr (ucast (ucast x :: u32) OR push_bit 32 (ucast (ucast (drop_bit 32 x) :: u32))) # tr"

section \<open>Local APIC\<close>

abbreviation lapic_pa :: u64 where "lapic_pa \<equiv> 0xFEE00000"

datatype lapic_reg =
    reg_id | reg_tpr | reg_svr | reg_isr
  | reg_tmr | reg_irr | reg_esr | reg_eoi
  | reg_cmci | reg_lvt_timer | reg_lvt_lint0 | reg_lvt_lint1
  | reg_lvt_error | reg_icr_low | reg_icr_high | reg_timer_initial_count
  | reg_timer_current_count | reg_timer_divide

fun lapic_reg_id :: "lapic_reg \<Rightarrow> u64" where
  "lapic_reg_id reg_id = 0x02"
| "lapic_reg_id reg_tpr = 0x08"
| "lapic_reg_id reg_svr = 0x0F"
| "lapic_reg_id reg_isr = 0x10"
| "lapic_reg_id reg_tmr = 0x18"
| "lapic_reg_id reg_irr = 0x20"
| "lapic_reg_id reg_esr = 0x28"
| "lapic_reg_id reg_eoi = 0x0B"
| "lapic_reg_id reg_cmci = 0x2F"
| "lapic_reg_id reg_lvt_timer = 0x32"
| "lapic_reg_id reg_lvt_lint0 = 0x35"
| "lapic_reg_id reg_lvt_lint1 = 0x36"
| "lapic_reg_id reg_lvt_error = 0x37"
| "lapic_reg_id reg_icr_low = 0x30"
| "lapic_reg_id reg_icr_high = 0x31"
| "lapic_reg_id reg_timer_initial_count = 0x38"
| "lapic_reg_id reg_timer_current_count = 0x39"
| "lapic_reg_id reg_timer_divide = 0x3E"

text \<open>Registers are 16 bytes apart.\<close>

definition lapic_read :: "device \<Rightarrow> lapic_reg \<Rightarrow> trace \<Rightarrow> u32 \<times> trace" where
  "lapic_read dev reg tr =
     (let ev = MmioRead (lapic_pa + 16 * lapic_reg_id reg) in (ucast (dev tr ev), ev # tr))"

definition lapic_write :: "lapic_reg \<Rightarrow> u32 \<Rightarrow> trace \<Rightarrow> trace" where
  "lapic_write reg v tr = MmioWrite (lapic_pa + 16 * lapic_reg_id reg) v # tr"

definition lapic_id :: "device \<Rightarrow> trace \<Rightarrow> u32 \<times> trace" where
  "lapic_id dev tr = (case lapic_read dev reg_id tr of (v, tr') \<Rightarrow> (drop_bit 24 v, tr'))"

definition enable_lapic :: "device \<Rightarrow> u32 \<Rightarrow> trace \<Rightarrow> trace" where
  "enable_lapic dev vector tr =
     (case lapic_read dev reg_svr tr of (v, tr') \<Rightarrow>
        lapic_write reg_svr (v AND NOT 0xFF OR 0x100 OR vector) tr')"

definition disable_lapic :: "device \<Rightarrow> trace \<Rightarrow> trace" where
  "disable_lapic dev tr =
     (case lapic_read dev reg_svr tr of (v, tr') \<Rightarrow> lapic_write reg_svr (v AND NOT 0x100) tr')"

definition lapic_error :: "device \<Rightarrow> trace \<Rightarrow> u32 \<times> trace" where
  "lapic_error dev tr = lapic_read dev reg_esr (lapic_write reg_esr 0 tr)"

definition lapic_ack :: "trace \<Rightarrow> trace" where
  "lapic_ack tr = lapic_write reg_eoi 0 tr"

definition ipi_others :: "u32 \<Rightarrow> u32 \<Rightarrow> trace \<Rightarrow> trace" where
  "ipi_others t vector tr = lapic_write reg_icr_low (0xC0000 OR 0x4000 OR t OR vector) tr"

definition ipi_pending :: "device \<Rightarrow> trace \<Rightarrow> bool \<times> trace" where
  "ipi_pending dev tr =
     (case lapic_read dev reg_icr_low tr of (v, tr') \<Rightarrow> (v AND 0x1000 \<noteq> 0, tr'))"

section \<open>I/O APIC\<close>

text \<open>Register accesses go through an index register and a data register, 16 bytes apart.\<close>

abbreviation ioapic_pa :: u64 where "ioapic_pa \<equiv> 0xFEC00000"

definition ioapic_read :: "device \<Rightarrow> nat \<Rightarrow> trace \<Rightarrow> u32 \<times> trace" where
  "ioapic_read dev reg tr =
     (let tr' = MmioWrite ioapic_pa (of_nat reg) # tr; ev = MmioRead (ioapic_pa + 16) in
      (ucast (dev tr' ev), ev # tr'))"

definition ioapic_write :: "nat \<Rightarrow> u32 \<Rightarrow> trace \<Rightarrow> trace" where
  "ioapic_write reg v tr = MmioWrite (ioapic_pa + 16) v # MmioWrite ioapic_pa (of_nat reg) # tr"

definition ioapic_id :: "device \<Rightarrow> trace \<Rightarrow> u32 \<times> trace" where
  "ioapic_id dev tr = (case ioapic_read dev 0x0 tr of (v, tr') \<Rightarrow> (drop_bit 24 v, tr'))"

definition enable_irq :: "nat \<Rightarrow> u32 \<Rightarrow> u32 \<Rightarrow> trace \<Rightarrow> trace" where
  "enable_irq entry vector cpu_lapicid tr =
     ioapic_write (0x10 + 2 * entry + 1) (push_bit 24 cpu_lapicid)
       (ioapic_write (0x10 + 2 * entry) vector tr)"

definition disable_irq :: "nat \<Rightarrow> trace \<Rightarrow> trace" where
  "disable_irq entry tr =
     ioapic_write (0x10 + 2 * entry + 1) 0 (ioapic_write (0x10 + 2 * entry) 0x10000 tr)"

section \<open>PCI configuration space\<close>

text \<open>
  A function address is a C \<open>int\<close> holding the bus in bits 16 to 23, the slot in bits 11 to
  15 and the function in bits 8 to 10.
\<close>

abbreviation addr_end :: int where "addr_end \<equiv> 0x80000"
abbreviation config_addr :: int where "config_addr \<equiv> 0xCF8"
abbreviation config_data :: int where "config_data \<equiv> 0xCFC"

definition make_addr :: "int \<Rightarrow> int \<Rightarrow> int \<Rightarrow> int result" where
  "make_addr bus slot func =
     (if \<not> (bus \<ge> 0 \<and> bus < 256) then Inl (AssertFail ''bus >= 0 && bus < 256'')
      else if \<not> (slot \<ge> 0 \<and> slot < 32) then Inl (AssertFail ''slot >= 0 && slot < 32'')
      else if \<not> (func \<ge> 0 \<and> func < 8) then Inl (AssertFail ''func >= 0 && func < 8'')
      else Inr (push_bit 16 bus OR push_bit 11 slot OR push_bit 8 func))"

definition pci_addr_ok :: "int \<Rightarrow> unit result" where
  "pci_addr_ok addr = assert_that (addr \<ge> 0 \<and> addr < 0x1000000) ''addr >= 0 && addr < 0x1000000''"

definition addr_bus :: "int \<Rightarrow> int result" where
  "addr_bus addr = bind_result (pci_addr_ok addr) (\<lambda>_. Inr (drop_bit 16 addr))"

definition addr_slot :: "int \<Rightarrow> int result" where
  "addr_slot addr = bind_result (pci_addr_ok addr) (\<lambda>_. Inr (drop_bit 11 addr AND 0x1F))"

definition addr_func :: "int \<Rightarrow> int result" where
  "addr_func addr = bind_result (pci_addr_ok addr) (\<lambda>_. Inr (drop_bit 8 addr AND 0x7))"

definition pci_select :: "int \<Rightarrow> trace \<Rightarrow> trace" where
  "pci_select addr tr = outl config_addr (0x80000000 OR word_of_int addr) tr"

definition readl :: "device \<Rightarrow> int \<Rightarrow> trace \<Rightarrow> (u32 \<times> trace) result" where
  "readl dev addr tr =
     (if \<not> (addr \<ge> 0 \<and> addr AND 3 = 0) then Inl (AssertFail ''addr >= 0 && !(addr & 3)'')
      else Inr (inl dev config_data (pci_select addr tr)))"

definition readw :: "device \<Rightarrow> int \<Rightarrow> trace \<Rightarrow> (u16 \<times> trace) result" where
  "readw dev addr tr =
     (if \<not> (addr \<ge> 0 \<and> addr AND 1 = 0) then Inl (AssertFail ''addr >= 0 && !(addr & 1)'')
      else Inr (inw dev (config_data + (addr AND 3)) (pci_select addr tr)))"

definition readb :: "device \<Rightarrow> int \<Rightarrow> trace \<Rightarrow> (byte \<times> trace) result" where
  "readb dev addr tr =
     (if \<not> addr \<ge> 0 then Inl (AssertFail ''addr >= 0'')
      else Inr (inb dev (config_data + (addr AND 3)) (pci_select addr tr)))"

definition writel :: "int \<Rightarrow> u32 \<Rightarrow> trace \<Rightarrow> trace result" where
  "writel addr data tr =
     (if \<not> (addr \<ge> 0 \<and> addr AND 3 = 0) then Inl (AssertFail ''addr >= 0 && !(addr & 3)'')
      else Inr (outl config_data data (pci_select addr tr)))"

definition writew :: "int \<Rightarrow> u16 \<Rightarrow> trace \<Rightarrow> trace result" where
  "writew addr data tr =
     (if \<not> (addr \<ge> 0 \<and> addr AND 1 = 0) then Inl (AssertFail ''addr >= 0 && !(addr & 1)'')
      else Inr (outw config_data (data + word_of_int (addr AND 3)) (pci_select addr tr)))"

definition writeb :: "int \<Rightarrow> byte \<Rightarrow> trace \<Rightarrow> trace result" where
  "writeb addr data tr =
     (if \<not> addr \<ge> 0 then Inl (AssertFail ''addr >= 0'')
      else Inr (outb config_data (data + word_of_int (addr AND 3)) (pci_select addr tr)))"

text \<open>One turn of the loop of \<open>pcistate::next\<close>: the address after \<open>addr\<close>.\<close>

definition next_addr :: "int \<Rightarrow> u32 \<Rightarrow> int result" where
  "next_addr addr x =
     bind_result (addr_func addr) (\<lambda>func.
     bind_result (if func = 0 \<and> (x = - 1 \<or> x AND 0x800000 = 0) then make_addr 0 1 0
                  else make_addr 0 0 1) (\<lambda>d.
     Inr (addr + d)))"

lemma next_addr_cases:
  assumes "next_addr addr x = Inr a"
  shows "0 \<le> addr" and "a = addr + 0x800 \<or> a = addr + 0x100"
proof -
  have *: "make_addr 0 1 0 = Inr 0x800" "make_addr 0 0 1 = Inr 0x100"
    by (simp_all add: make_addr_def push_bit_eq_mult)
  show "0 \<le> addr" "a = addr + 0x800 \<or> a = addr + 0x100"
    using assms by (auto simp: next_addr_def addr_func_def pci_addr_ok_def bind_result_Inr_iff *
        split: if_splits)
qed

function pci_next_loop :: "device \<Rightarrow> int \<Rightarrow> u32 \<Rightarrow> trace \<Rightarrow> (int \<times> trace) result" where
  "pci_next_loop dev addr x tr =
     (case next_addr addr x of
        Inl e \<Rightarrow> Inl e
      | Inr addr' \<Rightarrow>
          if addr' \<ge> addr_end then Inr (- 1, tr)
          else case readl dev (addr' + 12) tr of
                 Inl e \<Rightarrow> Inl e
               | Inr (x', tr') \<Rightarrow>
                   if x' \<noteq> - 1 then Inr (addr', tr') else pci_next_loop dev addr' x' tr')"
  by pat_completeness auto
termination
  by (relation "measure (\<lambda>(_, addr, _, _). nat (addr_end - addr))")
     (auto dest!: next_addr_cases)

declare pci_next_loop.simps [simp del]

definition pci_next :: "device \<Rightarrow> int \<Rightarrow> trace \<Rightarrow> (int \<times> trace) result" where
  "pci_next dev addr tr =
     (case readl dev (addr + 12) tr of
        Inl e \<Rightarrow> Inl e
      | Inr (x, tr') \<Rightarrow> pci_next_loop dev addr x tr')"

text \<open>\<open>pcistate::find\<close>; the predicate may itself perform input and output.\<close>

lemma pci_next_loop_range:
  "pci_next_loop dev addr x tr = Inr (r, tr') \<Longrightarrow> r = - 1 \<or> (addr < r \<and> r < addr_end)"
proof (induction dev addr x tr rule: pci_next_loop.induct)
  case (1 dev addr x tr)
  show ?case
  proof (cases "next_addr addr x")
    case (Inr a)
    then have "a > addr" using next_addr_cases [OF Inr] by auto
    moreover have "r = - 1 \<or> (r < addr_end \<and> (r = a \<or> a < r))"
      using 1(2) [unfolded pci_next_loop.simps [of dev addr x tr]] 1(1) [OF Inr] Inr
      by (fastforce split: sum.splits if_splits)
    ultimately show ?thesis by auto
  qed (use 1(2) in \<open>simp add: pci_next_loop.simps\<close>)
qed

lemma pci_next_range:
  "pci_next dev addr tr = Inr (r, tr') \<Longrightarrow> r = - 1 \<or> (addr < r \<and> r < addr_end)"
  by (auto simp: pci_next_def split: sum.splits dest: pci_next_loop_range)

function pci_find :: "device \<Rightarrow> (int \<Rightarrow> trace \<Rightarrow> (bool \<times> trace) result) \<Rightarrow> int \<Rightarrow> trace
    \<Rightarrow> (int \<times> trace) result" where
  "pci_find dev predicate addr tr =
     (if addr < 0 then Inr (addr, tr)
      else case predicate addr tr of
             Inl e \<Rightarrow> Inl e
           | Inr (b, tr') \<Rightarrow>
               if b then Inr (addr, tr')
               else case pci_next dev addr tr' of
                      Inl e \<Rightarrow> Inl e
                    | Inr (addr', tr'') \<Rightarrow> pci_find dev predicate addr' tr'')"
  by pat_completeness auto
termination
  by (relation "measure (\<lambda>(_, _, addr, _). if addr < 0 then 0 else Suc (nat (addr_end - addr)))")
     (auto dest!: pci_next_range)

declare pci_find.simps [simp del]

definition pci_enable :: "int \<Rightarrow> trace \<Rightarrow> trace result" where
  "pci_enable addr tr = writew (addr + 4) 0x0007 tr"

section \<open>The functions of a PCI bus\<close>

text \<open>
  The documented behaviour of the host bridge: after a configuration address has been
  written, a read of the data register returns the register of configuration space it names.
\<close>

definition pci_config :: "device \<Rightarrow> (int \<Rightarrow> u32) \<Rightarrow> bool" where
  "pci_config dev cfg \<longleftrightarrow>
     (\<forall>tr a. 0 \<le> a \<and> a < 0x1000000 \<and> a mod 4 = 0 \<longrightarrow>
        ucast (dev (pci_select a tr) (InL 0xCFC)) = cfg a)"

definition multi_function :: "(int \<Rightarrow> u32) \<Rightarrow> int \<Rightarrow> bool" where
  "multi_function cfg a \<longleftrightarrow> cfg (a + 12) \<noteq> - 1 \<and> cfg (a + 12) AND 0x800000 \<noteq> 0"

text \<open>
  A function is visible when it answers and, unless it is function 0 of its slot, function 0
  declares the device multi-function.
\<close>

definition pci_reachable :: "(int \<Rightarrow> u32) \<Rightarrow> int \<Rightarrow> bool" where
  "pci_reachable cfg a \<longleftrightarrow>
     0 \<le> a \<and> a < addr_end \<and> a mod 0x100 = 0
     \<and> (a mod 0x800 = 0 \<or> multi_function cfg (a - a mod 0x800))"

definition pci_visible :: "(int \<Rightarrow> u32) \<Rightarrow> int \<Rightarrow> bool" where
  "pci_visible cfg a \<longleftrightarrow> pci_reachable cfg a \<and> cfg (a + 12) \<noteq> - 1"

lemma and_3_mod: "(a :: int) AND 3 = a mod 4"
  using take_bit_eq_mask [of 2 a] by (simp add: take_bit_eq_mod mask_eq_exp_minus_1)

lemma and_7_mod_int: "(a :: int) AND 7 = a mod 8"
  using take_bit_eq_mask [of 3 a] by (simp add: take_bit_eq_mod mask_eq_exp_minus_1)

lemma and_31_mod: "(a :: int) AND 31 = a mod 32"
  using take_bit_eq_mask [of 5 a] by (simp add: take_bit_eq_mod mask_eq_exp_minus_1)

lemma readl_config:
  assumes "pci_config dev cfg" "0 \<le> a" "a < 0x1000000" "a mod 4 = 0"
  obtains tr' where "readl dev a tr = Inr (cfg a, tr')"
  using assms by (auto simp: readl_def and_3_mod inl_def Let_def pci_config_def)

lemma make_addr_values [simp]: "make_addr 0 1 0 = Inr 0x800" "make_addr 0 0 1 = Inr 0x100"
  by (simp_all add: make_addr_def push_bit_eq_mult)

lemma mod_256_mult: "(256 * k) mod 2048 = 256 * (k mod 8)" for k :: int
  using mod_mult_mult1 [of 256 k 8] by simp

lemma pci_reachable_mult:
  "pci_reachable cfg a \<longleftrightarrow>
     (\<exists>k. a = 256 * k \<and> 0 \<le> k \<and> k < 2048 \<and> (k mod 8 = 0 \<or> multi_function cfg (256 * (k - k mod 8))))"
  (is "_ \<longleftrightarrow> ?R")
proof
  assume a: "pci_reachable cfg a"
  then have "256 dvd a" by (auto simp: pci_reachable_def)
  then obtain k where "a = 256 * k" by (elim dvdE)
  with a show ?R by (auto simp: pci_reachable_def mod_256_mult right_diff_distrib)
next
  assume ?R
  then show "pci_reachable cfg a"
    by (auto simp: pci_reachable_def mod_256_mult right_diff_distrib)
qed

lemma next_addr_eq:
  "pci_reachable cfg a \<Longrightarrow>
   next_addr a (cfg (a + 12)) =
     Inr (if a mod 0x800 = 0 \<and> \<not> multi_function cfg a then a + 0x800 else a + 0x100)"
proof -
  assume a: "pci_reachable cfg a"
  then obtain k where "a = 256 * k" "0 \<le> k" "k < 2048" by (auto simp: pci_reachable_mult)
  then show ?thesis
    by (auto simp: next_addr_def addr_func_def pci_addr_ok_def drop_bit_eq_div and_7_mod_int
        multi_function_def mod_256_mult)
qed

lemma mod_Suc_int: "(k + 1) mod 8 = (if k mod 8 = 7 then 0 else k mod 8 + 1)" for k :: int
proof -
  have "(k + 1) mod 8 = (k mod 8 + 1) mod 8" by (rule mod_add_left_eq [symmetric])
  moreover have "0 \<le> k mod 8" "k mod 8 < 8" by simp_all
  ultimately show ?thesis by (auto simp: mod_pos_pos_trivial)
qed

lemma mod_8_offset: "k mod 8 = 0 \<Longrightarrow> k < j \<Longrightarrow> j < k + 8 \<Longrightarrow> j mod 8 = j - k" for j k :: int
  using mod_diff_eq [of j 8 k] by (simp add: mod_pos_pos_trivial)

lemma pci_reachable_step:
  assumes "pci_reachable cfg a"
    and "a' = (if a mod 0x800 = 0 \<and> \<not> multi_function cfg a then a + 0x800 else a + 0x100)"
  shows "a' < addr_end \<Longrightarrow> pci_reachable cfg a'"
    and "a < b \<Longrightarrow> b < a' \<Longrightarrow> \<not> pci_reachable cfg b"
proof -
  obtain k where k: "a = 256 * k" "0 \<le> k" "k mod 8 = 0 \<or> multi_function cfg (256 * (k - k mod 8))"
    using assms(1) by (auto simp: pci_reachable_mult)
  define k' where "k' = (if k mod 8 = 0 \<and> \<not> multi_function cfg (256 * k) then k + 8 else k + 1)"
  have k': "a' = 256 * k'" using assms(2) k(1) by (simp add: k'_def mod_256_mult)
  have *: "k' mod 8 = 0 \<or> (k' - k' mod 8 = k - k mod 8 \<and> k' = k + 1)"
  proof (cases "k' = k + 1")
    case True
    then show ?thesis by (cases "k mod 8 = 7") (simp_all add: mod_add_eq [symmetric, of k 1] mod_Suc_int)
  qed (simp add: k'_def split: if_splits)
  then have "k' mod 8 = 0 \<or> multi_function cfg (256 * (k' - k' mod 8))"
  proof
    assume "k' - k' mod 8 = k - k mod 8 \<and> k' = k + 1"
    moreover from this have "multi_function cfg (256 * (k - k mod 8))"
      using k(3) by (auto simp: k'_def split: if_splits)
    ultimately show ?thesis by metis
  qed simp
  moreover have "0 \<le> k'" using k(2) by (simp add: k'_def)
  ultimately show "a' < addr_end \<Longrightarrow> pci_reachable cfg a'"
    using k' by (auto simp: pci_reachable_mult)
  show "\<not> pci_reachable cfg b" if "a < b" "b < a'"
  proof
    assume "pci_reachable cfg b"
    then obtain j where j: "b = 256 * j" "j mod 8 = 0 \<or> multi_function cfg (256 * (j - j mod 8))"
      by (auto simp: pci_reachable_mult)
    then have "k < j" "j < k'" using that k(1) k' by simp_all
    then have "k' = k + 8" "k mod 8 = 0" "\<not> multi_function cfg (256 * k)"
      by (auto simp: k'_def split: if_splits)
    moreover from this have "j - j mod 8 = k" "j mod 8 \<noteq> 0"
      using \<open>k < j\<close> \<open>j < k'\<close> by (simp_all add: mod_8_offset)
    ultimately show False using j(2) by simp
  qed
qed

lemma pci_reachable_config:
  assumes "pci_reachable cfg a"
  shows "0 \<le> a + 12" "a + 12 < 0x1000000" "(a + 12) mod 4 = 0"
  using assms by (auto simp: pci_reachable_mult mod_simps)

text \<open>What the next function after \<open>a\<close> is: the least visible one, or none.\<close>

definition next_visible :: "(int \<Rightarrow> u32) \<Rightarrow> int \<Rightarrow> int \<Rightarrow> bool" where
  "next_visible cfg a r \<longleftrightarrow>
     (if r = - 1 then \<forall>b > a. \<not> pci_visible cfg b
      else pci_visible cfg r \<and> a < r \<and> (\<forall>b. a < b \<and> b < r \<longrightarrow> \<not> pci_visible cfg b))"

lemma next_visible_skip:
  assumes "next_visible cfg a' r" "a < a'" "\<not> pci_visible cfg a'"
    and "\<And>b. a < b \<Longrightarrow> b < a' \<Longrightarrow> \<not> pci_reachable cfg b"
  shows "next_visible cfg a r"
proof -
  have "\<not> pci_visible cfg b" if "a < b" "b \<le> a'" for b
    using that assms(3,4) by (cases "b = a'") (auto simp: pci_visible_def)
  moreover have "a < r" if "r \<noteq> - 1" using that assms(1,2) by (simp add: next_visible_def)
  ultimately show ?thesis
    using assms(1) unfolding next_visible_def by (simp, meson not_le)
qed

lemma pci_next_loop_visible:
  assumes "pci_config dev cfg" "pci_reachable cfg a"
  shows "\<exists>r tr'. pci_next_loop dev a (cfg (a + 12)) tr = Inr (r, tr') \<and> next_visible cfg a r"
  using assms
proof (induction dev a "cfg (a + 12)" tr rule: pci_next_loop.induct)
  case (1 dev a tr)
  define a' where "a' = (if a mod 0x800 = 0 \<and> \<not> multi_function cfg a then a + 0x800 else a + 0x100)"
  note step = pci_reachable_step [OF \<open>pci_reachable cfg a\<close> a'_def]
  have n: "next_addr a (cfg (a + 12)) = Inr a'" using 1(3) by (simp add: next_addr_eq a'_def)
  have less: "a < a'" by (simp add: a'_def)
  show ?case
  proof (cases "a' < addr_end")
    case False
    then have "next_visible cfg a (- 1)"
      using step(2) unfolding next_visible_def pci_visible_def
      by (auto simp: not_less) (meson order.strict_trans2 pci_reachable_def not_less)
    then show ?thesis using False n by (auto simp: pci_next_loop.simps [of dev a])
  next
    case True
    with step(1) have r: "pci_reachable cfg a'" by blast
    then obtain tr' where rd: "readl dev (a' + 12) tr = Inr (cfg (a' + 12), tr')"
      using readl_config [OF 1(2)] pci_reachable_config by metis
    show ?thesis
    proof (cases "cfg (a' + 12) = - 1")
      case False
      then have "pci_visible cfg a'" using r by (simp add: pci_visible_def)
      then have "next_visible cfg a a'"
        using step(2) less by (auto simp: next_visible_def pci_visible_def pci_reachable_def)
      then show ?thesis using False True n rd by (auto simp: pci_next_loop.simps [of dev a])
    next
      case absent: True
      then obtain r tr2 where "pci_next_loop dev a' (cfg (a' + 12)) tr' = Inr (r, tr2)"
        and v: "next_visible cfg a' r"
        using 1(1) [OF n _ rd] True r 1(2) by fastforce
      moreover have "next_visible cfg a r"
        using next_visible_skip [OF v less] step(2) absent by (simp add: pci_visible_def)
      ultimately show ?thesis
        using True n rd absent by (auto simp: pci_next_loop.simps [of dev a])
    qed
  qed
qed

lemma pci_next_visible:
  assumes "pci_config dev cfg" "pci_reachable cfg a"
  shows "\<exists>r tr'. pci_next dev a tr = Inr (r, tr') \<and> next_visible cfg a r"
proof -
  obtain tr' where "readl dev (a + 12) tr = Inr (cfg (a + 12), tr')"
    using readl_config [OF assms(1)] pci_reachable_config [OF assms(2)] by metis
  then show ?thesis using pci_next_loop_visible [OF assms, of tr'] by (simp add: pci_next_def)
qed

text \<open>
  A search that starts at a function and tests \<open>P\<close>: it ends at the first function, the start
  included, that satisfies \<open>P\<close>.
\<close>

definition first_match :: "(int \<Rightarrow> u32) \<Rightarrow> (int \<Rightarrow> bool) \<Rightarrow> int \<Rightarrow> int \<Rightarrow> bool" where
  "first_match cfg P a r \<longleftrightarrow>
     (if r = - 1 then \<not> P a \<and> (\<forall>b > a. pci_visible cfg b \<longrightarrow> \<not> P b)
      else P r \<and> (r = a \<or> a < r \<and> pci_visible cfg r \<and> \<not> P a)
        \<and> (\<forall>b. a < b \<and> b < r \<and> pci_visible cfg b \<longrightarrow> \<not> P b))"

lemma pci_find_first:
  assumes "pci_config dev cfg" "pci_reachable cfg a"
    and "\<And>b tr. pci_reachable cfg b \<Longrightarrow> \<exists>tr'. predicate b tr = Inr (P b, tr')"
  shows "\<exists>r tr'. pci_find dev predicate a tr = Inr (r, tr') \<and> first_match cfg P a r"
  using assms
proof (induction dev predicate a tr rule: pci_find.induct)
  case (1 dev predicate a tr)
  have a: "0 \<le> a" using 1(3) by (simp add: pci_reachable_def)
  obtain tr1 where p: "predicate a tr = Inr (P a, tr1)" using 1(4) [OF 1(3)] by blast
  show ?case
  proof (cases "P a")
    case True
    then have "first_match cfg P a a" using a by (auto simp: first_match_def)
    then show ?thesis using True a p by (auto simp: pci_find.simps [of dev predicate a])
  next
    case False
    obtain r tr2 where n: "pci_next dev a tr1 = Inr (r, tr2)" and v: "next_visible cfg a r"
      using pci_next_visible [OF 1(2,3)] by blast
    show ?thesis
    proof (cases "r = - 1")
      case True
      then have "first_match cfg P a (- 1)"
        using v False by (auto simp: first_match_def next_visible_def)
      then show ?thesis
        using True False a p n by (auto simp: pci_find.simps [of dev predicate a] pci_find.simps [of dev predicate "- 1"])
    next
      case r: False
      then have "pci_reachable cfg r" using v by (simp add: next_visible_def pci_visible_def)
      then obtain q tr3 where q: "pci_find dev predicate r tr2 = Inr (q, tr3)" "first_match cfg P r q"
        using 1(1) [OF _ p _ _ n] a False 1(2,4) by fastforce
      moreover have "first_match cfg P a q"
        using q(2) v r False unfolding first_match_def next_visible_def
        by (smt (verit) linorder_neqE_linordered_idom)
      ultimately show ?thesis
        using False a p n by (auto simp: pci_find.simps [of dev predicate a])
    qed
  qed
qed

section \<open>A bus with two devices\<close>

text \<open>Example hardware: a host bridge in front of the configuration space \<open>cfg\<close>.\<close>

definition bridge :: "(int \<Rightarrow> u32) \<Rightarrow> device" where
  "bridge cfg tr ev =
     (case tr of
        OutL p d # _ \<Rightarrow> if p = 0xCF8 then ucast (cfg (uint (take_bit 31 d))) else 0
      | _ \<Rightarrow> 0)"

lemma bit_small_int: "0 \<le> a \<Longrightarrow> a < 2 ^ k \<Longrightarrow> bit a n \<Longrightarrow> n < k" for a :: int
  using bit_take_bit_iff [of k a n] by (simp add: take_bit_int_eq_self)

lemma config_address_low:
  assumes "0 \<le> a" "a < 0x1000000"
  shows "uint (take_bit 31 (word_of_int a :: u32)) = a"
  using assms by (simp add: unsigned_take_bit_eq take_bit_int_eq_self unsigned_of_int)

lemma ucast_u32_u64: "ucast (ucast (x :: u32) :: u64) = x"
  by (rule bit_word_eqI) (simp add: bit_simps)

lemma bridge_config: "pci_config (bridge cfg) cfg"
  by (simp add: pci_config_def bridge_def pci_select_def outl_def config_address_low ucast_u32_u64)

definition two_devices :: "int \<Rightarrow> u32" where
  "two_devices a = (if a \<in> {0, 0x800} then 0x71138086 else if a \<in> {12, 0x80C} then 0 else - 1)"

section \<open>Properties\<close>

text \<open>
  the bus, slot and function numbers that \<open>make_addr\<close> packs into a PCI address are
  the ones \<open>addr_bus\<close>, \<open>addr_slot\<close> and \<open>addr_func\<close> read back, for every address it accepts.
\<close>

theorem pci_addr_roundtrip:
  assumes "make_addr bus slot func = Inr a"
  shows "addr_bus a = Inr bus \<and> addr_slot a = Inr slot \<and> addr_func a = Inr func"
proof -
  have b: "0 \<le> bus" "bus < 2 ^ 8" "0 \<le> slot" "slot < 2 ^ 5" "0 \<le> func" "func < 2 ^ 3"
    and a: "a = push_bit 16 bus OR push_bit 11 slot OR push_bit 8 func"
    using assms by (auto simp: make_addr_def split: if_splits)
  note bits = bit_small_int [OF b(1,2)] bit_small_int [OF b(3,4)] bit_small_int [OF b(5,6)]
  have "a = take_bit 24 a"
    by (rule bit_eqI) (auto simp: a bit_simps dest: bits)
  then have "0 \<le> a" "a < 2 ^ 24" by (metis take_bit_nonnegative, metis take_bit_int_less_exp)
  moreover have "drop_bit 16 a = bus"
    by (rule bit_eqI) (auto simp: a bit_simps dest: bits)
  moreover have "take_bit 5 (drop_bit 11 a) = slot"
    by (rule bit_eqI) (auto simp: a bit_simps dest: bits)
  moreover have "take_bit 3 (drop_bit 8 a) = func"
    by (rule bit_eqI) (auto simp: a bit_simps dest: bits)
  ultimately show ?thesis
    by (simp add: addr_bus_def addr_slot_def addr_func_def pci_addr_ok_def take_bit_eq_mask
        mask_eq_exp_minus_1)
qed

theorem pci_addr_roundtrip_witness:
  "make_addr 2 31 7 = Inr 0x2FF00 \<and> addr_slot 0x2FF00 = Inr 31"
proof -
  have "make_addr 2 31 7 = Inr 0x2FF00" by (simp add: make_addr_def push_bit_eq_mult)
  with pci_addr_roundtrip [of 2 31 7 "0x2FF00"] show ?thesis by simp
qed

text \<open>
  \<open>C27\<close>: on a bus with configuration space \<open>cfg\<close>, \<open>pcistate::next\<close> returns, and returns the
  least visible function after the one it is given, or -1 exactly when there is none: the
  enumeration skips functions 1 to 7 of absent and single-function devices and nothing else.
\<close>

theorem pci_next_enumerates:
  assumes "pci_config dev cfg" "pci_reachable cfg a"
  shows "\<exists>r tr'. pci_next dev a tr = Inr (r, tr')
    \<and> (if r = - 1 then \<forall>b > a. \<not> pci_visible cfg b
       else pci_visible cfg r \<and> a < r \<and> (\<forall>b. a < b \<and> b < r \<longrightarrow> \<not> pci_visible cfg b))"
  using pci_next_visible [OF assms] by (simp add: next_visible_def)

theorem pci_next_enumerates_witness:
  "\<exists>r tr'. pci_next (bridge two_devices) 0 [] = Inr (r, tr') \<and> r \<noteq> - 1 \<and> pci_visible two_devices r"
proof -
  have "pci_reachable two_devices 0" "pci_visible two_devices 0x800"
    by (simp_all add: pci_reachable_def pci_visible_def two_devices_def)
  with pci_next_enumerates [OF bridge_config, of two_devices 0 "[]"] show ?thesis
    by (metis zero_less_numeral)
qed

end
