(* ===== verification/Cpu.thy ===== *)
theory Cpu
  imports Arch PortIO
begin

text \<open>
  Processor setup (\<open>pset3/k-hardware.cc\<close>): segment and gate descriptors, the global and
  interrupt descriptor tables, control registers, interrupt controllers and the timer; and
  the registers of a new process. Addresses the linker chooses are fields of \<open>symbols\<close>.
\<close>

section \<open>Linker symbols\<close>

record symbols =
  kernel_end :: addr
  data_start :: addr
  edata :: addr
  kernel_pagetable :: addr
  gdt_segments :: addr
  interrupt_descriptors :: addr
  taskstate_addr :: addr
  syscall_entry :: addr
  exception_entry :: addr

section \<open>Descriptors\<close>

abbreviation X86SEG_S :: u64 where "X86SEG_S \<equiv> 0x100000000000"
abbreviation X86SEG_P :: u64 where "X86SEG_P \<equiv> 0x800000000000"
abbreviation X86SEG_L :: u64 where "X86SEG_L \<equiv> 0x20000000000000"
abbreviation X86SEG_W :: u64 where "X86SEG_W \<equiv> 0x20000000000"
abbreviation X86SEG_X :: u64 where "X86SEG_X \<equiv> 0x80000000000"
abbreviation X86SEG_TSS :: u64 where "X86SEG_TSS \<equiv> 0x90000000000"
abbreviation X86GATE_INTERRUPT :: int where "X86GATE_INTERRUPT \<equiv> 0xE"

abbreviation SEGSEL_KERN_CODE :: nat where "SEGSEL_KERN_CODE \<equiv> 0x8"
abbreviation SEGSEL_KERN_DATA :: nat where "SEGSEL_KERN_DATA \<equiv> 0x10"
abbreviation SEGSEL_APP_CODE :: nat where "SEGSEL_APP_CODE \<equiv> 0x18"
abbreviation SEGSEL_APP_DATA :: nat where "SEGSEL_APP_DATA \<equiv> 0x20"
abbreviation SEGSEL_TASKSTATE :: nat where "SEGSEL_TASKSTATE \<equiv> 0x28"

abbreviation INT_BP :: nat where "INT_BP \<equiv> 3"
abbreviation INT_PF :: nat where "INT_PF \<equiv> 14"
abbreviation INT_IRQ :: nat where "INT_IRQ \<equiv> 32"
abbreviation IRQ_TIMER :: nat where "IRQ_TIMER \<equiv> 0"
abbreviation IRQ_ERROR :: nat where "IRQ_ERROR \<equiv> 19"
abbreviation IRQ_SPURIOUS :: nat where "IRQ_SPURIOUS \<equiv> 31"

definition set_app_segment :: "u64 \<Rightarrow> int \<Rightarrow> u64" where
  "set_app_segment type dpl = type OR X86SEG_S OR push_bit 45 (word_of_int dpl) OR X86SEG_P"

definition set_sys_segment :: "u64 \<Rightarrow> u64 \<Rightarrow> u64 \<Rightarrow> int \<Rightarrow> u64 \<times> u64" where
  "set_sys_segment addr sz type dpl =
     (push_bit 16 (addr AND 0x0000000000FFFFFF)
      OR push_bit 32 (addr AND 0x00000000FF000000)
      OR ((sz - 1) AND 0x0FFFF)
      OR push_bit 48 ((sz - 1) AND 0xF0000)
      OR type
      OR push_bit 45 (word_of_int dpl)
      OR X86SEG_P,
      drop_bit 32 addr)"

record gatedescriptor =
  gd_low :: u64
  gd_high :: u64

definition set_gate :: "u64 \<Rightarrow> int \<Rightarrow> int \<Rightarrow> int \<Rightarrow> gatedescriptor result" where
  "set_gate addr type dpl ist =
     (if \<not> (uint (word_of_int type :: u32) < 16 \<and> uint (word_of_int dpl :: u32) < 4
            \<and> uint (word_of_int ist :: u32) < 8)
      then Inl (AssertFail ''unsigned(type) < 16 && unsigned(dpl) < 4 && unsigned(ist) < 8'')
      else Inr \<lparr>gd_low =
          (addr AND 0x000000000000FFFF)
          OR push_bit 16 (of_nat SEGSEL_KERN_CODE)
          OR push_bit 32 (word_of_int ist)
          OR push_bit 40 (word_of_int type)
          OR push_bit 45 (word_of_int dpl)
          OR X86SEG_P
          OR push_bit 32 (addr AND 0x00000000FFFF0000),
        gd_high = drop_bit 32 addr\<rparr>)"

record taskstate =
  ts_rsp :: "u64 list"
  ts_ist :: "u64 list"
  ts_iomap_base :: u16

section \<open>Interrupt setup\<close>

fun set_gates :: "nat \<Rightarrow> gatedescriptor list \<Rightarrow> gatedescriptor list result" where
  "set_gates i [] = Inr []"
| "set_gates i (g # gs) =
     bind_result (set_gate (gd_low g) X86GATE_INTERRUPT (if i = INT_BP then 3 else 0) 0) (\<lambda>g'.
     bind_result (set_gates (i + 1) gs) (\<lambda>gs'. Inr (g' # gs')))"

definition check_apic :: "device \<Rightarrow> trace \<Rightarrow> trace result" where
  "check_apic dev tr =
     (case cpuid_edx dev 1 tr of (edx, tr) \<Rightarrow>
      if edx AND push_bit 9 1 = 0 then Inl (AssertFail ''cpuid(1).edx & (1 << 9)'') else
      case rdmsr dev 0x1B tr of (apic_base, tr) \<Rightarrow>
      if apic_base AND 0x800 = 0 then Inl (AssertFail ''apic_base & IA32_APIC_BASE_ENABLED'') else
      if apic_base AND 0xFFFFFFFFF000 \<noteq> lapic_pa
      then Inl (AssertFail ''(apic_base & 0xFFFFFFFFF000) == lapicstate::lapic_pa'') else
      case ioapic_read dev 0x1 tr of (ver, tr) \<Rightarrow>
      if \<not> (ver AND 0xFF = 0x11 \<or> ver AND 0xFF = 0x20)
      then Inl (AssertFail ''(ioapic_ver & 0xFF) == 0x11 || (ioapic_ver & 0xFF) == 0x20'') else
      if \<not> drop_bit 16 ver \<ge> 0x17 then Inl (AssertFail ''(ioapic_ver >> 16) >= 0x17'') else
      Inr tr)"

definition init_interrupts :: "device \<Rightarrow> gatedescriptor list \<Rightarrow> trace
    \<Rightarrow> (gatedescriptor list \<times> trace) result" where
  "init_interrupts dev idt tr =
     bind_result (set_gates 0 idt) (\<lambda>idt'.
     bind_result (check_apic dev tr) (\<lambda>tr'.
     Inr (idt', outb (0xA0 + 1) 0xFF (outb (0x20 + 1) 0xFF tr'))))"

definition init_constructors :: "('s \<Rightarrow> 's) list \<Rightarrow> 's \<Rightarrow> 's" where
  "init_constructors init_array s = foldl (\<lambda>s f. f s) s init_array"

section \<open>Per-processor setup\<close>

definition early_segments :: "u64 list \<Rightarrow> u64 list" where
  "early_segments gdt = gdt[0 := 0,
     SEGSEL_KERN_CODE div 8 := set_app_segment (X86SEG_X OR X86SEG_L) 0,
     SEGSEL_KERN_DATA div 8 := set_app_segment X86SEG_W 0]"

definition cpu_segments :: "symbols \<Rightarrow> u64 list \<Rightarrow> u64 list" where
  "cpu_segments syms gdt =
     (case set_sys_segment (taskstate_addr syms) 104 X86SEG_TSS 0 of (tss0, tss1) \<Rightarrow>
        (early_segments gdt)
          [SEGSEL_APP_CODE div 8 := set_app_segment (X86SEG_X OR X86SEG_L) 3,
           SEGSEL_APP_DATA div 8 := set_app_segment X86SEG_W 3,
           SEGSEL_TASKSTATE div 8 := tss0,
           SEGSEL_TASKSTATE div 8 + 1 := tss1])"

definition init_taskstate :: taskstate where
  "init_taskstate =
     \<lparr>ts_rsp = (replicate 3 0)[0 := KERNEL_STACK_TOP], ts_ist = replicate 8 0, ts_iomap_base = 0\<rparr>"

definition init_lapic :: "device \<Rightarrow> trace \<Rightarrow> trace" where
  "init_lapic dev tr =
     (let tr = enable_lapic dev (of_nat (INT_IRQ + IRQ_SPURIOUS)) tr;
          tr = lapic_write reg_timer_divide 0x0B tr;
          tr = lapic_write reg_lvt_timer (0x20000 OR of_nat (INT_IRQ + IRQ_TIMER)) tr;
          tr = lapic_write reg_timer_initial_count 0 tr;
          tr = lapic_write reg_lvt_lint0 0x10000 tr;
          tr = lapic_write reg_lvt_lint1 0x10000 tr;
          tr = lapic_write reg_lvt_error (of_nat (INT_IRQ + IRQ_ERROR)) tr;
          tr = snd (lapic_error dev tr)
      in lapic_ack tr)"

definition init_control :: "device \<Rightarrow> symbols \<Rightarrow> trace \<Rightarrow> trace" where
  "init_control dev syms tr =
     (case rdcr0 dev tr of (cr0, tr) \<Rightarrow>
      let cr0 = cr0 OR (0x1 OR 0x80000000 OR 0x10000 OR 0x40000 OR 0x2 OR 0x20);
          tr = wrcr0 (ucast cr0) tr;
          tr = wrmsr 0xC0000081
                 (push_bit 32 (of_nat SEGSEL_KERN_CODE) OR push_bit 48 (of_nat SEGSEL_APP_CODE)) tr;
          tr = wrmsr 0xC0000082 (syscall_entry syms) tr
      in wrmsr 0xC0000084 (0x100 OR 0x400 OR 0x200 OR 0x3000 OR 0x40000 OR 0x4000) tr)"

definition init_cpu_hardware :: "device \<Rightarrow> symbols \<Rightarrow> u64 list \<Rightarrow> trace
    \<Rightarrow> u64 list \<times> taskstate \<times> trace" where
  "init_cpu_hardware dev syms gdt tr =
     (let tr = Lgdt (8 * 7 - 1) (gdt_segments syms) # tr;
          tr = Ltr (of_nat SEGSEL_TASKSTATE) # tr;
          tr = Lidt (16 * 256 - 1) (interrupt_descriptors syms) # tr;
          tr = LoadFsGs (of_nat SEGSEL_KERN_DATA) # tr
      in (cpu_segments syms gdt, init_taskstate, init_lapic dev (init_control dev syms tr)))"

definition init_timer :: "int \<Rightarrow> trace \<Rightarrow> trace" where
  "init_timer rate tr =
     (if rate > 0 then lapic_write reg_timer_initial_count (word_of_int (1000000000 div rate)) tr
      else lapic_write reg_timer_initial_count 0 tr)"

section \<open>Process registers\<close>

datatype procstate = P_FREE | P_RUNNABLE | P_BLOCKED | P_FAULTED

record proc =
  pagetable :: addr
  pid :: nat
  state :: procstate
  regs :: regstate

definition zero_regs :: regstate where
  "zero_regs = \<lparr>reg_rax = 0, reg_rcx = 0, reg_rdx = 0, reg_rbx = 0, reg_rbp = 0, reg_rsi = 0,
     reg_rdi = 0, reg_r8 = 0, reg_r9 = 0, reg_r10 = 0, reg_r11 = 0, reg_r12 = 0, reg_r13 = 0,
     reg_r14 = 0, reg_r15 = 0, reg_fs = 0, reg_gs = 0, reg_intno = 0, reg_swapgs = 0,
     reg_errcode = 0, reg_rip = 0, reg_cs = 0, reg_rflags = 0, reg_rsp = 0, reg_ss = 0\<rparr>"

abbreviation EFLAGS_IF :: u64 where "EFLAGS_IF \<equiv> 0x200"
abbreviation EFLAGS_IOPL_3 :: u64 where "EFLAGS_IOPL_3 \<equiv> 0x3000"
abbreviation PROCINIT_ALLOW_PROGRAMMED_IO :: int where "PROCINIT_ALLOW_PROGRAMMED_IO \<equiv> 0x01"
abbreviation PROCINIT_DISABLE_INTERRUPTS :: int where "PROCINIT_DISABLE_INTERRUPTS \<equiv> 0x02"

definition init_process :: "proc \<Rightarrow> int \<Rightarrow> proc" where
  "init_process p flags =
     (let r = zero_regs\<lparr>
            reg_cs := of_nat SEGSEL_APP_CODE OR 3,
            reg_fs := of_nat SEGSEL_APP_DATA OR 3,
            reg_gs := of_nat SEGSEL_APP_DATA OR 3,
            reg_ss := of_nat SEGSEL_APP_DATA OR 3,
            reg_rflags := EFLAGS_IF\<rparr>;
          r = (if flags AND PROCINIT_ALLOW_PROGRAMMED_IO \<noteq> 0
               then r\<lparr>reg_rflags := reg_rflags r OR EFLAGS_IOPL_3\<rparr> else r);
          r = (if flags AND PROCINIT_DISABLE_INTERRUPTS \<noteq> 0
               then r\<lparr>reg_rflags := reg_rflags r AND NOT EFLAGS_IF\<rparr> else r)
      in p\<lparr>regs := r\<rparr>)"

definition check_process_registers :: "proc \<Rightarrow> unit result" where
  "check_process_registers p =
     bind_result (assert_that (reg_rsp (regs p) \<ge> PROC_START_ADDR)
       ''p->regs.reg_rsp >= PROC_START_ADDR'') (\<lambda>_.
     bind_result (assert_that (reg_rsp (regs p) \<le> MEMSIZE_VIRTUAL)
       ''p->regs.reg_rsp <= MEMSIZE_VIRTUAL'') (\<lambda>_.
     assert_that (reg_cs (regs p) AND 3 = 3) ''(p->regs.reg_cs & 3) == 3''))"

section \<open>What the hardware reads from a descriptor\<close>

text \<open>The field layout of segment and gate descriptors in 64-bit mode.\<close>

definition bits_at :: "nat \<Rightarrow> nat \<Rightarrow> u64 \<Rightarrow> u64" where
  "bits_at lo n d = take_bit n (drop_bit lo d)"

definition gate_offset :: "gatedescriptor \<Rightarrow> u64" where
  "gate_offset g = bits_at 0 16 (gd_low g) OR push_bit 16 (bits_at 48 16 (gd_low g))
     OR push_bit 32 (bits_at 0 32 (gd_high g))"

abbreviation gate_selector :: "gatedescriptor \<Rightarrow> u64" where
  "gate_selector g \<equiv> bits_at 16 16 (gd_low g)"

abbreviation gate_ist :: "gatedescriptor \<Rightarrow> u64" where
  "gate_ist g \<equiv> bits_at 32 3 (gd_low g)"

abbreviation gate_type :: "gatedescriptor \<Rightarrow> u64" where
  "gate_type g \<equiv> bits_at 40 4 (gd_low g)"

abbreviation descriptor_dpl :: "u64 \<Rightarrow> u64" where
  "descriptor_dpl d \<equiv> bits_at 45 2 d"

definition sys_base :: "u64 \<times> u64 \<Rightarrow> u64" where
  "sys_base s = bits_at 16 24 (fst s) OR push_bit 24 (bits_at 56 8 (fst s))
     OR push_bit 32 (bits_at 0 32 (snd s))"

definition sys_limit :: "u64 \<times> u64 \<Rightarrow> u64" where
  "sys_limit s = bits_at 0 16 (fst s) OR push_bit 16 (bits_at 48 4 (fst s))"

section \<open>Descriptor round trips\<close>

lemma bit_range_mask:
  assumes "m = push_bit lo (mask n)" "lo + n \<le> 64"
  shows "bit (m :: u64) i \<longleftrightarrow> lo \<le> i \<and> i < lo + n"
  using assms(2) unfolding assms(1) by (auto simp only: bit_push_bit_iff bit_mask_iff) auto

lemma bit_single:
  assumes "m = push_bit k 1" "k < 64"
  shows "bit (m :: u64) i \<longleftrightarrow> i = k"
  using assms(2) unfolding assms(1) by (auto simp only: bit_push_bit_iff bit_1_iff) auto

lemma bit_field_masks:
  "bit (0xFFFF :: u64) i \<longleftrightarrow> 0 \<le> i \<and> i < 0 + 16"
  "bit (0xFFFF0000 :: u64) i \<longleftrightarrow> 16 \<le> i \<and> i < 16 + 16"
  "bit (0xFFFFFF :: u64) i \<longleftrightarrow> 0 \<le> i \<and> i < 0 + 24"
  "bit (0xFF000000 :: u64) i \<longleftrightarrow> 24 \<le> i \<and> i < 24 + 8"
  "bit (0xF0000 :: u64) i \<longleftrightarrow> 16 \<le> i \<and> i < 16 + 4"
  by (rule bit_range_mask; simp add: mask_eq_exp_minus_1)+

lemma bit_flags:
  "bit X86SEG_P i \<longleftrightarrow> i = 47" "bit X86SEG_S i \<longleftrightarrow> i = 44" "bit X86SEG_L i \<longleftrightarrow> i = 53"
  "bit X86SEG_W i \<longleftrightarrow> i = 41" "bit X86SEG_X i \<longleftrightarrow> i = 43" "bit (8 :: u64) i \<longleftrightarrow> i = 3"
  by (rule bit_single; simp)+

lemma bit_TSS: "bit X86SEG_TSS i \<longleftrightarrow> i = 40 \<or> i = 43"
proof -
  have "X86SEG_TSS = push_bit 40 1 OR push_bit 43 1" by simp
  then have "bit X86SEG_TSS i = bit (push_bit 40 1 OR push_bit 43 1 :: u64) i" by (simp only:)
  also have "\<dots> \<longleftrightarrow> i = 40 \<or> i = 43"
    by (auto simp only: bit_or_iff bit_1_iff bit_push_bit_iff) auto
  finally show ?thesis .
qed

lemma bit_small_word:
  assumes "0 \<le> a" "a < 2 ^ k" "k \<le> 64"
  shows "bit (word_of_int a :: u64) i \<longleftrightarrow> i < k \<and> bit a i"
  using bit_small_int [OF assms(1,2), of i] assms(3) by (auto simp: bit_of_int_iff)

lemma bit_bits_at: "bit (bits_at lo n d) i \<longleftrightarrow> i < n \<and> bit d (lo + i)"
  by (simp add: bits_at_def bit_take_bit_iff bit_drop_bit_eq)

lemma bits_at_eqI:
  assumes "\<And>i. i < n \<Longrightarrow> bit d (lo + i) = bit x i" "\<And>i. bit x i \<Longrightarrow> i < n"
  shows "bits_at lo n d = x"
  by (rule bit_word_eqI) (use assms in \<open>auto simp: bit_bits_at\<close>)

lemma set_gate_decode:
  assumes range: "0 \<le> type" "type < 2 ^ 4" "0 \<le> dpl" "dpl < 2 ^ 2" "0 \<le> ist" "ist < 2 ^ 3"
  shows "\<exists>g. set_gate addr type dpl ist = Inr g \<and> gate_offset g = addr \<and> gate_selector g = 8
    \<and> gate_ist g = word_of_int ist \<and> gate_type g = word_of_int type
    \<and> descriptor_dpl (gd_low g) = word_of_int dpl \<and> bit (gd_low g) 47"
proof -
  note small = bit_small_word [OF range(1,2)] bit_small_word [OF range(3,4)]
    bit_small_word [OF range(5,6)]
  define g where "g = \<lparr>gd_low = (addr AND 0xFFFF) OR push_bit 16 8
      OR push_bit 32 (word_of_int ist) OR push_bit 40 (word_of_int type)
      OR push_bit 45 (word_of_int dpl) OR X86SEG_P OR push_bit 32 (addr AND 0xFFFF0000),
    gd_high = drop_bit 32 addr\<rparr>"
  have low: "bit (gd_low g) i \<longleftrightarrow>
      i < 16 \<and> bit addr i \<or> i = 19 \<or> 32 \<le> i \<and> i < 35 \<and> bit ist (i - 32)
      \<or> 40 \<le> i \<and> i < 44 \<and> bit type (i - 40) \<or> 45 \<le> i \<and> i < 47 \<and> bit dpl (i - 45)
      \<or> i = 47 \<or> 48 \<le> i \<and> i < 64 \<and> bit addr (i - 32)" for i
  proof -
    have "bit (addr AND 0xFFFF) i \<longleftrightarrow> i < 16 \<and> bit addr i"
      by (auto simp only: bit_and_iff bit_field_masks)
    moreover have "bit (push_bit 16 8 :: u64) i \<longleftrightarrow> i = 19"
      by (auto simp only: bit_push_bit_iff bit_flags) auto
    moreover have "bit (push_bit 32 (word_of_int ist) :: u64) i \<longleftrightarrow> 32 \<le> i \<and> i < 35 \<and> bit ist (i - 32)"
      by (auto simp: bit_push_bit_iff small)
    moreover have "bit (push_bit 40 (word_of_int type) :: u64) i \<longleftrightarrow> 40 \<le> i \<and> i < 44 \<and> bit type (i - 40)"
      by (auto simp: bit_push_bit_iff small)
    moreover have "bit (push_bit 45 (word_of_int dpl) :: u64) i \<longleftrightarrow> 45 \<le> i \<and> i < 47 \<and> bit dpl (i - 45)"
      by (auto simp: bit_push_bit_iff small)
    moreover have "bit (push_bit 32 (addr AND 0xFFFF0000)) i \<longleftrightarrow> 48 \<le> i \<and> i < 64 \<and> bit addr (i - 32)"
      by (auto simp only: bit_push_bit_iff bit_and_iff bit_field_masks) auto
    ultimately show ?thesis
      unfolding g_def gatedescriptor.simps bit_or_iff bit_flags by (simp only: disj_assoc)
  qed
  have "set_gate addr type dpl ist = Inr g"
    using range by (simp add: set_gate_def g_def unsigned_of_int take_bit_int_eq_self)
  moreover have high: "gd_high g = drop_bit 32 addr" by (simp add: g_def)
  moreover have "gate_offset g = addr"
  proof (rule bit_word_eqI)
    fix i assume "i < LENGTH(64)"
    then consider "i < 16" | "16 \<le> i" "i < 32" | "32 \<le> i" "i < 64" by fastforce
    then show "bit (gate_offset g) i = bit addr i"
      by cases (simp_all add: gate_offset_def bit_or_iff bit_push_bit_iff bit_bits_at low
          high bit_drop_bit_eq less_diff_conv2)
  qed
  moreover have "gate_selector g = 8"
    by (rule bits_at_eqI) (auto simp: low bit_flags simp del: bit_numeral_word_iff)
  moreover have "gate_ist g = word_of_int ist"
    by (rule bits_at_eqI) (auto simp: low small)
  moreover have "gate_type g = word_of_int type"
    by (rule bits_at_eqI) (auto simp: low small)
  moreover have "descriptor_dpl (gd_low g) = word_of_int dpl"
    by (rule bits_at_eqI) (auto simp: low small)
  moreover have "bit (gd_low g) 47" by (simp add: low)
  ultimately show ?thesis by blast
qed

lemma set_gates_decode:
  "\<exists>gs'. set_gates i gs = Inr gs' \<and> length gs' = length gs
    \<and> (\<forall>k < length gs. gate_offset (gs' ! k) = gd_low (gs ! k) \<and> gate_selector (gs' ! k) = 8
        \<and> gate_ist (gs' ! k) = 0 \<and> gate_type (gs' ! k) = 0xE
        \<and> descriptor_dpl (gd_low (gs' ! k)) = (if i + k = INT_BP then 3 else 0)
        \<and> bit (gd_low (gs' ! k)) 47)"
proof (induction gs arbitrary: i)
  case (Cons g gs)
  obtain g' where "set_gate (gd_low g) X86GATE_INTERRUPT (if i = INT_BP then 3 else 0) 0 = Inr g'"
    and "gate_offset g' = gd_low g" "gate_selector g' = 8" "gate_ist g' = 0" "gate_type g' = 0xE"
      "descriptor_dpl (gd_low g') = (if i = INT_BP then 3 else 0)" "bit (gd_low g') 47"
    using set_gate_decode [of "0xE" "if i = INT_BP then 3 else 0" 0 "gd_low g"]
    by (cases "i = INT_BP") auto
  moreover obtain gs' where "set_gates (i + 1) gs = Inr gs'" "length gs' = length gs"
    and "\<forall>k < length gs. gate_offset (gs' ! k) = gd_low (gs ! k) \<and> gate_selector (gs' ! k) = 8
        \<and> gate_ist (gs' ! k) = 0 \<and> gate_type (gs' ! k) = 0xE
        \<and> descriptor_dpl (gd_low (gs' ! k)) = (if i + 1 + k = INT_BP then 3 else 0)
        \<and> bit (gd_low (gs' ! k)) 47"
    using Cons.IH [of "i + 1"] by blast
  ultimately show ?case
    by (intro exI [of _ "g' # gs'"]) (auto simp: nth_Cons' simp del: One_nat_def split: if_splits)
qed simp

lemma set_sys_segment_bits:
  assumes "0 \<le> dpl" "dpl < 2 ^ 2"
  shows "bit (fst (set_sys_segment addr sz X86SEG_TSS dpl)) i \<longleftrightarrow>
    16 \<le> i \<and> i < 40 \<and> bit addr (i - 16) \<or> 56 \<le> i \<and> i < 64 \<and> bit addr (i - 32)
    \<or> i < 16 \<and> bit (sz - 1) i \<or> i = 40 \<or> i = 43
    \<or> 45 \<le> i \<and> i < 47 \<and> bit dpl (i - 45) \<or> i = 47"
proof -
  have "bit (push_bit 16 (addr AND 0xFFFFFF)) i \<longleftrightarrow> 16 \<le> i \<and> i < 40 \<and> bit addr (i - 16)"
    by (auto simp only: bit_push_bit_iff bit_and_iff bit_field_masks) auto
  moreover have "bit (push_bit 32 (addr AND 0xFF000000)) i \<longleftrightarrow> 56 \<le> i \<and> i < 64 \<and> bit addr (i - 32)"
    by (auto simp only: bit_push_bit_iff bit_and_iff bit_field_masks) auto
  moreover have "bit ((sz - 1) AND 0xFFFF) i \<longleftrightarrow> i < 16 \<and> bit (sz - 1) i"
    by (auto simp only: bit_and_iff bit_field_masks)
  moreover have "\<not> bit (push_bit 48 ((sz - 1) AND 0xF0000)) i"
    by (auto simp only: bit_push_bit_iff bit_and_iff bit_field_masks) auto
  moreover have "bit (push_bit 45 (word_of_int dpl) :: u64) i \<longleftrightarrow> 45 \<le> i \<and> i < 47 \<and> bit dpl (i - 45)"
    by (auto simp: bit_push_bit_iff bit_small_word [OF assms])
  ultimately show ?thesis
    unfolding set_sys_segment_def fst_conv bit_or_iff bit_flags bit_TSS by (simp only: disj_assoc HOL.simp_thms)
qed

lemma sys_segment_decode:
  assumes "0 \<le> dpl" "dpl < 2 ^ 2"
  shows "sys_base (set_sys_segment addr sz X86SEG_TSS dpl) = addr"
    and "sys_limit (set_sys_segment addr sz X86SEG_TSS dpl) = (sz - 1) AND 0xFFFF"
    and "descriptor_dpl (fst (set_sys_segment addr sz X86SEG_TSS dpl)) = word_of_int dpl"
    and "bits_at 40 5 (fst (set_sys_segment addr sz X86SEG_TSS dpl)) = 9"
    and "bit (fst (set_sys_segment addr sz X86SEG_TSS dpl)) 47"
proof -
  note low = set_sys_segment_bits [OF assms, of addr sz]
  have high: "snd (set_sys_segment addr sz X86SEG_TSS dpl) = drop_bit 32 addr"
    by (simp add: set_sys_segment_def)
  show "sys_base (set_sys_segment addr sz X86SEG_TSS dpl) = addr"
  proof (rule bit_word_eqI)
    fix i assume "i < LENGTH(64)"
    then consider "i < 24" | "24 \<le> i" "i < 32" | "32 \<le> i" "i < 64" by fastforce
    then show "bit (sys_base (set_sys_segment addr sz X86SEG_TSS dpl)) i = bit addr i"
      by cases (simp_all add: sys_base_def bit_or_iff bit_push_bit_iff bit_bits_at low high
          bit_drop_bit_eq less_diff_conv2)
  qed
  show "sys_limit (set_sys_segment addr sz X86SEG_TSS dpl) = (sz - 1) AND 0xFFFF"
  proof (rule bit_word_eqI)
    fix i assume "i < LENGTH(64)"
    then consider "i < 16" | "16 \<le> i" "i < 20" | "20 \<le> i" "i < 64" by fastforce
    then show "bit (sys_limit (set_sys_segment addr sz X86SEG_TSS dpl)) i = bit ((sz - 1) AND 0xFFFF) i"
      unfolding sys_limit_def bit_or_iff bit_push_bit_iff bit_bits_at low bit_and_iff bit_field_masks
      by cases auto
  qed
  show "descriptor_dpl (fst (set_sys_segment addr sz X86SEG_TSS dpl)) = word_of_int dpl"
    by (rule bits_at_eqI) (auto simp: low bit_small_word [OF assms])
  have "bit (9 :: u64) i \<longleftrightarrow> i = 0 \<or> i = 3" for i
  proof -
    have "(9 :: u64) = push_bit 0 1 OR push_bit 3 1" by simp
    then have "bit (9 :: u64) i = bit (push_bit 0 1 OR push_bit 3 1 :: u64) i" by (simp only:)
    also have "\<dots> \<longleftrightarrow> i = 0 \<or> i = 3"
      by (auto simp only: bit_or_iff bit_1_iff bit_push_bit_iff) auto
    finally show ?thesis .
  qed
  moreover have "bit (fst (set_sys_segment addr sz X86SEG_TSS dpl)) (40 + i) \<longleftrightarrow> i = 0 \<or> i = 3"
    if "i < 5" for i
  proof -
    from that have "i = 0 \<or> i = 1 \<or> i = 2 \<or> i = 3 \<or> i = 4" by arith
    then show ?thesis by (elim disjE) (simp_all add: low)
  qed
  ultimately show "bits_at 40 5 (fst (set_sys_segment addr sz X86SEG_TSS dpl)) = 9"
    by (intro bits_at_eqI) (simp_all only:, fastforce)
  show "bit (fst (set_sys_segment addr sz X86SEG_TSS dpl)) 47" by (simp add: low)
qed

section \<open>Application segments and process registers\<close>

lemma app_segment_dpl:
  "bits_at 45 2 0x20980000000000 = 0" "bits_at 45 2 0x920000000000 = 0"
  "bits_at 45 2 0x20F80000000000 = 3" "bits_at 45 2 0xF20000000000 = 3"
  by (simp_all add: bits_at_def drop_bit_eq_div take_bit_eq_mod)

lemma app_segment_bits:
  "bit (0x20F80000000000 :: u64) 43" "bit (0x20F80000000000 :: u64) 47" "bit (0x20F80000000000 :: u64) 53"
  "\<not> bit (0xF20000000000 :: u64) 43" "bit (0xF20000000000 :: u64) 41" "bit (0xF20000000000 :: u64) 47"
  by simp_all

lemma init_process_regs:
  "reg_cs (regs (init_process p flags)) = 0x1B"
  "reg_ss (regs (init_process p flags)) = 0x23"
  "reg_fs (regs (init_process p flags)) = 0x23"
  "reg_gs (regs (init_process p flags)) = 0x23"
  "reg_rflags (regs (init_process p flags)) =
     (if flags AND 1 \<noteq> 0 then 0x3000 else 0) OR (if flags AND 2 \<noteq> 0 then 0 else 0x200)"
  by (simp_all add: init_process_def Let_def zero_regs_def)

lemma length_gdt_7:
  assumes "length gdt = 7"
  obtains a b c d e f g where "gdt = [a, b, c, d, e, f, g]"
  using assms by (auto simp: length_Suc_conv numeral_eq_Suc)

lemma cpu_segments_eq:
  assumes "length gdt = 7"
  shows "cpu_segments syms gdt = [0, 0x20980000000000, 0x920000000000, 0x20F80000000000,
    0xF20000000000, fst (set_sys_segment (taskstate_addr syms) 104 X86SEG_TSS 0),
    snd (set_sys_segment (taskstate_addr syms) 104 X86SEG_TSS 0)]"
proof -
  obtain a b c d e f g where "gdt = [a, b, c, d, e, f, g]" using length_gdt_7 [OF assms] by metis
  then show ?thesis
    by (simp add: cpu_segments_def early_segments_def set_app_segment_def split_beta)
qed

lemma bit_EFLAGS: "bit (0x200 :: u64) i \<longleftrightarrow> i = 9"
  by (rule bit_single) simp_all

lemma bit_IOPL: "bit (0x3000 :: u64) i \<longleftrightarrow> 12 \<le> i \<and> i < 12 + 2"
  by (rule bit_range_mask) (simp_all add: mask_eq_exp_minus_1)

lemma low_16_iff:
  assumes "sz > (0 :: u64)"
  shows "(sz - 1) AND 0xFFFF = sz - 1 \<longleftrightarrow> sz \<le> 0x10000"
proof -
  have "(sz - 1) AND 0xFFFF = take_bit 16 (sz - 1)"
    by (simp add: take_bit_eq_mask mask_eq_exp_minus_1)
  then have "(sz - 1) AND 0xFFFF = sz - 1 \<longleftrightarrow> unat (sz - 1) < 2 ^ 16"
    by (simp add: word_unat_eq_iff unsigned_take_bit_eq take_bit_nat_eq_self_iff)
  also have "\<dots> \<longleftrightarrow> sz \<le> 0x10000"
    using assms unat_gt_0 [of sz] by (auto simp: unat_dec word_le_nat_alt)
  finally show ?thesis .
qed

section \<open>Properties\<close>

text \<open>
  \<open>C29\<close>: when the interrupt controllers are as the code expects them, \<open>init_interrupts\<close>
  returns, and in the table it leaves every gate, read the way the processor reads it, leads
  to the handler address the table held before, in the kernel code segment, as a present
  interrupt gate on the current stack; only the breakpoint gate may be used from user mode.
\<close>

theorem init_interrupts_gates:
  assumes "check_apic dev tr = Inr tr1"
  shows "\<exists>idt' tr'. init_interrupts dev idt tr = Inr (idt', tr') \<and> length idt' = length idt
    \<and> (\<forall>k < length idt. gate_offset (idt' ! k) = gd_low (idt ! k)
        \<and> gate_selector (idt' ! k) = of_nat SEGSEL_KERN_CODE
        \<and> gate_ist (idt' ! k) = 0 \<and> gate_type (idt' ! k) = 0xE
        \<and> descriptor_dpl (gd_low (idt' ! k)) = (if k = INT_BP then 3 else 0)
        \<and> bit (gd_low (idt' ! k)) 47)"
  using set_gates_decode [of 0 idt] assms by (auto simp: init_interrupts_def)

definition example_symbols :: symbols where
  "example_symbols =
     \<lparr>kernel_end = 0x60000, data_start = 0x50000, edata = 0x58000, kernel_pagetable = 0x51000,
      gdt_segments = 0x56000, interrupt_descriptors = 0x57000, taskstate_addr = 0x56100,
      syscall_entry = 0x40100, exception_entry = 0x40200\<rparr>"

definition apic_machine :: device where
  "apic_machine tr ev =
     (case ev of Cpuid _ \<Rightarrow> 0x200 | RdMsr _ \<Rightarrow> 0xFEE00800 | MmioRead _ \<Rightarrow> 0x170020 | _ \<Rightarrow> 0)"

lemma apic_machine_ok: "\<exists>tr1. check_apic apic_machine [] = Inr tr1"
  by (simp add: check_apic_def cpuid_edx_def rdmsr_def ioapic_read_def apic_machine_def)

theorem init_interrupts_gates_witness:
  "\<exists>idt' tr'. init_interrupts apic_machine (replicate 256 \<lparr>gd_low = 0x40123, gd_high = 0\<rparr>) []
     = Inr (idt', tr') \<and> gate_offset (idt' ! 14) = 0x40123"
proof -
  obtain tr1 where "check_apic apic_machine [] = Inr tr1" using apic_machine_ok by blast
  from init_interrupts_gates [OF this, of "replicate 256 \<lparr>gd_low = 0x40123, gd_high = 0\<rparr>"]
  show ?thesis by fastforce
qed

text \<open>
  \<open>C28\<close>: user mode isolation of the descriptor tables. The selectors \<open>init_process\<close> gives a
  process lead, in the table \<open>init_cpu_hardware\<close> builds, to present descriptors of privilege
  level 3 (a 64-bit code segment and a writable data segment); the kernel's descriptors have
  level 0, the task descriptor names the task state, whose stack pointer is the top of the
  kernel stack; and the process gets interrupts and port access exactly as its flags say.
\<close>

theorem process_segments:
  assumes "length gdt = 7"
  shows "let (gdt', ts, _) = init_cpu_hardware dev syms gdt tr;
             r = regs (init_process p flags);
             code = gdt' ! unat (drop_bit 3 (reg_cs r));
             data = gdt' ! unat (drop_bit 3 (reg_ss r))
         in descriptor_dpl code = 3 \<and> bit code 43 \<and> bit code 47 \<and> bit code 53
          \<and> descriptor_dpl data = 3 \<and> \<not> bit data 43 \<and> bit data 41 \<and> bit data 47
          \<and> reg_fs r = reg_ss r \<and> reg_gs r = reg_ss r \<and> reg_cs r AND 3 = 3 \<and> reg_ss r AND 3 = 3
          \<and> gdt' ! 0 = 0 \<and> descriptor_dpl (gdt' ! 1) = 0 \<and> descriptor_dpl (gdt' ! 2) = 0
          \<and> sys_base (gdt' ! 5, gdt' ! 6) = taskstate_addr syms \<and> sys_limit (gdt' ! 5, gdt' ! 6) = 103
          \<and> ts_rsp ts ! 0 = KERNEL_STACK_TOP
          \<and> (bit (reg_rflags r) 9 \<longleftrightarrow> flags AND PROCINIT_DISABLE_INTERRUPTS = 0)
          \<and> (bit (reg_rflags r) 12 \<longleftrightarrow> flags AND PROCINIT_ALLOW_PROGRAMMED_IO \<noteq> 0)
          \<and> (bit (reg_rflags r) 13 \<longleftrightarrow> flags AND PROCINIT_ALLOW_PROGRAMMED_IO \<noteq> 0)"
proof -
  have "sys_base (set_sys_segment (taskstate_addr syms) 104 X86SEG_TSS 0) = taskstate_addr syms"
    "sys_limit (set_sys_segment (taskstate_addr syms) 104 X86SEG_TSS 0) = 103"
    by (simp_all add: sys_segment_decode)
  then show ?thesis
    by (simp add: init_cpu_hardware_def Let_def cpu_segments_eq [OF assms] init_process_regs
        app_segment_dpl init_taskstate_def drop_bit_eq_div)
qed

theorem process_segments_witness:
  "\<exists>gdt' ts tr. init_cpu_hardware apic_machine example_symbols (replicate 7 0) [] = (gdt', ts, tr)
    \<and> sys_base (gdt' ! 5, gdt' ! 6) = 0x56100"
proof -
  obtain gdt' ts tr
    where "init_cpu_hardware apic_machine example_symbols (replicate 7 0) [] = (gdt', ts, tr)"
    by (metis prod_cases3)
  with process_segments [of "replicate 7 0" apic_machine example_symbols "[]"] show ?thesis
    by (simp add: Let_def) (simp add: example_symbols_def)
qed

text \<open>
  \<open>set_sys_segment\<close> stores a segment's limit exactly for sizes up to 64 KiB. The
  shift by 48 moves bits 16 to 19 of the limit out of the descriptor, so that for every
  larger size the processor reads a limit that is too small.
\<close>

theorem sys_segment_limit:
  assumes "sz > 0" "0 \<le> dpl" "dpl < 4"
  shows "sys_limit (set_sys_segment addr sz X86SEG_TSS dpl) = sz - 1 \<longleftrightarrow> sz \<le> 0x10000"
  using assms by (simp add: sys_segment_decode low_16_iff)

theorem sys_segment_limit_witness:
  "sys_limit (set_sys_segment 0x56100 0x20000 X86SEG_TSS 0) \<noteq> 0x1FFFF"
  using sys_segment_limit [of "0x20000" 0 "0x56100"] by simp

end
