(* ===== verification/KernelMem.thy ===== *)
theory KernelMem
  imports VmMap VmWalk Cpu
begin

text \<open>
  Kernel memory setup (\<open>pset3/k-hardware.cc\<close>): the stash of the kernel's data segment, the
  kernel page table of \<open>init_kernel_memory\<close>, and the checks of \<open>check_pagetable\<close>. The theorems
  show the address space the kernel runs in and that a soft reboot restores its data.
\<close>

section \<open>Definitions\<close>

subsection \<open>Stashed kernel data\<close>

abbreviation STASH_END :: u64 where "STASH_END \<equiv> 0x1000000"

definition data_stash :: "symbols \<Rightarrow> addr" where
  "data_stash syms = STASH_END - (edata syms - data_start syms)"

definition stash_kernel_data :: "symbols \<Rightarrow> bool \<Rightarrow> mem \<Rightarrow> mem" where
  "stash_kernel_data syms reboot m =
     (let data_size = edata syms - data_start syms in
      if reboot
      then fst (memset (fst (memcpy m (data_start syms) (data_stash syms) data_size))
             (edata syms) 0 (kernel_end syms - edata syms))
      else fst (memcpy m (data_stash syms) (data_start syms) data_size))"

subsection \<open>The kernel page table\<close>

definition kernel_tables :: "addr \<Rightarrow> mem \<Rightarrow> mem" where
  "kernel_tables kpt m =
     (let m = fst (memset m kpt 0 (5 * PAGESIZE));
          m = store64 m kpt ((kpt + PAGESIZE) OR PTE_P OR PTE_W OR PTE_U);
          m = store64 m (kpt + PAGESIZE) ((kpt + 2 * PAGESIZE) OR PTE_P OR PTE_W OR PTE_U);
          m = store64 m (kpt + 2 * PAGESIZE) ((kpt + 3 * PAGESIZE) OR PTE_P OR PTE_W OR PTE_U);
          m = store64 m (kpt + 2 * PAGESIZE + 8) ((kpt + 4 * PAGESIZE) OR PTE_P OR PTE_W OR PTE_U);
          m = store64 m (kpt + PAGESIZE + 8) (push_bit 30 1 OR PTE_P OR PTE_W OR PTE_PS);
          m = store64 m (kpt + PAGESIZE + 16) (push_bit 30 2 OR PTE_P OR PTE_W OR PTE_PS)
      in store64 m (kpt + PAGESIZE + 24) (push_bit 30 3 OR PTE_P OR PTE_W OR PTE_PS))"

lemma vmiter_descend_va: "vm_va (vmiter_descend m it) = vm_va it"
proof (induction m it rule: vmiter_descend.induct)
  case (1 m it)
  show ?case
    by (subst vmiter_descend.simps) (simp add: 1 Let_def)
qed

lemma vmiter_find_va:
  assumes "vmiter_find m it va = Inr it'"
  shows "vm_va it' = va"
proof -
  have "vm_va it2 = vm_va it1" if "vmiter_down m it1 = Inr it2" for it1 it2
    using that by (auto simp: vmiter_down_def Let_def vmiter_descend_va split: if_splits)
  then show ?thesis
    using assms by (auto simp: vmiter_find_def vmiter_find_impl_def Let_def split: if_splits)
qed

text \<open>The identity mapping of physical memory, page by page from the iterator on.\<close>

function identity_map :: "addr \<Rightarrow> physmem \<Rightarrow> vmiter \<Rightarrow> physmem result" where
  "identity_map kend s it =
     (if vm_va it < MEMSIZE_PHYSICAL
      then case (if vm_va it \<noteq> 0 then vmiter_map kend s it (vm_va it) 7 else Inr (s, it)) of
             Inl e \<Rightarrow> Inl e
           | Inr (s', it') \<Rightarrow>
               (case vmiter_find (memory s') it' (vm_va it + PAGESIZE) of
                  Inl e \<Rightarrow> Inl e
                | Inr it'' \<Rightarrow> identity_map kend s' it'')
      else Inr s)"
  by pat_completeness auto
termination
proof (relation "measure (\<lambda>(_, _, it). unat MEMSIZE_PHYSICAL - unat (vm_va it))", goal_cases)
  case (2 kend s it x s' it' it'')
  have "unat (vm_va it) < 2097152" using 2(1) by (simp add: word_less_nat_alt)
  moreover from this have "unat (vm_va it + PAGESIZE) = unat (vm_va it) + 4096"
    by (subst unat_add_lem [THEN iffD1]) simp_all
  moreover have "vm_va it'' = vm_va it + PAGESIZE" using vmiter_find_va 2(4) by blast
  ultimately show ?case by simp
qed simp

declare identity_map.simps [simp del]

definition init_kernel_memory :: "symbols \<Rightarrow> u64 list \<Rightarrow> physmem \<Rightarrow> trace
    \<Rightarrow> (u64 list \<times> physmem \<times> trace) result" where
  "init_kernel_memory syms gdt s tr =
     (let kpt = kernel_pagetable syms;
          s = s\<lparr>memory := stash_kernel_data syms False (memory s)\<rparr>;
          gdt = early_segments gdt;
          tr = Lgdt (8 * 3 - 1) (gdt_segments syms) # tr;
          s = s\<lparr>memory := kernel_tables kpt (memory s)\<rparr>
      in bind_result (vmiter_new (memory s) kpt 0) (\<lambda>it.
         bind_result (identity_map (kernel_end syms) s it) (\<lambda>s.
         Inr (gdt, s, wrcr3 kpt tr))))"

subsection \<open>Page table checks\<close>

definition pa_of :: "mem \<Rightarrow> addr \<Rightarrow> u64 \<Rightarrow> u64 result" where
  "pa_of m pt va = bind_result (vmiter_new m pt va) (\<lambda>it. Inr (vmiter_pa m it))"

definition check_pagetable :: "symbols \<Rightarrow> mem \<Rightarrow> addr \<Rightarrow> unit result" where
  "check_pagetable syms m pt =
     bind_result (assert_that (pt mod PAGESIZE = 0) ''pagetable % PAGESIZE == 0'') (\<lambda>_.
     bind_result (pa_of m pt (exception_entry syms)) (\<lambda>pa.
     bind_result (assert_that (pa = exception_entry syms) ''exception_entry mapped'') (\<lambda>_.
     bind_result (pa_of m (kernel_pagetable syms) pt) (\<lambda>pa.
     bind_result (assert_that (pa = pt) ''pagetable mapped in kernel_pagetable'') (\<lambda>_.
     bind_result (pa_of m pt (kernel_pagetable syms)) (\<lambda>pa.
     assert_that (pa = kernel_pagetable syms) ''kernel_pagetable mapped''))))))"

definition set_pagetable :: "symbols \<Rightarrow> mem \<Rightarrow> addr \<Rightarrow> trace \<Rightarrow> trace result" where
  "set_pagetable syms m pt tr = bind_result (check_pagetable syms m pt) (\<lambda>_. Inr (wrcr3 pt tr))"

section \<open>The stash\<close>

lemma memset_apply: "fst (memset m p c n) x = (if x - p < n then ucast c else m x)"
  by (simp add: memset_def memset_loop_apply)

lemma memcpy_apply:
  "n \<le> d - s \<or> d = s \<Longrightarrow> fst (memcpy m d s n) x = (if x - d < n then m (s + (x - d)) else m x)"
  by (simp add: memcpy_def memcpy_loop_apply)

definition data_size :: "symbols \<Rightarrow> u64" where
  "data_size syms = edata syms - data_start syms"

text \<open>The data segment lies below the stash, and the zeroed segment between them.\<close>

definition stash_fits :: "symbols \<Rightarrow> bool" where
  "stash_fits syms \<longleftrightarrow>
     data_start syms \<le> edata syms \<and> edata syms \<le> kernel_end syms \<and> kernel_end syms \<le> data_stash syms
     \<and> data_size syms \<le> 0x1000000"

lemma stash_fits_unat:
  assumes "stash_fits syms"
  shows "unat (data_size syms) = unat (edata syms) - unat (data_start syms)"
    "unat (data_stash syms) = 0x1000000 - unat (data_size syms)"
    "unat (data_start syms) \<le> unat (edata syms)" "unat (edata syms) \<le> unat (kernel_end syms)"
    "unat (kernel_end syms) \<le> unat (data_stash syms)" "unat (data_size syms) \<le> 0x1000000"
proof -
  show le: "unat (data_start syms) \<le> unat (edata syms)" "unat (edata syms) \<le> unat (kernel_end syms)"
    "unat (kernel_end syms) \<le> unat (data_stash syms)" "unat (data_size syms) \<le> 0x1000000"
    using assms by (simp_all add: stash_fits_def word_le_nat_alt)
  then show "unat (data_size syms) = unat (edata syms) - unat (data_start syms)"
    by (simp add: data_size_def unat_sub_if')
  show "unat (data_stash syms) = 0x1000000 - unat (data_size syms)"
    using le(4) by (simp add: data_stash_def unat_sub_if' flip: data_size_def)
qed

lemma stash_apart:
  assumes "stash_fits syms"
  shows "data_size syms \<le> data_stash syms - data_start syms"
    and "data_size syms \<le> data_start syms - data_stash syms \<or> data_size syms = 0"
proof -
  note u = stash_fits_unat [OF assms]
  show "data_size syms \<le> data_stash syms - data_start syms"
    using u by (simp add: word_le_nat_alt unat_sub_if')
  show "data_size syms \<le> data_start syms - data_stash syms \<or> data_size syms = 0"
    using u by (auto simp: word_le_nat_alt unat_sub_if' word_unat_eq_iff)
qed

lemma stash_save_apply:
  assumes "stash_fits syms"
  shows "stash_kernel_data syms False m x =
    (if x - data_stash syms < data_size syms then m (data_start syms + (x - data_stash syms)) else m x)"
  using memcpy_apply [of "data_size syms" "data_stash syms" "data_start syms" m x] stash_apart(1) [OF assms]
  by (simp add: stash_kernel_data_def data_size_def)

lemma stash_restore_apply:
  assumes "stash_fits syms"
  shows "stash_kernel_data syms True m x =
    (if x - edata syms < kernel_end syms - edata syms then 0
     else if x - data_start syms < data_size syms then m (data_stash syms + (x - data_start syms)) else m x)"
  using memcpy_apply [of "data_size syms" "data_start syms" "data_stash syms" m x] stash_apart(2) [OF assms]
  by (cases "data_size syms = 0")
    (simp_all add: stash_kernel_data_def memset_apply data_size_def memcpy_def memcpy_loop.simps [of _ _ _ 0] Let_def)

lemma data_not_bss:
  assumes "stash_fits syms" "x - data_start syms < data_size syms"
  shows "\<not> x - edata syms < kernel_end syms - edata syms"
proof -
  note u = stash_fits_unat [OF assms(1)]
  have "unat (kernel_end syms) \<le> 0x1000000" "unat (data_start syms) \<le> 0x1000000" using u by simp_all
  then show ?thesis using assms(2) u
    by (auto simp: word_less_nat_alt unat_sub_if' split: if_splits)
qed

section \<open>The entries of the kernel page table\<close>

text \<open>
  Entry \<open>i\<close> of table page \<open>t\<close> of \<open>kernel_pagetable\<close>, after the identity mapping has reached
  page \<open>n\<close>.
\<close>

definition kslot :: "addr \<Rightarrow> nat \<Rightarrow> nat \<Rightarrow> addr" where
  "kslot kpt t i = kpt + of_nat (4096 * t + 8 * i)"

definition ktable :: "addr \<Rightarrow> nat \<Rightarrow> addr" where
  "ktable kpt t = kpt + of_nat (4096 * t)"

definition kentry :: "addr \<Rightarrow> nat \<Rightarrow> nat \<Rightarrow> nat \<Rightarrow> u64" where
  "kentry kpt n t i =
     (if t = 0 \<and> i = 0 then ktable kpt 1 OR PTE_PWU
      else if t = 1 \<and> i = 0 then ktable kpt 2 OR PTE_PWU
      else if t = 1 \<and> i < 4 then of_nat i * 0x40000000 OR 0x83
      else if t = 2 \<and> i < 2 then ktable kpt (3 + i) OR PTE_PWU
      else if t = 3 \<and> 0 < i \<and> i < n then of_nat (4096 * i) OR PTE_PWU
      else 0)"

definition kspace :: "addr \<Rightarrow> nat \<Rightarrow> (addr \<Rightarrow> u64) \<Rightarrow> bool" where
  "kspace kpt n E \<longleftrightarrow> (\<forall>t < 5. \<forall>i < 512. E (kslot kpt t i) = kentry kpt n t i)"

definition kpt_ok :: "addr \<Rightarrow> bool" where
  "kpt_ok kpt \<longleftrightarrow> page_aligned kpt \<and> kpt \<le> 0x1FB000"

lemma offset_inj:
  fixes k :: addr
  assumes "x < 0x5000" "y < 0x5000"
  shows "k + of_nat x = k + of_nat y \<longleftrightarrow> x = y"
proof -
  have "unat (of_nat x :: addr) = x" "unat (of_nat y :: addr) = y"
    using assms by (simp_all add: unat_of_nat)
  then show ?thesis by (metis add_left_cancel)
qed

lemma kslot_eq:
  assumes "t < 5" "i < 512" "t' < 5" "i' < 512"
  shows "kslot kpt t i = kslot kpt t' i' \<longleftrightarrow> t = t' \<and> i = i'"
proof -
  have "4096 * t + 8 * i < 0x5000" "4096 * t' + 8 * i' < 0x5000" using assms by simp_all
  then have "kslot kpt t i = kslot kpt t' i' \<longleftrightarrow> 4096 * t + 8 * i = 4096 * t' + 8 * i'"
    unfolding kslot_def by (rule offset_inj)
  moreover have "(4096 * t + 8 * i) div 4096 = t" "(4096 * t' + 8 * i') div 4096 = t'"
    using assms by simp_all
  ultimately show ?thesis by (metis add_left_cancel mult_left_cancel zero_neq_numeral)
qed

lemma unat_kpt_add: "kpt_ok kpt \<Longrightarrow> x < 0x5000 \<Longrightarrow> unat (kpt + of_nat x) = unat kpt + x"
proof -
  assume a: "kpt_ok kpt" "x < 0x5000"
  then have "unat kpt \<le> 0x1FB000" "unat (of_nat x :: addr) = x"
    by (simp_all add: kpt_ok_def word_le_nat_alt unat_of_nat)
  then show ?thesis using a(2) unat_add_lem [of kpt "of_nat x"] by simp
qed

lemma ktable_aligned: "kpt_ok kpt \<Longrightarrow> t < 5 \<Longrightarrow> page_aligned (ktable kpt t)"
  using unat_kpt_add [of kpt "4096 * t"] by (simp add: ktable_def page_aligned_def kpt_ok_def)

lemma kslot_aligned: "kpt_ok kpt \<Longrightarrow> t < 5 \<Longrightarrow> i < 512 \<Longrightarrow> aligned8 (kslot kpt t i)"
proof -
  assume a: "kpt_ok kpt" "t < 5" "i < 512"
  then have "unat (kslot kpt t i) = unat kpt + (4096 * t + 8 * i)"
    unfolding kslot_def by (intro unat_kpt_add) simp_all
  moreover have "unat kpt mod 8 = 0"
    using a(1) mod_mod_cancel [of 8 4096 "unat kpt"] by (simp add: kpt_ok_def page_aligned_def)
  ultimately show ?thesis by (simp add: aligned8_unat mod_add_eq [symmetric])
qed

lemma slot_ktable: "slot (ktable kpt t) k va = kslot kpt t (unat (pgidx k va))"
  by (simp add: slot_def ktable_def kslot_def)

lemma small_next_table:
  assumes "page_aligned p" "p < 0x100000000"
  shows "next_table p = p"
proof -
  have "bit p i \<Longrightarrow> 12 \<le> i \<and> i < 52" for i
  proof
    show "bit p i \<Longrightarrow> 12 \<le> i" using assms(1) page_aligned_bits not_less by blast
    assume "bit p i"
    then have "bit (unat p) i" using bit_imp_le_length [of p i] by (simp add: bit_unsigned_iff)
    then have "odd (unat p div 2 ^ i)" by (rule bit_iff_odd [THEN iffD1])
    then have "\<not> unat p < 2 ^ i" by auto
    moreover have "unat p < 2 ^ 32" using assms(2) by (simp add: word_less_nat_alt)
    ultimately show "i < 52" using power_increasing [of 32 i "2 :: nat"] by force
  qed
  then show ?thesis
    unfolding next_table_def by (intro bit_word_eqI) (auto simp only: bit_and_iff bit_PAMASK)
qed

lemma ktable_small: "kpt_ok kpt \<Longrightarrow> t < 5 \<Longrightarrow> ktable kpt t < 0x100000000"
  using unat_kpt_add [of kpt "4096 * t"]
  by (simp add: ktable_def kpt_ok_def word_less_nat_alt word_le_nat_alt)

lemma ktable_link:
  assumes "kpt_ok kpt" "t < 5"
  shows "is_link (ktable kpt t OR PTE_PWU)" "next_table (ktable kpt t OR PTE_PWU) = ktable kpt t"
  using link_value ktable_aligned small_next_table ktable_small assms by blast+

lemma load64_kslot:
  assumes "kpt_ok kpt" "t < 5" "i < 512" "t' < 5" "i' < 512"
  shows "load64 (store64 m (kslot kpt t i) v) (kslot kpt t' i') =
    (if t' = t \<and> i' = i then v else load64 m (kslot kpt t' i'))"
  using assms kslot_eq [of t i t' i' kpt]
  by (auto simp: load64_store64_same intro!: load64_store64_other kslot_aligned)

lemma load64_cleared:
  assumes "kpt_ok kpt" "t < 5" "i < 512"
  shows "load64 (fst (memset m kpt 0 0x5000)) (kslot kpt t i) = 0"
proof -
  have "load64 (fst (memset m kpt 0 0x5000)) (kslot kpt t i) = load64 (\<lambda>_. 0) (kslot kpt t i)"
  proof (rule load64_cong)
    fix j :: addr assume j: "unat j < 8"
    have "unat (of_nat (4096 * t + 8 * i) + j) = 4096 * t + 8 * i + unat j"
      using assms j unat_add_lem [of "of_nat (4096 * t + 8 * i)" j] unat_of_nat_small [of "4096 * t + 8 * i"]
      by simp
    moreover have "kslot kpt t i + j - kpt = of_nat (4096 * t + 8 * i) + j" by (simp add: kslot_def)
    ultimately have "unat (kslot kpt t i + j - kpt) = 4096 * t + 8 * i + unat j" by (simp only:)
    then have "unat (kslot kpt t i + j - kpt) < 0x5000" using assms j by simp
    then show "fst (memset m kpt 0 0x5000) (kslot kpt t i + j) = 0"
      by (simp add: memset_apply word_less_nat_alt)
  qed
  then show ?thesis by (simp add: load64_zero)
qed

lemma kernel_tables_stores:
  "kernel_tables kpt m =
     (let m = fst (memset m kpt 0 0x5000);
          m = store64 m (kslot kpt 0 0) (ktable kpt 1 OR PTE_PWU);
          m = store64 m (kslot kpt 1 0) (ktable kpt 2 OR PTE_PWU);
          m = store64 m (kslot kpt 2 0) (ktable kpt 3 OR PTE_PWU);
          m = store64 m (kslot kpt 2 1) (ktable kpt 4 OR PTE_PWU);
          m = store64 m (kslot kpt 1 1) (0x40000000 OR 0x83);
          m = store64 m (kslot kpt 1 2) (0x80000000 OR 0x83)
      in store64 m (kslot kpt 1 3) (0xC0000000 OR 0x83))"
  unfolding kernel_tables_def or_PWU by (simp add: kslot_def ktable_def Let_def add.commute)

lemma less_5_cases: "(t :: nat) < 5 \<Longrightarrow> t = 0 \<or> t = 1 \<or> t = 2 \<or> t = 3 \<or> t = 4"
  by arith

lemma kernel_tables_space:
  assumes "kpt_ok kpt"
  shows "kspace kpt 1 (load64 (kernel_tables kpt m))"
  unfolding kspace_def
proof (intro allI impI)
  fix t i :: nat assume ti: "t < 5" "i < 512"
  have "i = 0 \<or> i = 1 \<or> i = 2 \<or> i = 3 \<or> \<not> i < 4" by arith
  then show "load64 (kernel_tables kpt m) (kslot kpt t i) = kentry kpt 1 t i"
    using assms ti less_5_cases [OF ti(1)]
    by (elim disjE) (simp_all add: kernel_tables_stores Let_def load64_kslot load64_cleared kentry_def)
qed

lemma kspace_store:
  assumes "kspace kpt n (load64 m)" "kpt_ok kpt" "0 < n" "n < 512"
  shows "kspace kpt (Suc n) (load64 (store64 m (kslot kpt 3 n) (of_nat (4096 * n) OR PTE_PWU)))"
  using assms by (auto simp: kspace_def load64_kslot kentry_def less_Suc_eq)

section \<open>The address space it describes\<close>

lemma kspace_entry:
  assumes "kspace kpt n E" "t < 5"
  shows "E (slot (ktable kpt t) k va) = kentry kpt n t (unat (pgidx k va))"
  using assms unat_pgidx_less [of k va] by (simp add: slot_ktable kspace_def)

lemma ktable_0 [simp]: "ktable kpt 0 = kpt"
  by (simp add: ktable_def)

definition low_index :: "u64 \<Rightarrow> bool" where
  "low_index va \<longleftrightarrow> pgidx 3 va = 0 \<and> pgidx 2 va = 0 \<and> unat (pgidx 1 va) < 2"

lemma bit_PWU_or: "i < 3 \<Longrightarrow> bit (x OR PTE_PWU) i"
  by (simp add: bit_or_iff bit_7 del: bit_numeral_word_iff)

text \<open>The tables the walk reaches, with all permissions.\<close>

abbreviation all_perms :: "u64 \<Rightarrow> bool" where "all_perms f \<equiv> (\<forall>i < 3. bit f i)"

lemma kspace_down:
  assumes ks: "kspace kpt n E" and k: "kpt_ok kpt" and t: "t < 5" "t' < 5"
    and up: "\<exists>f. pt_reach E kpt va (Suc l) (ktable kpt t) f \<and> all_perms f"
    and entry: "kentry kpt n t (unat (pgidx (Suc l) va)) = ktable kpt t' OR PTE_PWU"
  shows "\<exists>f. pt_reach E kpt va l (ktable kpt t') f \<and> all_perms f"
proof -
  obtain f where f: "pt_reach E kpt va (Suc l) (ktable kpt t) f" "all_perms f" using up by blast
  have e: "E (slot (ktable kpt t) (Suc l) va) = ktable kpt t' OR PTE_PWU"
    using kspace_entry [OF ks t(1), of "Suc l" va] entry by simp
  have "pt_reach E kpt va l (ktable kpt t') (f AND (ktable kpt t' OR PTE_PWU))"
    using pt_reach.down [OF f(1), unfolded e, OF ktable_link(1) [OF k t(2)]]
    by (simp only: ktable_link(2) [OF k t(2)])
  moreover have "all_perms (f AND (ktable kpt t' OR PTE_PWU))"
    using f(2) by (simp add: bit_and_iff bit_PWU_or)
  ultimately show ?thesis by blast
qed

lemma kspace_reach_2:
  assumes "kspace kpt n E" "kpt_ok kpt" "pgidx 3 va = 0"
  shows "\<exists>f. pt_reach E kpt va 2 (ktable kpt 1) f \<and> all_perms f"
proof (rule kspace_down [OF assms(1,2)])
  show "\<exists>f. pt_reach E kpt va (Suc 2) (ktable kpt 0) f \<and> all_perms f"
    using pt_reach.root [of E kpt va] by (intro exI [of _ "- 1"]) (simp add: numeral_3_eq_3 numeral_2_eq_2)
qed (use assms(3) in \<open>simp_all add: kentry_def\<close>)

lemma kspace_reach_1:
  assumes "kspace kpt n E" "kpt_ok kpt" "pgidx 3 va = 0" "pgidx 2 va = 0"
  shows "\<exists>f. pt_reach E kpt va 1 (ktable kpt 2) f \<and> all_perms f"
proof (rule kspace_down [OF assms(1,2)])
  show "\<exists>f. pt_reach E kpt va (Suc 1) (ktable kpt 1) f \<and> all_perms f"
    using kspace_reach_2 [OF assms(1-3)] by (simp only: Suc_1)
qed (use assms(4) in \<open>simp_all add: kentry_def flip: numeral_2_eq_2\<close>)

lemma kspace_reach:
  assumes "kspace kpt n E" "kpt_ok kpt" "low_index va"
  obtains f where "pt_reach E kpt va 0 (ktable kpt (3 + unat (pgidx 1 va))) f" "\<And>i. i < 3 \<Longrightarrow> bit f i"
proof -
  have "\<exists>f. pt_reach E kpt va 0 (ktable kpt (3 + unat (pgidx 1 va))) f \<and> all_perms f"
  proof (rule kspace_down [OF assms(1,2)])
    show "\<exists>f. pt_reach E kpt va (Suc 0) (ktable kpt 2) f \<and> all_perms f"
      using kspace_reach_1 [OF assms(1,2)] assms(3) by (simp add: low_index_def)
  qed (use assms(3) in \<open>simp_all add: kentry_def low_index_def\<close>)
  then show thesis using that by blast
qed

definition kiter :: "addr \<Rightarrow> u64 \<Rightarrow> vmiter" where
  "kiter kpt va =
     \<lparr>vm_pt = kpt, vm_pep = PE (slot (ktable kpt (3 + unat (pgidx 1 va))) 0 va), vm_lbits = PAGEOFFBITS,
      vm_perm = initial_perm, vm_va = va\<rparr>"

lemma path_perm_full: "(\<And>i. i < 3 \<Longrightarrow> bit f i) \<Longrightarrow> path_perm f = initial_perm"
  unfolding path_perm_root [symmetric] by (rule bit_word_eqI) (auto simp: bit_path_perm)

lemma low_index_canonical:
  assumes "va < 0x400000"
  shows "va_is_canonical va" "low_index va"
proof -
  have u: "unat va < 0x400000" using assms by (simp add: word_less_nat_alt)
  then show "va_is_canonical va" by (simp add: va_is_canonical_def word_le_nat_alt)
  have "unat va div 2 ^ 21 < 2" "unat va div 2 ^ 30 = 0" "unat va div 2 ^ 39 = 0" using u by simp_all
  then show "low_index va" by (simp add: low_index_def word_unat_eq_iff unat_pgidx)
qed

lemma kentry_leaf_small:
  assumes "t = 3 \<or> t = 4" "i < 512"
  shows "kentry kpt n t i < 0x100000000"
proof -
  define x where "x = (of_nat (4096 * i) :: u64)"
  have "unat x < 2 ^ 32" unfolding x_def using assms(2) by (simp add: unat_of_nat del: of_nat_mult)
  then have "uint x < 2 ^ 32" using uint_less_iff [of x "2 ^ 32"] by simp
  then have "uint (x OR PTE_PWU) < 2 ^ 32"
    unfolding unsigned_or_eq by (intro OR_upper) simp_all
  then have "x OR PTE_PWU < 0x100000000" by (simp add: word_less_def)
  then show ?thesis using assms(1) unfolding kentry_def x_def by auto
qed

lemma kiter_terminal:
  assumes "kspace kpt n (load64 m)" "kpt_ok kpt" "va < 0x400000"
  obtains f where "vmiter_terminal m (kiter kpt va) 0 (ktable kpt (3 + unat (pgidx 1 va))) f"
proof -
  obtain f where "pt_reach (load64 m) kpt va 0 (ktable kpt (3 + unat (pgidx 1 va))) f" "\<And>i. i < 3 \<Longrightarrow> bit f i"
    using kspace_reach [OF assms(1,2) low_index_canonical(2) [OF assms(3)]] by metis
  then have "vmiter_terminal m (kiter kpt va) 0 (ktable kpt (3 + unat (pgidx 1 va))) f"
    by (simp add: vmiter_terminal_def vmiter_at_def kiter_def path_perm_full)
  then show thesis by (rule that)
qed

lemma kiter_new:
  assumes "kspace kpt n (load64 m)" "kpt_ok kpt" "va < 0x400000"
  shows "vmiter_new m kpt va = Inr (kiter kpt va)"
proof -
  obtain f where "vmiter_terminal m (kiter kpt va) 0 (ktable kpt (3 + unat (pgidx 1 va))) f"
    using kiter_terminal [OF assms] .
  then have "vmiter_descend m (vmiter_start kpt va) = kiter kpt va"
    using vmiter_terminal_descend [of m "kiter kpt va"] low_index_canonical [OF assms(3)] by (simp add: kiter_def)
  moreover have t: "unat (pgidx 1 va) < 2" using low_index_canonical(2) [OF assms(3)] by (simp add: low_index_def)
  then have "read_pe m (vm_pep (kiter kpt va)) < 0x100000000"
    using kspace_entry [OF assms(1), of "3 + unat (pgidx 1 va)" 0 va]
    by (auto simp: kiter_def less_2_cases_iff intro!: kentry_leaf_small unat_pgidx_less)
  then have "read_pe m (vm_pep (kiter kpt va)) AND PTE_PAMASK < 0x100000000"
    by (rule le_less_trans [OF word_and_le2])
  ultimately show ?thesis by (simp add: vmiter_new_start vmiter_down_def Let_def not_le)
qed

lemma page_number:
  assumes "n \<le> 512"
  shows "unat (of_nat (4096 * n) :: u64) = 4096 * n" "(of_nat (4096 * n) :: u64) < 0x400000"
  using assms by (simp_all add: unat_of_nat word_less_nat_alt del: of_nat_mult)

lemma page_entry:
  assumes "n < 512"
  shows "slot (ktable kpt (3 + unat (pgidx 1 (of_nat (4096 * n))))) 0 (of_nat (4096 * n)) = kslot kpt 3 n"
proof -
  have "unat (pgidx 1 (of_nat (4096 * n))) = 0" "unat (pgidx 0 (of_nat (4096 * n))) = n"
    using assms page_number [of n] by (simp_all add: unat_pgidx del: of_nat_mult)
  then show ?thesis by (simp add: slot_ktable)
qed

lemma identity_step:
  assumes "kspace kpt n (load64 (memory s))" "kpt_ok kpt" "0 < n" "n < 512"
  shows "vmiter_map kend s (kiter kpt (of_nat (4096 * n))) (of_nat (4096 * n)) 7 =
    Inr (s\<lparr>memory := store64 (memory s) (kslot kpt 3 n) (of_nat (4096 * n) OR PTE_PWU)\<rparr>,
         kiter kpt (of_nat (4096 * n)))"
proof -
  let ?va = "of_nat (4096 * n) :: u64"
  have u: "unat ?va = 4096 * n" using assms(4) page_number by simp
  then have al: "page_aligned ?va" "?va mod PAGESIZE = 0" "?va < 0x100000000"
    using assms(4) by (simp_all add: page_aligned_def word_unat_eq_iff unat_mod word_less_nat_alt del: of_nat_mult)
  then have g: "?va mod PAGESIZE = 0" "?va AND PTE_PAMASK = ?va" using small_next_table by (simp_all add: next_table_def del: of_nat_mult)
  have "?va \<noteq> - 1" using al(3) by (metis word_n1_ge leD)
  moreover have "try_map_loop kend s (kiter kpt ?va) 7 = Inr (s, kiter kpt ?va, True)"
    by (subst try_map_loop.simps) (simp add: kiter_def)
  ultimately show ?thesis
    using g page_entry [OF assms(4), of kpt] by (simp add: vmiter_map_def try_map_def kiter_def Let_def del: of_nat_mult)
qed

lemma kslot_store_outside:
  assumes "i < 512" "t < 5" "\<not> x - kpt < 0x5000"
  shows "store64 m (kslot kpt t i) v x = m x"
proof (rule store64_outside)
  define d where "d = 4096 * t + 8 * i"
  have d: "d + 8 \<le> 0x5000" "unat (of_nat d :: addr) = d"
    using assms(1,2) unat_of_nat_small [of d] by (simp_all add: d_def)
  define y where "y = x - kpt"
  have y: "unat y \<ge> 0x5000" using assms(3) by (simp add: y_def word_less_nat_alt)
  have "x - kslot kpt t i = y - of_nat d" by (simp add: kslot_def d_def y_def)
  moreover have "unat (y - of_nat d) = unat y - d" using d y by (simp add: unat_sub_if')
  ultimately show "\<not> x - kslot kpt t i < 8" using d y by (simp add: word_less_nat_alt)
qed

lemma identity_map_loop:
  assumes "kspace kpt (max 1 n) (load64 (memory s))" "kpt_ok kpt" "n \<le> 512"
  shows "\<exists>s'. identity_map kend s (kiter kpt (of_nat (4096 * n))) = Inr s'
    \<and> kspace kpt 512 (load64 (memory s')) \<and> refcount s' = refcount s
    \<and> (\<forall>x. \<not> x - kpt < 0x5000 \<longrightarrow> memory s' x = memory s x)"
  using assms
proof (induction "512 - n" arbitrary: n s)
  case 0
  then have "n = 512" by simp
  moreover have "identity_map kend s (kiter kpt 0x200000) = Inr s"
    by (subst identity_map.simps) (simp add: kiter_def)
  ultimately show ?case using 0 by (intro exI [of _ s]) (simp add: max_def)
next
  case (Suc d)
  then have n: "n < 512" by simp
  let ?va = "of_nat (4096 * n) :: u64"
  let ?s = "if n = 0 then s else s\<lparr>memory := store64 (memory s) (kslot kpt 3 n) (?va OR PTE_PWU)\<rparr>"
  have va: "unat ?va = 4096 * n" "?va < 0x400000" using n page_number by simp_all
  then have zero: "?va = 0 \<longleftrightarrow> n = 0" by (simp add: word_unat_eq_iff del: of_nat_mult)
  have ks: "kspace kpt (Suc n) (load64 (memory ?s))"
    using Suc.prems n kspace_store [of kpt n "memory s"] by (simp add: max_def split: if_splits)
  have nxt: "?va + PAGESIZE = of_nat (4096 * Suc n)" by simp
  have new: "vmiter_new (memory ?s) kpt ?va = Inr (kiter kpt ?va)"
    using kiter_new [OF ks Suc.prems(2) va(2)] .
  have "vmiter_find (memory ?s) (kiter kpt ?va) (?va + PAGESIZE) = vmiter_new (memory ?s) kpt (?va + PAGESIZE)"
    using vmiter_find_impl_new [OF new] Suc.prems(2) by (simp add: vmiter_find_def kiter_def kpt_ok_def)
  also have "\<dots> = Inr (kiter kpt (of_nat (4096 * Suc n)))"
    unfolding nxt using kiter_new [OF ks Suc.prems(2)] page_number [of "Suc n"] n by simp
  finally have find: "vmiter_find (memory ?s) (kiter kpt ?va) (?va + PAGESIZE) = \<dots>" .
  have map: "(if ?va \<noteq> 0 then vmiter_map kend s (kiter kpt ?va) ?va 7 else Inr (s, kiter kpt ?va)) = Inr (?s, kiter kpt ?va)"
    using identity_step [of kpt n s kend] Suc.prems n zero by (simp add: max_def split: if_splits)
  have va_iter: "vm_va (kiter kpt ?va) = ?va" by (simp add: kiter_def)
  have less: "?va < MEMSIZE_PHYSICAL" using n va(1) by (simp add: word_less_nat_alt)
  have "identity_map kend s (kiter kpt ?va) = identity_map kend ?s (kiter kpt (of_nat (4096 * Suc n)))"
    by (subst identity_map.simps) (simp only: va_iter less map find if_True sum.case prod.case)
  moreover have "\<exists>s'. identity_map kend ?s (kiter kpt (of_nat (4096 * Suc n))) = Inr s'
    \<and> kspace kpt 512 (load64 (memory s')) \<and> refcount s' = refcount ?s
    \<and> (\<forall>x. \<not> x - kpt < 0x5000 \<longrightarrow> memory s' x = memory ?s x)"
    using Suc.hyps(2) Suc.prems(2) n ks by (intro Suc.hyps(1)) (simp_all add: max_def)
  ultimately show ?case
    using n kslot_store_outside [of n 3 _ kpt "memory s" "?va OR PTE_PWU"] by (auto simp del: of_nat_mult split: if_splits)
qed

lemma kspace_absent:
  assumes "kspace kpt n E" "t < 5" "\<exists>f. pt_reach E kpt va l (ktable kpt t) f \<and> all_perms f"
    and "kentry kpt n t (unat (pgidx l va)) = 0"
  shows "translate E kpt va = None"
  using assms kspace_entry [OF assms(1,2), of l va] translate_absent [of E kpt va l] by auto

lemma leaf_pa_identity:
  assumes "e AND PTE_PAMASK AND NOT (if l = 0 then 0 else 0x1000) = of_nat (2 ^ (12 + 9 * l) * (unat va div 2 ^ (12 + 9 * l)))"
  shows "leaf_pa l e va = va"
proof -
  let ?P = "2 ^ (12 + 9 * l) :: nat"
  have "va AND mask (PAGEOFFBITS + PAGEINDEXBITS * l) = of_nat (unat va mod ?P)"
    using unat_and_mask [of va "12 + 9 * l"] by (metis of_nat_unat ucast_id)
  then have "leaf_pa l e va = of_nat (?P * (unat va div ?P)) + of_nat (unat va mod ?P)"
    using assms by (simp add: leaf_pa_def and.assoc split: if_splits)
  also have "\<dots> = of_nat (unat va)" unfolding of_nat_add [symmetric] by simp
  finally show ?thesis by simp
qed

lemma kspace_low:
  assumes "kspace kpt 512 E" "kpt_ok kpt" "va < 0x200000"
  shows "translate E kpt va = (if va < 0x1000 then None else Some (va, True, True))"
proof -
  have u: "unat va < 0x200000" using assms(3) by (simp add: word_less_nat_alt)
  then have "va < 0x400000" by (simp add: word_less_nat_alt)
  then obtain f where f: "pt_reach E kpt va 0 (ktable kpt (3 + unat (pgidx 1 va))) f" "\<And>i. i < 3 \<Longrightarrow> bit f i"
    using kspace_reach [OF assms(1,2) low_index_canonical(2)] by metis
  define i where "i = unat va div 4096"
  have idx: "unat (pgidx 1 va) = 0" "unat (pgidx 0 va) = i" "i < 512"
    using u by (simp_all add: unat_pgidx i_def)
  have e: "E (slot (ktable kpt 3) 0 va) = (if i = 0 then 0 else of_nat (4096 * i) OR PTE_PWU)"
    using kspace_entry [OF assms(1), of 3 0 va] idx by (simp add: kentry_def)
  have i0: "i = 0 \<longleftrightarrow> va < 0x1000" by (simp add: i_def word_less_nat_alt div_eq_0_iff)
  show ?thesis
  proof (cases "i = 0")
    case True
    then show ?thesis using translate_absent [OF f(1)] e i0 idx(1) by simp
  next
    case False
    define x where "x = (of_nat (4096 * i) :: u64)"
    have "unat x = 4096 * i" using page_number(1) [of i] idx(3) by (simp add: x_def)
    then have x: "page_aligned x" "x < 0x100000000"
      using idx(3) by (simp_all add: page_aligned_def word_less_nat_alt)
    have "next_table (x OR PTE_PWU) = x" using link_value(2) [OF x(1) small_next_table [OF x]] .
    then have "leaf_pa 0 (x OR PTE_PWU) va = va"
      by (intro leaf_pa_identity) (simp add: next_table_def x_def i_def)
    then show ?thesis
      using translate_reach [OF f(1)] False e [folded x_def] i0 idx(1) f(2)
      by (simp add: restrict_flags_def bit_PWU_or)
  qed
qed

lemma kspace_gap:
  assumes "kspace kpt n E" "kpt_ok kpt" "0x200000 \<le> va" "va < 0x40000000"
  shows "translate E kpt va = None"
proof -
  have u: "0x200000 \<le> unat va" "unat va < 0x40000000"
    using assms(3,4) by (simp_all add: word_less_nat_alt word_le_nat_alt)
  then have "unat va div 2 ^ 30 = 0" "unat va div 2 ^ 39 = 0" "1 \<le> unat va div 2 ^ 21" "unat va div 2 ^ 21 < 512"
    by simp_all
  then have idx: "pgidx 3 va = 0" "pgidx 2 va = 0" "1 \<le> unat (pgidx 1 va)"
    by (simp_all add: word_unat_eq_iff unat_pgidx)
  show ?thesis
  proof (cases "unat (pgidx 1 va) < 2")
    case True
    then have one: "unat (pgidx 1 va) = 1" "low_index va" using idx by (simp_all add: low_index_def)
    obtain f where "pt_reach E kpt va 0 (ktable kpt (3 + unat (pgidx 1 va))) f" "\<And>i. i < 3 \<Longrightarrow> bit f i"
      using kspace_reach [OF assms(1,2) one(2)] by metis
    then have "\<exists>f. pt_reach E kpt va 0 (ktable kpt 4) f \<and> all_perms f"
      by (intro exI [of _ f]) (simp add: one(1) [unfolded One_nat_def])
    then show ?thesis
      by (intro kspace_absent [OF assms(1), of 4 va 0]) (simp_all add: kentry_def)
  next
    case False
    then show ?thesis
      using kspace_reach_1 [OF assms(1,2) idx(1,2)]
      by (intro kspace_absent [OF assms(1), of 2 va 1]) (simp_all add: kentry_def)
  qed
qed

lemma large_entry:
  assumes "0 < i" "i < 4"
  defines "e \<equiv> of_nat i * 0x40000000 OR (0x83 :: u64)"
  shows "bit e 0" "bit e 7" "bit e 1" "\<not> bit e 2"
    "e AND PTE_PAMASK AND NOT 0x1000 = of_nat (0x40000000 * i)"
proof -
  have "i = 1 \<or> i = 2 \<or> i = 3" using assms(1,2) by arith
  then show "bit e 0" "bit e 7" "bit e 1" "\<not> bit e 2"
    "e AND PTE_PAMASK AND NOT 0x1000 = of_nat (0x40000000 * i)"
    by (auto simp: e_def)
qed

lemma kspace_large:
  assumes "kspace kpt n E" "kpt_ok kpt" "0x40000000 \<le> va" "va < 0x100000000"
  shows "translate E kpt va = Some (va, True, False)"
proof -
  have u: "0x40000000 \<le> unat va" "unat va < 0x100000000"
    using assms(3,4) by (simp_all add: word_less_nat_alt word_le_nat_alt)
  define i where "i = unat va div 2 ^ 30"
  have "unat va div 2 ^ 39 = 0" and i: "0 < i" "i < 4" using u by (simp_all add: i_def)
  then have idx: "pgidx 3 va = 0" "unat (pgidx 2 va) = i"
    using u by (simp_all add: word_unat_eq_iff unat_pgidx i_def)
  obtain f where f: "pt_reach E kpt va 2 (ktable kpt 1) f" "all_perms f"
    using kspace_reach_2 [OF assms(1,2) idx(1)] by blast
  define e where "e = of_nat i * 0x40000000 OR (0x83 :: u64)"
  have "E (slot (ktable kpt 1) (Suc 1) va) = e"
    using kspace_entry [OF assms(1), of 1 2 va] idx(2) i by (simp add: kentry_def e_def numeral_2_eq_2)
  moreover have "leaf_pa 2 e va = va"
    using large_entry(5) [OF i] by (intro leaf_pa_identity) (simp add: e_def i_def)
  ultimately have "mmu_walk E (Suc 1) (ktable kpt 1) va = Some (va, True, False)"
    using large_entry(1-4) [OF i] by (simp add: Let_def numeral_2_eq_2 flip: e_def)
  then show ?thesis
    using translate_reach [OF f(1)] f(2) by (simp add: restrict_flags_def numeral_2_eq_2)
qed

lemma kspace_high:
  assumes "kspace kpt n E" "kpt_ok kpt" "va_is_canonical va" "0x100000000 \<le> va"
  shows "translate E kpt va = None"
proof (cases "pgidx 3 va = 0")
  case True
  then have z: "unat va div 2 ^ 39 mod 512 = 0" using unat_pgidx [of 3 va] by simp
  have u: "0x100000000 \<le> unat va" using assms(4) by (simp add: word_le_nat_alt)
  have "va \<le> VA_LOWMAX"
  proof (rule ccontr)
    assume "\<not> va \<le> VA_LOWMAX"
    then have "18446603336221196288 \<le> unat va" using assms(3) by (simp add: va_is_canonical_def word_le_nat_alt)
    then have "33554176 \<le> unat va div 2 ^ 39" by simp
    moreover have "unat va div 2 ^ 39 < 33554432" using unsigned_less [of va, where 'a = nat] by simp
    moreover obtain q where "unat va div 2 ^ 39 = 512 * q" using z by (metis mod_0_imp_dvd dvdE)
    ultimately show False by simp
  qed
  then have "unat va div 2 ^ 39 < 256" by (simp add: word_le_nat_alt)
  then have "unat va div 2 ^ 39 = 0" using z by simp
  then have "unat va < 2 ^ 39" by (simp add: div_eq_0_iff)
  then have "unat va div 2 ^ 30 mod 512 = unat va div 2 ^ 30" "4 \<le> unat va div 2 ^ 30" using u by simp_all
  then have "4 \<le> unat (pgidx 2 va)" by (simp add: unat_pgidx)
  then show ?thesis
    using kspace_reach_2 [OF assms(1,2) True]
    by (intro kspace_absent [OF assms(1), of 1 va 2]) (simp_all add: kentry_def)
next
  case False
  have "pt_reach E kpt va 3 (ktable kpt 0) (- 1)" using pt_reach.root [of E kpt va] by simp
  then show ?thesis
    using False by (intro kspace_absent [OF assms(1), of 0 va 3]) (auto simp: kentry_def word_unat_eq_iff)
qed

text \<open>The address space of the kernel: what each canonical address translates to.\<close>

definition kernel_translation :: "u64 \<Rightarrow> translation option" where
  "kernel_translation va =
     (if va < 0x1000 then None
      else if va < MEMSIZE_PHYSICAL then Some (va, True, True)
      else if va < 0x40000000 then None
      else if va < 0x100000000 then Some (va, True, False)
      else None)"

lemma kspace_translate:
  assumes "kspace kpt 512 E" "kpt_ok kpt" "va_is_canonical va"
  shows "translate E kpt va = kernel_translation va"
  using kspace_low [OF assms(1,2), of va] kspace_gap [OF assms(1,2), of va] kspace_large [OF assms(1,2), of va]
    kspace_high [OF assms]
  by (auto simp: kernel_translation_def not_less word_less_nat_alt word_le_nat_alt)

lemma kspace_pa:
  assumes "kspace kpt 512 (load64 m)" "kpt_ok kpt" "0x1000 \<le> va" "va < MEMSIZE_PHYSICAL"
  shows "pa_of m kpt va = Inr va"
proof -
  have "unat va < 0x200000" using assms(4) by (simp add: word_less_nat_alt)
  then have va: "va < 0x400000" by (simp add: word_less_nat_alt)
  note new = kiter_new [OF assms(1,2) va] and can = low_index_canonical(1) [OF va]
  have "translate (load64 m) kpt va = Some (va, True, True)"
    using kspace_translate [OF assms(1,2) can] assms(3,4) by (simp add: kernel_translation_def not_less)
  then show ?thesis
    using vmiter_new_answers(1) [OF new can] new by (simp add: pa_of_def split: if_splits)
qed

lemma init_kernel_memory_space:
  assumes "kpt_ok (kernel_pagetable syms)"
  shows "\<exists>s' tr'. init_kernel_memory syms gdt s tr = Inr (early_segments gdt, s', WrCr3 (kernel_pagetable syms) # tr')
    \<and> kspace (kernel_pagetable syms) 512 (entries s') \<and> refcount s' = refcount s"
proof -
  let ?kpt = "kernel_pagetable syms"
  let ?s = "s\<lparr>memory := kernel_tables ?kpt (stash_kernel_data syms False (memory s))\<rparr>"
  have ks: "kspace ?kpt 1 (load64 (memory ?s))" using kernel_tables_space [OF assms] by simp
  have new: "vmiter_new (memory ?s) ?kpt 0 = Inr (kiter ?kpt 0)" using kiter_new [OF ks assms, of 0] by simp
  obtain s' where "identity_map (kernel_end syms) ?s (kiter ?kpt 0) = Inr s'"
    "kspace ?kpt 512 (entries s')" "refcount s' = refcount ?s"
    using identity_map_loop [of ?kpt 0 ?s "kernel_end syms"] ks assms by auto
  then show ?thesis
    using new by (simp add: init_kernel_memory_def Let_def wrcr3_def)
qed

lemma stash_restore_boot:
  assumes "stash_fits syms"
    and "\<forall>x. x - data_stash syms < data_size syms \<longrightarrow> now x = stash_kernel_data syms False boot x"
  shows "stash_kernel_data syms True now x =
    (if data_start syms \<le> x \<and> x < edata syms then boot x
     else if edata syms \<le> x \<and> x < kernel_end syms then 0 else now x)"
proof -
  note u = stash_fits_unat [OF assms(1)]
  have low: "unat (data_start syms) \<le> 0x1000000" "unat (kernel_end syms) \<le> 0x1000000" using u by simp_all
  have data: "x - data_start syms < data_size syms \<longleftrightarrow> data_start syms \<le> x \<and> x < edata syms"
    using u low by (auto simp: word_less_nat_alt word_le_nat_alt unat_sub_if' split: if_splits)
  have bss: "x - edata syms < kernel_end syms - edata syms \<longleftrightarrow> edata syms \<le> x \<and> x < kernel_end syms"
    using u low by (auto simp: word_less_nat_alt word_le_nat_alt unat_sub_if' split: if_splits)
  let ?y = "data_stash syms + (x - data_start syms)"
  have "now ?y = boot x" if "x - data_start syms < data_size syms"
    using that assms(2) stash_save_apply [OF assms(1), of boot ?y] by simp
  then show ?thesis
    using stash_restore_apply [OF assms(1), of now x] data_not_bss [OF assms(1), of x] data bss by auto
qed

section \<open>Properties\<close>

text \<open>
  \<open>C36\<close>: \<open>init_kernel_memory\<close> fails no assertion, whatever memory contains, and installs a page
  table in which every canonical address translates as intended: the first page is
  inaccessible, the other pages of physical memory are mapped at their own address with all
  permissions, device memory between 1 and 4 GiB is mapped at its own address for the kernel
  only, and nothing else is mapped. The page table passes \<open>check_pagetable\<close>.
\<close>

theorem kernel_address_space:
  assumes "page_aligned (kernel_pagetable syms)" "0x1000 \<le> kernel_pagetable syms" "kernel_pagetable syms \<le> 0x1FB000"
    and "0x1000 \<le> exception_entry syms" "exception_entry syms < MEMSIZE_PHYSICAL"
  shows "\<exists>gdt' s' tr'. init_kernel_memory syms gdt s tr = Inr (gdt', s', WrCr3 (kernel_pagetable syms) # tr')
    \<and> (\<forall>va. va_is_canonical va \<longrightarrow> translate (entries s') (kernel_pagetable syms) va = kernel_translation va)
    \<and> check_pagetable syms (memory s') (kernel_pagetable syms) = Inr ()"
proof -
  let ?kpt = "kernel_pagetable syms"
  have k: "kpt_ok ?kpt" using assms(1,3) by (simp add: kpt_ok_def)
  obtain s' tr' where s': "init_kernel_memory syms gdt s tr = Inr (early_segments gdt, s', WrCr3 ?kpt # tr')"
    and ks: "kspace ?kpt 512 (entries s')" using init_kernel_memory_space [OF k] by blast
  have "?kpt mod PAGESIZE = 0" using assms(1) by (simp add: page_aligned_def word_unat_eq_iff unat_mod)
  moreover have "?kpt < MEMSIZE_PHYSICAL" using assms(3) by (simp add: word_less_nat_alt word_le_nat_alt)
  ultimately have "check_pagetable syms (memory s') ?kpt = Inr ()"
    using kspace_pa [OF ks k] assms(2,4,5) by (simp add: check_pagetable_def)
  with s' kspace_translate [OF ks k] show ?thesis by blast
qed

theorem kernel_address_space_witness:
  "\<exists>gdt' s' tr'. init_kernel_memory example_symbols (replicate 7 0) empty_space [] =
      Inr (gdt', s', WrCr3 0x51000 # tr')
    \<and> translate (entries s') 0x51000 0xFEE00000 = Some (0xFEE00000, True, False)"
proof -
  have "va_is_canonical 0xFEE00000" by (simp add: va_is_canonical_def)
  then show ?thesis
    using kernel_address_space [of example_symbols "replicate 7 0" empty_space "[]"]
    by (auto simp: example_symbols_def page_aligned_def kernel_translation_def)
qed

text \<open>
  \<open>C37\<close>: a soft reboot starts from the kernel's initial data. When the stash area still holds
  what \<open>stash_kernel_data(false)\<close> put there at boot, \<open>stash_kernel_data(true)\<close> gives every byte
  of the data segment its value at boot, clears the zero-initialized segment and changes
  nothing else, whatever the kernel did to its data in between.
\<close>

theorem stash_restores:
  assumes "stash_fits syms"
    and "\<forall>x. x - data_stash syms < data_size syms \<longrightarrow> now x = stash_kernel_data syms False boot x"
  shows "stash_kernel_data syms True now x =
    (if data_start syms \<le> x \<and> x < edata syms then boot x
     else if edata syms \<le> x \<and> x < kernel_end syms then 0 else now x)"
  using assms by (rule stash_restore_boot)

theorem stash_restores_witness:
  "stash_kernel_data example_symbols True
     (\<lambda>x. if x < 0x60000 then 0x99 else stash_kernel_data example_symbols False (\<lambda>x. ucast x) x) 0x50123 = 0x23"
proof -
  have fits: "stash_fits example_symbols"
    by (simp add: stash_fits_def example_symbols_def data_stash_def data_size_def)
  have "\<not> x < 0x60000" if "x - data_stash example_symbols < data_size example_symbols" for x
    using that by (auto simp: data_stash_def data_size_def example_symbols_def word_less_nat_alt unat_sub_if' split: if_splits)
  then show ?thesis
    using stash_restores [OF fits, of "\<lambda>x. if x < 0x60000 then 0x99 else stash_kernel_data example_symbols False (\<lambda>x. ucast x) x"
        "\<lambda>x. ucast x" "0x50123"]
    by (simp add: example_symbols_def)
qed

end
