(* ===== verification/CString.thy ===== *)
theory CString
  imports CMem
begin

text \<open>
  Character classes (\<open>pset3/lib.hh\<close>) and the string functions of \<open>pset3/lib.cc\<close> on
  byte-addressed memory. A loop that ends only at a terminating zero byte is a partial function
  into \<open>option\<close>: \<open>None\<close> means that the loop does not end. \<open>cstr m s xs\<close> says that the string at
  \<open>s\<close> is \<open>xs\<close>; under it every function is shown to return, and what it returns.
\<close>

section \<open>Character classes\<close>

text \<open>The argument is a C \<open>int\<close>; the range tests use unsigned wrap-around as the source does.\<close>

definition isspace :: "u32 \<Rightarrow> bool" where
  "isspace c \<longleftrightarrow> (sint c \<ge> 9 \<and> sint c \<le> 13) \<or> c = 32"

definition isdigit :: "u32 \<Rightarrow> bool" where
  "isdigit c \<longleftrightarrow> c - 48 < 10"

definition islower :: "u32 \<Rightarrow> bool" where
  "islower c \<longleftrightarrow> c - 97 < 26"

definition isupper :: "u32 \<Rightarrow> bool" where
  "isupper c \<longleftrightarrow> c - 65 < 26"

definition isalpha :: "u32 \<Rightarrow> bool" where
  "isalpha c \<longleftrightarrow> (c OR 0x20) - 97 < 26"

definition isalnum :: "u32 \<Rightarrow> bool" where
  "isalnum c \<longleftrightarrow> isalpha c \<or> isdigit c"

definition tolower :: "u32 \<Rightarrow> u32" where
  "tolower c = (if isupper c then c + 97 - 65 else c)"

definition toupper :: "u32 \<Rightarrow> u32" where
  "toupper c = (if islower c then c + 65 - 97 else c)"

section \<open>String functions\<close>

partial_function (option) strlen_loop :: "mem \<Rightarrow> addr \<Rightarrow> u64 \<Rightarrow> u64 option" where
  "strlen_loop m s n = (if m s \<noteq> 0 then strlen_loop m (s + 1) (n + 1) else Some n)"

definition strlen :: "mem \<Rightarrow> addr \<Rightarrow> u64 option" where
  "strlen m s = strlen_loop m s 0"

function strnlen_loop :: "mem \<Rightarrow> addr \<Rightarrow> u64 \<Rightarrow> u64 \<Rightarrow> u64" where
  "strnlen_loop m s n maxlen =
     (if n \<noteq> maxlen \<and> m s \<noteq> 0 then strnlen_loop m (s + 1) (n + 1) maxlen else n)"
  by pat_completeness auto
termination
  by (relation "measure (\<lambda>(m, s, n, maxlen). unat (maxlen - n))")
    (auto simp: diff_diff_eq [symmetric] intro!: unat_dec_less simp: word_gt_0)

declare strnlen_loop.simps [simp del]

definition strnlen :: "mem \<Rightarrow> addr \<Rightarrow> u64 \<Rightarrow> u64" where
  "strnlen m s maxlen = strnlen_loop m s 0 maxlen"

text \<open>The loop condition \<open>d[-1] != 0\<close> reads the byte just written.\<close>

partial_function (option) strcpy_loop :: "mem \<Rightarrow> addr \<Rightarrow> addr \<Rightarrow> mem option" where
  "strcpy_loop m d s =
     (let m' = m(d := m s) in if m' d \<noteq> 0 then strcpy_loop m' (d + 1) (s + 1) else Some m')"

definition strcpy :: "mem \<Rightarrow> addr \<Rightarrow> addr \<Rightarrow> (mem \<times> addr) option" where
  "strcpy m dst src = map_option (\<lambda>m'. (m', dst)) (strcpy_loop m dst src)"

function strncpy_copy :: "mem \<Rightarrow> addr \<Rightarrow> addr \<Rightarrow> u64 \<Rightarrow> mem \<times> addr \<times> u64" where
  "strncpy_copy m d s maxlen =
     (if maxlen \<noteq> 0 \<and> m s \<noteq> 0 then strncpy_copy (m(d := m s)) (d + 1) (s + 1) (maxlen - 1)
      else (m, d, maxlen))"
  by pat_completeness auto
termination
  by (relation "measure (\<lambda>(m, d, s, maxlen). unat maxlen)") (simp_all add: unat_dec_less word_gt_0)

declare strncpy_copy.simps [simp del]

function strncpy_pad :: "mem \<Rightarrow> addr \<Rightarrow> u64 \<Rightarrow> mem" where
  "strncpy_pad m d maxlen =
     (if maxlen \<noteq> 0 then strncpy_pad (m(d := 0)) (d + 1) (maxlen - 1) else m)"
  by pat_completeness auto
termination
  by (relation "measure (\<lambda>(m, d, maxlen). unat maxlen)") (simp_all add: unat_dec_less word_gt_0)

declare strncpy_pad.simps [simp del]

definition strncpy :: "mem \<Rightarrow> addr \<Rightarrow> addr \<Rightarrow> u64 \<Rightarrow> mem \<times> addr" where
  "strncpy m dst src maxlen =
     (case strncpy_copy m dst src maxlen of (m', d, left) \<Rightarrow> (strncpy_pad m' d left, dst))"

definition strlcpy :: "mem \<Rightarrow> addr \<Rightarrow> addr \<Rightarrow> u64 \<Rightarrow> (mem \<times> u64) option" where
  "strlcpy m dst src maxlen =
     (case strlen m src of
        None \<Rightarrow> None
      | Some n \<Rightarrow>
          if maxlen \<noteq> 0
          then let nn = (if n > maxlen - 1 then maxlen - 1 else n);
                   m' = fst (memcpy m dst src nn)
               in Some (m'(dst + nn := 0), n)
          else Some (m, n))"

partial_function (option) strcmp :: "mem \<Rightarrow> addr \<Rightarrow> addr \<Rightarrow> int option" where
  "strcmp m a b =
     (let ac = m a; bc = m b in
      if ac = 0 \<or> bc = 0 \<or> ac \<noteq> bc then Some (byte_order ac bc)
      else strcmp m (a + 1) (b + 1))"

function strncmp :: "mem \<Rightarrow> addr \<Rightarrow> addr \<Rightarrow> u64 \<Rightarrow> int" where
  "strncmp m a b n =
     (let ac = (if n \<noteq> 0 then m a else 0); bc = (if n \<noteq> 0 then m b else 0) in
      if ac = 0 \<or> bc = 0 \<or> ac \<noteq> bc then byte_order ac bc
      else strncmp m (a + 1) (b + 1) (n - 1))"
  by pat_completeness auto
termination
  by (relation "measure (\<lambda>(m, a, b, n). unat n)")
    (auto simp: unat_dec_less word_gt_0 split: if_splits)

declare strncmp.simps [simp del]

abbreviation lower_byte :: "byte \<Rightarrow> byte" where
  "lower_byte c \<equiv> ucast (tolower (ucast c))"

partial_function (option) strcasecmp :: "mem \<Rightarrow> addr \<Rightarrow> addr \<Rightarrow> int option" where
  "strcasecmp m a b =
     (let ac = lower_byte (m a); bc = lower_byte (m b) in
      if ac = 0 \<or> bc = 0 \<or> ac \<noteq> bc then Some (byte_order ac bc)
      else strcasecmp m (a + 1) (b + 1))"

function strncasecmp :: "mem \<Rightarrow> addr \<Rightarrow> addr \<Rightarrow> u64 \<Rightarrow> int" where
  "strncasecmp m a b n =
     (let ac = (if n \<noteq> 0 then lower_byte (m a) else 0);
          bc = (if n \<noteq> 0 then lower_byte (m b) else 0) in
      if ac = 0 \<or> bc = 0 \<or> ac \<noteq> bc then byte_order ac bc
      else strncasecmp m (a + 1) (b + 1) (n - 1))"
  by pat_completeness auto
termination
  by (relation "measure (\<lambda>(m, a, b, n). unat n)")
    (auto simp: unat_dec_less word_gt_0 split: if_splits)

declare strncasecmp.simps [simp del]

partial_function (option) strchr_loop :: "mem \<Rightarrow> addr \<Rightarrow> byte \<Rightarrow> addr option" where
  "strchr_loop m s c = (if m s \<noteq> 0 \<and> m s \<noteq> c then strchr_loop m (s + 1) c else Some s)"

definition strchr :: "mem \<Rightarrow> addr \<Rightarrow> u32 \<Rightarrow> addr option" where
  "strchr m s c = map_option (\<lambda>p. if m p = ucast c then p else 0) (strchr_loop m s (ucast c))"

partial_function (option) strstr_loop :: "mem \<Rightarrow> addr \<Rightarrow> addr \<Rightarrow> u64 \<Rightarrow> u64 \<Rightarrow> (u64 \<times> u64) option" where
  "strstr_loop m hs ns i j =
     (if m (hs + i) \<noteq> 0 \<and> m (ns + j) \<noteq> 0
      then if m (hs + (i + j)) = m (ns + j) then strstr_loop m hs ns i (j + 1)
           else strstr_loop m hs ns (i + 1) 0
      else Some (i, j))"

definition strstr :: "mem \<Rightarrow> addr \<Rightarrow> addr \<Rightarrow> addr option" where
  "strstr m hs ns =
     map_option (\<lambda>(i, j). if m (ns + j) = 0 then hs + i else 0) (strstr_loop m hs ns 0 0)"

section \<open>Strings in memory\<close>

primrec cstr :: "mem \<Rightarrow> addr \<Rightarrow> byte list \<Rightarrow> bool" where
  "cstr m s [] \<longleftrightarrow> m s = 0"
| "cstr m s (x # xs) \<longleftrightarrow> m s = x \<and> x \<noteq> 0 \<and> cstr m (s + 1) xs"

lemma cstr_nth: "cstr m s xs \<Longrightarrow> i \<le> length xs \<Longrightarrow> m (s + of_nat i) = (xs @ [0]) ! i"
proof (induction xs arbitrary: s i)
  case (Cons x xs)
  then show ?case by (cases i) (simp_all add: add.assoc [symmetric])
qed simp

lemma cstr_nonzero: "cstr m s xs \<Longrightarrow> 0 \<notin> set xs"
  by (induction xs arbitrary: s) auto

lemma cstr_zero_iff: "cstr m s xs \<Longrightarrow> i \<le> length xs \<Longrightarrow> m (s + of_nat i) = 0 \<longleftrightarrow> i = length xs"
  by (frule cstr_nonzero) (auto simp: cstr_nth nth_append in_set_conv_nth)

text \<open>A string is shorter than the address space, since it does not contain its terminator.\<close>

lemma cstr_length:
  assumes "cstr m s xs"
  shows "length xs < 2 ^ 64"
proof (rule ccontr)
  assume long: "\<not> length xs < 2 ^ 64"
  define k where "k = length xs - 2 ^ 64"
  have len: "length xs = k + 2 ^ 64" using long by (simp add: k_def)
  have "(of_nat (length xs) :: addr) = of_nat k"
    unfolding len of_nat_add by simp
  then have "m (s + of_nat k) = 0"
    using cstr_zero_iff [OF assms, of "length xs"] by simp
  then show False using cstr_zero_iff [OF assms, of k] len by simp
qed

lemma cstr_unat_length: "cstr m s xs \<Longrightarrow> unat (of_nat (length xs) :: u64) = length xs"
  using cstr_length unat_of_nat [of "length xs", where 'a = 64] by simp

lemma cstr_cong:
  assumes "\<And>i. i \<le> length xs \<Longrightarrow> m' (s + of_nat i) = m (s + of_nat i)"
  shows "cstr m' s xs \<longleftrightarrow> cstr m s xs"
  using assms
proof (induction xs arbitrary: s)
  case (Cons x xs)
  have "cstr m' (s + 1) xs \<longleftrightarrow> cstr m (s + 1) xs"
    using Cons.prems [of "Suc _"] by (intro Cons.IH) (simp add: add.assoc)
  with Cons.prems [of 0] show ?case by simp
qed (use assms [of 0] in simp)

lemma cstr_bytes: "cstr m s xs \<longleftrightarrow> bytes m s (length xs) = xs \<and> 0 \<notin> set xs \<and> m (s + of_nat (length xs)) = 0"
  by (induction xs arbitrary: s) (auto simp: add.assoc)

lemma strlen_loop_cstr: "cstr m s xs \<Longrightarrow> strlen_loop m s n = Some (n + of_nat (length xs))"
proof (induction xs arbitrary: s n)
  case Nil
  then show ?case by (subst strlen_loop.simps) simp
next
  case (Cons x xs)
  then show ?case by (subst strlen_loop.simps) simp
qed

lemma strlen_cstr: "cstr m s xs \<Longrightarrow> strlen m s = Some (of_nat (length xs))"
  by (simp add: strlen_def strlen_loop_cstr)


lemma strnlen_loop_cstr:
  "cstr m s xs \<Longrightarrow> strnlen_loop m s n maxlen = n + of_nat (min (length xs) (unat (maxlen - n)))"
proof (induction xs arbitrary: s n)
  case Nil
  then show ?case by (subst strnlen_loop.simps) simp
next
  case (Cons x xs)
  show ?case
  proof (cases "n = maxlen")
    case True
    then show ?thesis by (subst strnlen_loop.simps) simp
  next
    case False
    then have "maxlen - n > 0" by (simp add: word_gt_0)
    then have "unat (maxlen - n) = Suc (unat (maxlen - n - 1))"
      by (metis unat_dec unat_gt_0 Suc_pred' word_gt_0)
    then have "unat (maxlen - n) = Suc (unat (maxlen - (n + 1)))" by (simp add: diff_diff_eq)
    with Cons False show ?thesis by (subst strnlen_loop.simps) simp
  qed
qed

lemma strnlen_cstr: "cstr m s xs \<Longrightarrow> strnlen m s maxlen = of_nat (min (length xs) (unat maxlen))"
  by (simp add: strnlen_def strnlen_loop_cstr)

section \<open>Copying\<close>

text \<open>A destination that starts more than the string's length after the source, modulo the
  address width, is not overwritten before it is read.\<close>

lemma cstr_shift_upd:
  assumes "cstr m s (x # xs)" "of_nat (length (x # xs)) < d - s"
  shows "cstr (m(d := v)) (s + 1) xs"
proof -
  have len: "Suc (length xs) < 2 ^ 64" using cstr_length [OF assms(1)] by simp
  have "s + 1 + of_nat i \<noteq> d" if "i \<le> length xs" for i
  proof
    assume "s + 1 + of_nat i = d"
    then have "d - s = of_nat (Suc i)" by (simp add: algebra_simps)
    moreover have "unat (of_nat (Suc i) :: u64) = Suc i" "unat (of_nat (Suc (length xs)) :: u64) = Suc (length xs)"
      using that len by (auto intro!: unat_of_nat_small simp del: of_nat_Suc)
    ultimately show False using assms(2) that by (simp add: word_less_nat_alt del: of_nat_Suc)
  qed
  then have "cstr (m(d := v)) (s + 1) xs \<longleftrightarrow> cstr m (s + 1) xs" by (intro cstr_cong) simp
  with assms(1) show ?thesis by simp
qed

lemma strcpy_loop_memcpy:
  assumes "cstr m s xs" "of_nat (length xs) < d - s"
  shows "strcpy_loop m d s = Some (memcpy_loop m d s (of_nat (length xs) + 1))"
  using assms
proof (induction xs arbitrary: m d s)
  case Nil
  then show ?case
    by (subst strcpy_loop.simps)
      (simp add: memcpy_loop.simps [of m d s 1] memcpy_loop.simps [of _ _ _ 0])
next
  case (Cons x xs)
  let ?m = "m(d := m s)"
  have len: "length (x # xs) < 2 ^ 64" using Cons.prems(1) by (rule cstr_length)
  have up: "cstr ?m (s + 1) xs" using Cons.prems by (rule cstr_shift_upd)
  have small: "unat (of_nat (length xs) :: u64) = length xs" "unat (of_nat (Suc (length xs)) :: u64) = Suc (length xs)"
    using len by (auto intro!: unat_of_nat_small simp del: of_nat_Suc)
  then have "of_nat (length xs) < d + 1 - (s + 1)"
    using Cons.prems(2) by (simp add: word_less_nat_alt del: of_nat_Suc)
  then have IH: "strcpy_loop ?m (d + 1) (s + 1) =
      Some (memcpy_loop ?m (d + 1) (s + 1) (of_nat (length xs) + 1))"
    by (rule Cons.IH [OF up])
  have "length xs + 2 < 2 ^ 64"
    using Cons.prems(2) small(2) unsigned_less [of "d - s", where 'a = nat]
    by (simp add: word_less_nat_alt del: of_nat_Suc)
  then have "of_nat (length xs) + 2 \<noteq> (0 :: u64)"
    using unat_of_nat_small [of "length xs + 2"] by (auto simp: add.commute)
  then have "memcpy_loop m d s (of_nat (length (x # xs)) + 1) =
      memcpy_loop ?m (d + 1) (s + 1) (of_nat (length xs) + 1)"
    by (subst memcpy_loop.simps) (simp add: word_gt_0 algebra_simps)
  moreover have "strcpy_loop m d s = strcpy_loop ?m (d + 1) (s + 1)"
    using Cons.prems(1) by (subst strcpy_loop.simps) (simp add: Let_def)
  ultimately show ?case using IH by simp
qed

section \<open>Comparison\<close>

text \<open>The reference order: the sign of the lexicographic comparison of unsigned bytes.\<close>

definition str_order :: "byte list \<Rightarrow> byte list \<Rightarrow> int" where
  "str_order xs ys = (if xs = ys then 0 else if ord_class.lexordp xs ys then - 1 else 1)"

lemma str_order_simps:
  "str_order [] [] = 0" "str_order [] (y # ys) = - 1" "str_order (x # xs) [] = 1"
  "str_order (x # xs) (y # ys) = (if x = y then str_order xs ys else byte_order x y)"
  by (auto simp: str_order_def byte_order_def)

lemma byte_order_zero: "y \<noteq> 0 \<Longrightarrow> byte_order 0 y = - 1" "x \<noteq> 0 \<Longrightarrow> byte_order x 0 = 1" "byte_order x x = 0"
  by (simp_all add: byte_order_def word_gt_0)

lemma strcmp_order:
  "cstr m a xs \<Longrightarrow> cstr m b ys \<Longrightarrow> strcmp m a b = Some (str_order xs ys)"
proof (induction xs arbitrary: a b ys)
  case Nil
  then show ?case
    by (cases ys) (auto simp: strcmp.simps [of m a b] str_order_simps byte_order_zero)
next
  case (Cons x xs)
  show ?case
  proof (cases ys)
    case Nil
    with Cons.prems show ?thesis
      by (simp add: strcmp.simps [of m a b] str_order_simps byte_order_zero)
  next
    case (Cons y ys')
    with Cons.prems Cons.IH [of "a + 1" "b + 1" ys'] show ?thesis
      by (simp add: strcmp.simps [of m a b] str_order_simps)
  qed
qed

lemma strncmp_order:
  "cstr m a xs \<Longrightarrow> cstr m b ys \<Longrightarrow>
    strncmp m a b n = str_order (take (unat n) xs) (take (unat n) ys)"
proof (induction xs arbitrary: a b ys n)
  case Nil
  then show ?case
    by (cases ys; cases "n = 0")
      (auto simp: unat_gt_0 take_Cons' strncmp.simps [of m a b n] strncmp.simps [of m a b 0] str_order_simps byte_order_zero)
next
  case (Cons x xs)
  show ?case
  proof (cases "n = 0")
    case True
    then show ?thesis by (simp add: strncmp.simps [of m a b 0] str_order_simps byte_order_zero)
  next
    case False
    then have n: "unat n = Suc (unat (n - 1))"
      by (metis unat_dec unat_gt_0 Suc_pred' word_gt_0)
    show ?thesis
    proof (cases ys)
      case Nil
      with Cons.prems False show ?thesis
        by (simp add: strncmp.simps [of m a b n] n str_order_simps byte_order_zero)
    next
      case (Cons y ys')
      with Cons.prems Cons.IH [of "a + 1" "b + 1" ys' "n - 1"] False show ?thesis
        by (simp add: strncmp.simps [of m a b n] n str_order_simps)
    qed
  qed
qed

lemma tolower_zero [simp]: "tolower 0 = 0"
  by (simp add: tolower_def isupper_def)

lemma lower_byte_zero [simp]: "lower_byte c = 0 \<longleftrightarrow> c = 0"
proof -
  have "tolower (ucast c) = 0 \<longleftrightarrow> c = 0" "unat (tolower (ucast c)) < 256"
    using unsigned_less [of c, where 'a = nat]
    by (auto simp: tolower_def isupper_def word_less_nat_alt unat_sub_if' word_unat_eq_iff unsigned_ucast_eq take_bit_nat_eq_self unat_word_ariths)
  then show ?thesis
    by (auto simp: word_unat_eq_iff unsigned_ucast_eq take_bit_nat_eq_self)
qed

lemma strcasecmp_order:
  "cstr m a xs \<Longrightarrow> cstr m b ys \<Longrightarrow>
    strcasecmp m a b = Some (str_order (map lower_byte xs) (map lower_byte ys))"
proof (induction xs arbitrary: a b ys)
  case Nil
  then show ?case
    by (cases ys) (auto simp: strcasecmp.simps [of m a b] str_order_simps byte_order_zero Let_def)
next
  case (Cons x xs)
  show ?case
  proof (cases ys)
    case Nil
    with Cons.prems show ?thesis
      by (simp add: strcasecmp.simps [of m a b] str_order_simps byte_order_zero Let_def)
  next
    case (Cons y ys')
    with Cons.prems Cons.IH [of "a + 1" "b + 1" ys'] show ?thesis
      by (simp add: strcasecmp.simps [of m a b] str_order_simps Let_def)
  qed
qed

section \<open>Searching\<close>

lemma strchr_loop_cstr:
  "cstr m s xs \<Longrightarrow> strchr_loop m s c = Some (s + of_nat (length (takeWhile (\<lambda>x. x \<noteq> c) xs)))"
proof (induction xs arbitrary: s)
  case Nil
  then show ?case by (subst strchr_loop.simps) simp
next
  case (Cons x xs)
  then show ?case by (subst strchr_loop.simps) simp
qed

lemma strchr_cstr:
  assumes "cstr m s xs"
  shows "strchr m s c =
    Some (if ucast c \<in> set (xs @ [0]) then s + of_nat (length (takeWhile (\<lambda>x. x \<noteq> ucast c) xs)) else 0)"
proof -
  let ?k = "length (takeWhile (\<lambda>x. x \<noteq> ucast c) xs)"
  have k: "?k \<le> length xs" by (rule length_takeWhile_le)
  have "m (s + of_nat ?k) = (xs @ [0]) ! ?k" using assms k by (rule cstr_nth)
  moreover have "(xs @ [0]) ! ?k = ucast c \<longleftrightarrow> ucast c \<in> set (xs @ [0])"
  proof (cases "?k < length xs")
    case True
    then have "xs ! ?k = ucast c" using nth_length_takeWhile by blast
    then show ?thesis using True nth_mem [OF True] by (simp add: nth_append)
  next
    case False
    moreover have "?k + length (dropWhile (\<lambda>x. x \<noteq> ucast c) xs) = length xs"
      by (simp only: length_append [symmetric] takeWhile_dropWhile_id)
    ultimately have "length (dropWhile (\<lambda>x. x \<noteq> ucast c) xs) = 0" by linarith
    then have "ucast c \<notin> set xs" by auto
    with False k show ?thesis by (auto simp: nth_append)
  qed
  ultimately show ?thesis by (simp add: strchr_def strchr_loop_cstr [OF assms])
qed

text \<open>\<open>occurs_at ns hs i\<close>: the needle \<open>ns\<close> is found at index \<open>i\<close> of \<open>hs\<close>.\<close>

definition occurs_at :: "byte list \<Rightarrow> byte list \<Rightarrow> nat \<Rightarrow> bool" where
  "occurs_at ns hs i \<longleftrightarrow> i \<le> length hs \<and> take (length ns) (drop i hs) = ns"

lemma occurs_at_mismatch:
  assumes "j < length ns" "i + j \<le> length hs" "(hs @ [0]) ! (i + j) \<noteq> ns ! j"
  shows "\<not> occurs_at ns hs i"
proof
  assume o: "occurs_at ns hs i"
  then have len: "length ns \<le> length hs - i"
    unfolding occurs_at_def by (metis length_drop length_take min.cobounded1)
  with assms(1) have "ns ! j = hs ! (i + j)"
    using o unfolding occurs_at_def by (metis add.commute le_diff_conv nth_drop nth_take less_le_trans o occurs_at_def)
  moreover have "i + j < length hs" using len assms(1) by linarith
  ultimately show False using assms(3) by (simp add: nth_append)
qed

text \<open>The loop keeps: no occurrence before \<open>i\<close>, and the first \<open>j\<close> bytes match at \<open>i\<close>.\<close>

lemma strstr_loop_cstr:
  assumes "cstr m hs H" "cstr m ns N"
    and "i \<le> length H" "j \<le> length N" "take j N = take j (drop i H)" "i + j \<le> length H"
    and "\<forall>k < i. \<not> occurs_at N H k"
  shows "\<exists>i' j'. strstr_loop m hs ns (of_nat i) (of_nat j) = Some (of_nat i', of_nat j')
    \<and> i' \<le> length H \<and> j' \<le> length N \<and> (\<forall>k < i'. \<not> occurs_at N H k)
    \<and> (if j' = length N then occurs_at N H i' else i' = length H \<and> \<not> occurs_at N H i')"
  using assms(3-)
proof (induction "(length H - i) * Suc (length N) + (length N - j)" arbitrary: i j rule: less_induct)
  case less
  let ?goal = "\<lambda>i j. \<exists>i' j'. strstr_loop m hs ns (of_nat i) (of_nat j) = Some (of_nat i', of_nat j')
    \<and> i' \<le> length H \<and> j' \<le> length N \<and> (\<forall>k < i'. \<not> occurs_at N H k)
    \<and> (if j' = length N then occurs_at N H i' else i' = length H \<and> \<not> occurs_at N H i')"
  have reads: "m (hs + of_nat i) = 0 \<longleftrightarrow> i = length H" "m (ns + of_nat j) = 0 \<longleftrightarrow> j = length N"
      "m (hs + (of_nat i + of_nat j)) = (H @ [0]) ! (i + j)" "m (ns + of_nat j) = (N @ [0]) ! j"
    using cstr_zero_iff [OF assms(1), of i] cstr_zero_iff [OF assms(2), of j] less.prems
      cstr_nth [OF assms(1), of "i + j"] cstr_nth [OF assms(2), of j] by simp_all
  note unfold = strstr_loop.simps [of m hs ns "of_nat i" "of_nat j"] reads(1,2,3)
  consider (stop) "i = length H \<or> j = length N"
    | (match) "i < length H" "j < length N" "(H @ [0]) ! (i + j) = N ! j"
    | (mismatch) "i < length H" "j < length N" "(H @ [0]) ! (i + j) \<noteq> N ! j"
    using less.prems by linarith
  then show "?goal i j"
  proof cases
    case stop
    have "j = length N \<Longrightarrow> occurs_at N H i" using less.prems by (simp add: occurs_at_def)
    moreover have "occurs_at N H i \<Longrightarrow> j = length N" if "i = length H"
      using less.prems that by (simp add: occurs_at_def)
    moreover have "strstr_loop m hs ns (of_nat i) (of_nat j) = Some (of_nat i, of_nat j)"
      unfolding unfold using stop by auto
    ultimately show ?thesis
      using stop less.prems by - (rule exI [of _ i], rule exI [of _ j], auto)
  next
    case match
    have "N ! j \<noteq> 0" using match(2) reads(2,4) by (simp add: nth_append)
    then have in_H: "i + j < length H"
      using match less.prems(4) by (auto simp: nth_append less_le)
    have "take (Suc j) N = take (Suc j) (drop i H)"
      using less.prems(3) match in_H by (simp add: take_Suc_conv_app_nth nth_append)
    then have "?goal i (Suc j)"
      using match in_H less.prems by (intro less.hyps) (auto simp: le_diff_conv)
    moreover have "strstr_loop m hs ns (of_nat i) (of_nat j) = strstr_loop m hs ns (of_nat i) (of_nat (Suc j))"
      using match reads(4) \<open>N ! j \<noteq> 0\<close> by (simp add: unfold nth_append add.commute)
    ultimately show ?thesis by simp
  next
    case mismatch
    have "\<not> occurs_at N H i"
      using occurs_at_mismatch [OF mismatch(2) less.prems(4) mismatch(3)] .
    then have "\<forall>k < Suc i. \<not> occurs_at N H k" using less.prems(5) by (simp add: less_Suc_eq)
    moreover have "(length H - Suc i) * Suc (length N) + (length N - 0)
        < (length H - i) * Suc (length N) + (length N - j)"
    proof -
      have "length H - i = Suc (length H - Suc i)" using mismatch(1) by simp
      then show ?thesis by simp
    qed
    ultimately have "?goal (Suc i) 0"
      using mismatch by (intro less.hyps) auto
    moreover have "strstr_loop m hs ns (of_nat i) (of_nat j) = strstr_loop m hs ns (of_nat (Suc i)) (of_nat 0)"
      using mismatch reads(2,4) by (simp add: unfold nth_append add.commute)
    ultimately show ?thesis by simp
  qed
qed

section \<open>Properties\<close>

definition abc_mem :: mem where
  "abc_mem = (\<lambda>_. 0)(0x100 := 0x61, 0x101 := 0x62, 0x102 := 0x63, 0x200 := 0x62, 0x201 := 0x63)"

lemma abc_cstr: "cstr abc_mem 0x100 [0x61, 0x62, 0x63]" "cstr abc_mem 0x200 [0x62, 0x63]"
  by (simp_all add: abc_mem_def)

text \<open>
  \<open>C25\<close>: \<open>strstr\<close> finds the first occurrence. On terminated strings the search ends and
  returns the address of the least index at which the needle occurs, and the null pointer when
  it does not occur.
\<close>

theorem strstr_first:
  assumes "cstr m hs H" "cstr m ns N"
  shows "strstr m hs ns =
    Some (case find (occurs_at N H) [0..<Suc (length H)] of None \<Rightarrow> 0 | Some i \<Rightarrow> hs + of_nat i)"
proof -
  obtain i j where loop: "strstr_loop m hs ns 0 0 = Some (of_nat i, of_nat j)"
    and le: "i \<le> length H" "j \<le> length N" and first: "\<forall>k < i. \<not> occurs_at N H k"
    and res: "if j = length N then occurs_at N H i else i = length H \<and> \<not> occurs_at N H i"
    using strstr_loop_cstr [OF assms, of 0 0] by auto
  have "find (occurs_at N H) [0..<Suc (length H)] = (if j = length N then Some i else None)"
  proof (cases "j = length N")
    case True
    with res have "occurs_at N H i" by simp
    then have "find (occurs_at N H) [0..<Suc (length H)] = Some i"
      unfolding find_Some_iff using le first by (intro exI [of _ i]) (simp del: upt_Suc)
    with True show ?thesis by simp
  next
    case False
    with res first have "\<not> occurs_at N H k" if "k \<le> length H" for k
      using that by (cases "k = length H") auto
    then show ?thesis using False by (simp add: find_None_iff less_Suc_eq_le del: upt_Suc)
  qed
  then show ?thesis
    using loop cstr_zero_iff [OF assms(2) le(2)] by (simp add: strstr_def)
qed

theorem strstr_first_witness: "strstr abc_mem 0x100 0x200 = Some 0x101"
  using strstr_first [OF abc_cstr] by (simp add: upt_rec occurs_at_def)

text \<open>
  \<open>strlcpy\<close> truncates safely. For a terminated source of length \<open>n\<close> and a non-empty
  buffer that does not overlap the bytes still to be read, it returns \<open>n\<close>, leaves in the buffer
  the first \<open>min n (maxlen - 1)\<close> bytes followed by a terminator, and changes no other byte.
\<close>

theorem strlcpy_truncates:
  assumes "cstr m src xs" "maxlen \<noteq> 0"
  defines "k \<equiv> min (length xs) (unat (maxlen - 1))"
  assumes "of_nat k \<le> dst - src"
  shows "\<exists>m'. strlcpy m dst src maxlen = Some (m', of_nat (length xs))
    \<and> cstr m' dst (take k xs) \<and> (\<forall>x. of_nat k < x - dst \<longrightarrow> m' x = m x)"
proof -
  let ?nn = "of_nat k :: u64"
  have n: "unat (of_nat (length xs) :: u64) = length xs" using assms(1) by (rule cstr_unat_length)
  then have kk: "unat ?nn = k"
    using cstr_length [OF assms(1)] by (intro unat_of_nat_small) (simp add: k_def)
  have "(if of_nat (length xs) > maxlen - 1 then maxlen - 1 else of_nat (length xs)) = ?nn"
    by (auto simp: k_def word_less_nat_alt n min_def)
  then have res: "strlcpy m dst src maxlen = Some ((memcpy_loop m dst src ?nn)(dst + ?nn := 0), of_nat (length xs))"
    using assms(2) by (simp add: strlcpy_def strlen_cstr [OF assms(1)] memcpy_def Let_def)
  let ?m' = "(memcpy_loop m dst src ?nn)(dst + ?nn := 0)"
  have at: "?m' (dst + of_nat i) = xs ! i" if "i < k" for i
  proof -
    have i: "unat (of_nat i :: u64) = i"
      using that kk unsigned_less [of ?nn, where 'a = nat] by (intro unat_of_nat_small) simp
    then have "of_nat i < ?nn" using that kk by (simp add: word_less_nat_alt)
    moreover have "m (src + of_nat i) = xs ! i"
      using cstr_nth [OF assms(1), of i] that by (simp add: k_def nth_append)
    ultimately show ?thesis using assms(4) by (auto simp: memcpy_loop_apply)
  qed
  have len: "length (take k xs) = k" by (simp add: k_def)
  have "bytes ?m' dst k = take k xs"
    by (intro nth_equalityI) (simp_all add: len nth_bytes at del: fun_upd_apply length_take)
  then have "cstr ?m' dst (take k xs)"
    using cstr_nonzero [OF assms(1)] len by (auto simp: cstr_bytes dest: in_set_takeD)
  moreover have "?m' x = m x" if "?nn < x - dst" for x
    using that assms(4) by (auto simp: memcpy_loop_apply)
  ultimately show ?thesis using res by blast
qed

theorem strlcpy_truncates_witness:
  "\<exists>m'. strlcpy abc_mem 0x300 0x100 3 = Some (m', 3) \<and> cstr m' 0x300 [0x61, 0x62]"
  using strlcpy_truncates [OF abc_cstr(1), of 3 "0x300"] by auto



end
