(* ===== verification/CNumber.thy ===== *)
theory CNumber
  imports CString
begin

text \<open>
  Conversion between integers and characters: \<open>from_chars\<close>, \<open>to_chars\<close>, \<open>strtoul\<close> and
  \<open>strtol\<close> of \<open>pset3/lib.cc\<close>. A \<open>from_chars_result\<close> is the pair of an end pointer and an error
  code; the reference argument \<open>value\<close> is passed in and returned. The mathematical value of a
  digit sequence is \<open>horner\<close>.
\<close>

section \<open>Definitions\<close>

abbreviation E_AGAIN :: int where "E_AGAIN \<equiv> - 11"
abbreviation E_NOMEM :: int where "E_NOMEM \<equiv> - 12"
abbreviation E_INVAL :: int where "E_INVAL \<equiv> - 22"
abbreviation E_OVERFLOW :: int where "E_OVERFLOW \<equiv> - 75"
abbreviation E_RANGE :: int where "E_RANGE \<equiv> - 34"

subsection \<open>from_chars\<close>

text \<open>The digit a character stands for; characters are signed.\<close>

definition from_chars_digit :: "byte \<Rightarrow> int \<Rightarrow> u32 option" where
  "from_chars_digit b base =
     (let c = sint b in
      if c \<ge> 48 \<and> c < 48 + base then Some (word_of_int (c - 48))
      else if c \<ge> 97 \<and> c < 97 + base - 10 then Some (word_of_int (c - 97 + 10))
      else if c \<ge> 65 \<and> c < 65 + base - 10 then Some (word_of_int (c - 65 + 10))
      else None)"

function from_chars_loop :: "mem \<Rightarrow> addr \<Rightarrow> addr \<Rightarrow> int \<Rightarrow> u64 \<Rightarrow> bool \<Rightarrow> addr \<times> u64 \<times> bool" where
  "from_chars_loop m s lim base x overflow =
     (if s \<noteq> lim
      then case from_chars_digit (m s) base of
             None \<Rightarrow> (s, x, overflow)
           | Some digit \<Rightarrow>
               if x > (- 1 - ucast digit) div word_of_int base
               then from_chars_loop m (s + 1) lim base x True
               else from_chars_loop m (s + 1) lim base (x * word_of_int base + ucast digit) overflow
      else (s, x, overflow))"
  by pat_completeness auto
termination
  by (relation "measure (\<lambda>(m, s, lim, base, x, overflow). unat (lim - s))")
    (auto simp: diff_diff_eq [symmetric] intro!: unat_dec_less simp: word_gt_0)

declare from_chars_loop.simps [simp del]

definition from_chars :: "mem \<Rightarrow> addr \<Rightarrow> addr \<Rightarrow> u64 \<Rightarrow> int \<Rightarrow> (addr \<times> int) \<times> u64" where
  "from_chars m first lim value base =
     (case from_chars_loop m first lim base 0 False of (s, x, overflow) \<Rightarrow>
        if s = first then ((s, E_INVAL), value)
        else if overflow then ((s, E_RANGE), value)
        else ((s, 0), x))"

definition from_chars_signed :: "mem \<Rightarrow> addr \<Rightarrow> addr \<Rightarrow> u64 \<Rightarrow> int \<Rightarrow> (addr \<times> int) \<times> u64" where
  "from_chars_signed m first lim value base =
     (let negative = (first \<noteq> lim \<and> m first = 0x2D) in
      case from_chars m (first + of_bool negative) lim 0 base of ((p, ec), x) \<Rightarrow>
        if ec = E_INVAL then ((first, E_INVAL), value)
        else if ec = E_RANGE \<or> x > push_bit 63 1 - of_bool (\<not> negative) then ((p, E_RANGE), value)
        else ((p, 0), if negative then - x else x))"

subsection \<open>to_chars\<close>

partial_function (option) to_chars_len :: "u32 \<Rightarrow> u32 \<Rightarrow> u32 \<Rightarrow> u64 \<Rightarrow> u32 \<Rightarrow> u32 option" where
  "to_chars_len base b2 b3 v n =
     (let n' = (if v < ucast base then n + 1 else if v < ucast b2 then n + 2 else n + 3) in
      if v < ucast b3 then Some n' else to_chars_len base b2 b3 (v div ucast b3) n')"

definition digit_char :: "u32 \<Rightarrow> byte" where
  "digit_char digit = ucast (if digit < 10 then 48 + digit else 97 + digit - 10)"

function to_chars_digits :: "mem \<Rightarrow> addr \<Rightarrow> addr \<Rightarrow> u64 \<Rightarrow> u64 \<Rightarrow> mem" where
  "to_chars_digits m s first value base =
     (if s > first
      then to_chars_digits (m(s - 1 := digit_char (ucast (value mod base)))) (s - 1) first
             (value div base) base
      else m)"
  by pat_completeness auto
termination
  by (relation "measure (\<lambda>(m, s, first, value, base). unat s)")
    (auto intro!: unat_dec_less simp: word_gt_0)

declare to_chars_digits.simps [simp del]

text \<open>\<open>None\<close> stands for a length loop that does not end or divides by zero (base 0 or 1).\<close>

definition to_chars :: "mem \<Rightarrow> addr \<Rightarrow> addr \<Rightarrow> u64 \<Rightarrow> int \<Rightarrow> (mem \<times> addr \<times> int) option" where
  "to_chars m first lim value base =
     (let b = word_of_int base :: u32; b2 = b * b; b3 = b2 * b in
      map_option (\<lambda>n.
        if sint (lim - first) < uint n then (m, lim, E_OVERFLOW)
        else (to_chars_digits m (first + ucast n) first value (word_of_int base), first + ucast n, 0))
      (to_chars_len b b2 b3 value 0))"

definition to_chars_signed :: "mem \<Rightarrow> addr \<Rightarrow> addr \<Rightarrow> u64 \<Rightarrow> int \<Rightarrow> (mem \<times> addr \<times> int) option" where
  "to_chars_signed m first lim value base =
     (if first = lim then Some (m, lim, E_OVERFLOW)
      else if sint value < 0 then to_chars (m(first := 0x2D)) (first + 1) lim (- value) base
      else to_chars m first lim value base)"

subsection \<open>strtoul and strtol\<close>

definition strtol_fix_base :: "mem \<Rightarrow> addr \<Rightarrow> int \<Rightarrow> addr \<times> int" where
  "strtol_fix_base m t base =
     (if base = 0
      then if m t = 0x30
           then if m (t + 1) = 0x78 \<or> m (t + 1) = 0x58 then (t + 2, 16)
                else if m (t + 1) = 0x6F \<or> m (t + 1) = 0x4F then (t + 2, 8)
                else if m (t + 1) = 0x62 \<or> m (t + 1) = 0x42 then (t + 2, 2)
                else (t, 8)
           else (t, 10)
      else if base = 16 \<and> m t = 0x30 \<and> (m (t + 1) = 0x78 \<or> m (t + 1) = 0x58) then (t + 2, base)
      else (t, base))"

partial_function (option) skip_space :: "mem \<Rightarrow> addr \<Rightarrow> addr option" where
  "skip_space m t = (if isspace (scast (m t)) then skip_space m (t + 1) else Some t)"

text \<open>The common start of the two functions: spaces, sign, base prefix and digits.\<close>

definition strto_parse :: "mem \<Rightarrow> addr \<Rightarrow> int \<Rightarrow> (bool \<times> (addr \<times> int) \<times> u64) option" where
  "strto_parse m s base =
     map_option (\<lambda>t.
       let negative = (m t = 0x2D);
           t1 = (if negative \<or> m t = 0x2B then t + 1 else t)
       in case strtol_fix_base m t1 base of (t2, base') \<Rightarrow> (negative, from_chars m t2 0 0 base'))
     (skip_space m s)"

text \<open>The results are the value and what is stored through \<open>endptr\<close>.\<close>

definition strtoul :: "mem \<Rightarrow> addr \<Rightarrow> int \<Rightarrow> (u64 \<times> addr) option" where
  "strtoul m s base =
     map_option (\<lambda>(negative, (p, ec), x).
       let x' = (if ec = E_RANGE then - 1 else x)
       in (if negative then - x' else x', if ec = E_INVAL then s else p))
     (strto_parse m s base)"

definition strtol :: "mem \<Rightarrow> addr \<Rightarrow> int \<Rightarrow> (u64 \<times> addr) option" where
  "strtol m s base =
     map_option (\<lambda>(negative, (p, ec), x).
       let bound = push_bit 63 1 - of_bool (\<not> negative);
           x' = (if ec = E_RANGE \<or> x > bound then bound else x)
       in (if negative then - x' else x', if ec = E_INVAL then s else p))
     (strto_parse m s base)"

section \<open>The value of a digit sequence\<close>

definition horner :: "nat \<Rightarrow> nat list \<Rightarrow> nat \<Rightarrow> nat" where
  "horner base ds acc = foldl (\<lambda>x d. x * base + d) acc ds"

lemma horner_simps [simp]:
  "horner base [] acc = acc" "horner base (d # ds) acc = horner base ds (acc * base + d)"
  by (simp_all add: horner_def)

lemma horner_append [simp]: "horner base (xs @ ys) acc = horner base ys (horner base xs acc)"
  by (simp add: horner_def)

lemma horner_ge: "0 < base \<Longrightarrow> acc \<le> horner base ds acc"
proof (induction ds arbitrary: acc)
  case (Cons d ds)
  have "acc \<le> acc * base + d" using Cons.prems by (cases base) simp_all
  also have "\<dots> \<le> horner base ds (acc * base + d)" using Cons by simp
  finally show ?case by simp
qed simp

text \<open>The digits a string starts with.\<close>

fun digit_prefix :: "int \<Rightarrow> byte list \<Rightarrow> nat list" where
  "digit_prefix base [] = []"
| "digit_prefix base (b # bs) =
     (case from_chars_digit b base of None \<Rightarrow> [] | Some d \<Rightarrow> unat d # digit_prefix base bs)"

lemma digit_prefix_length: "length (digit_prefix base bs) \<le> length bs"
  by (induction bs) (auto split: option.splits)

lemma from_chars_digit_less:
  assumes "from_chars_digit b base = Some d" "base \<le> 36"
  shows "int (unat d) < base"
proof -
  have "\<exists>k. d = word_of_int k \<and> 0 \<le> k \<and> k < base"
    using assms(1) unfolding from_chars_digit_def Let_def
    by (auto simp del: of_int_diff of_int_add split: if_splits intro!: exI)
  then obtain k where k: "d = word_of_int k" "0 \<le> k" "k < base" by blast
  then have "take_bit 32 k = k" using assms(2) by (intro take_bit_int_eq_self) simp_all
  with k show ?thesis by (simp add: unsigned_of_int)
qed

lemma from_chars_overflow_check:
  fixes x :: u64
  assumes "2 \<le> base" "base \<le> 36" "int (unat d) < base"
  shows "x > (- 1 - ucast (d :: u32)) div word_of_int base \<longleftrightarrow> unat x * nat base + unat d \<ge> 2 ^ 64"
    and "\<not> unat x * nat base + unat d \<ge> 2 ^ 64 \<Longrightarrow>
      unat (x * word_of_int base + ucast d) = unat x * nat base + unat d"
proof -
  have b: "unat (word_of_int base :: u64) = nat base"
    using assms by (simp add: unsigned_of_int take_bit_int_eq_self)
  have d: "unat (ucast d :: u64) = unat d"
    using unsigned_less [of d, where 'a = nat] by (simp add: unsigned_ucast_eq take_bit_nat_eq_self)
  have small: "unat d < 36" using assms by linarith
  have "unat (- 1 - ucast d :: u64) = 2 ^ 64 - 1 - unat d"
    using small by (simp add: unat_sub_if' d unsigned_minus_1_eq_mask mask_eq_exp_minus_1)
  then have "x > (- 1 - ucast d) div word_of_int base \<longleftrightarrow> (2 ^ 64 - 1 - unat d) div nat base < unat x"
    by (simp add: word_less_nat_alt unat_div b)
  also have "\<dots> \<longleftrightarrow> 2 ^ 64 - 1 - unat d < unat x * nat base"
    using assms by (intro div_less_iff_less_mult) simp
  also have "\<dots> \<longleftrightarrow> 2 ^ 64 \<le> unat x * nat base + unat d"
    using small by auto
  finally show "x > (- 1 - ucast d) div word_of_int base \<longleftrightarrow> unat x * nat base + unat d \<ge> 2 ^ 64" .
  assume "\<not> unat x * nat base + unat d \<ge> 2 ^ 64"
  then have less: "unat x * nat base < 2 ^ 64" "unat x * nat base + unat d < 2 ^ 64" by linarith+
  then show "unat (x * word_of_int base + ucast d) = unat x * nat base + unat d"
    by (simp add: unat_word_ariths b d)
qed

lemma from_chars_loop_spec:
  assumes "2 \<le> base" "base \<le> 36"
    and "from_chars_loop m s lim base x ov = (s', x', ov')"
  defines "ds \<equiv> digit_prefix base (bytes m s (unat (lim - s)))"
  shows "s' = s + of_nat (length ds)"
    and "ov' \<longleftrightarrow> ov \<or> horner (nat base) ds (unat x) \<ge> 2 ^ 64"
    and "\<not> ov' \<Longrightarrow> unat x' = horner (nat base) ds (unat x)"
proof -
  have "s' = s + of_nat (length ds) \<and> (ov' \<longleftrightarrow> ov \<or> horner (nat base) ds (unat x) \<ge> 2 ^ 64)
      \<and> (\<not> ov' \<longrightarrow> unat x' = horner (nat base) ds (unat x))"
    using assms(3) unfolding ds_def
  proof (induction "unat (lim - s)" arbitrary: s x ov)
    case 0
    then have "s = lim" by (simp add: unat_eq_zero)
    with 0 show ?case
      using unsigned_less [of x, where 'a = nat] by (auto simp: from_chars_loop.simps [of m lim lim])
  next
    case (Suc n)
    then have ne: "s \<noteq> lim" by auto
    have n: "unat (lim - (s + 1)) = n"
      using Suc.hyps(2) unat_dec [of "lim - s"] ne by (auto simp: diff_diff_eq word_gt_0)
    have bytes: "bytes m s (unat (lim - s)) = m s # bytes m (s + 1) n"
      by (simp add: Suc.hyps(2) [symmetric])
    note unfold = Suc.prems [unfolded from_chars_loop.simps [of m s lim base x ov]]
    note IH = Suc.hyps(1) [of "s + 1", unfolded n, OF refl]
    show ?case
    proof (cases "from_chars_digit (m s) base")
      case None
      then have e: "digit_prefix base (bytes m s (unat (lim - s))) = []" by (simp add: bytes)
      show ?thesis
        unfolding e using None unfold ne unsigned_less [of x, where 'a = nat] by auto
    next
      case (Some d)
      have "int (unat d) < base" using Some assms(2) by (rule from_chars_digit_less)
      note check = from_chars_overflow_check [OF assms(1,2) this, of x]
      let ?ds = "digit_prefix base (bytes m (s + 1) n)"
      show ?thesis
      proof (cases "unat x * nat base + unat d \<ge> 2 ^ 64")
        case True
        then have "from_chars_loop m (s + 1) lim base x True = (s', x', ov')"
          using unfold ne Some check(1) by simp
        moreover have "2 ^ 64 \<le> horner (nat base) ?ds (unat x * nat base + unat d)"
          using True horner_ge [of "nat base"] assms(1) order_trans by fastforce
        ultimately show ?thesis using IH [of x True] Some by (simp add: bytes add.assoc)
      next
        case False
        then have "from_chars_loop m (s + 1) lim base (x * word_of_int base + ucast d) ov = (s', x', ov')"
          using unfold ne Some check(1) by simp
        from IH [OF this] show ?thesis using Some check(2) [OF False] by (simp add: bytes add.assoc)
      qed
    qed
  qed
  then show "s' = s + of_nat (length ds)" "ov' \<longleftrightarrow> ov \<or> horner (nat base) ds (unat x) \<ge> 2 ^ 64"
    "\<not> ov' \<Longrightarrow> unat x' = horner (nat base) ds (unat x)" by auto
qed

lemma from_chars_spec:
  assumes "2 \<le> base" "base \<le> 36"
  shows "from_chars m first lim value base =
    (let ds = digit_prefix base (bytes m first (unat (lim - first)));
         v = horner (nat base) ds 0; end_ptr = first + of_nat (length ds)
     in if ds = [] then ((first, E_INVAL), value)
        else if v \<ge> 2 ^ 64 then ((end_ptr, E_RANGE), value)
        else ((end_ptr, 0), of_nat v))"
proof -
  obtain s' x' ov' where r: "from_chars_loop m first lim base 0 False = (s', x', ov')"
    using prod_cases3 by blast
  note spec = from_chars_loop_spec [OF assms r]
  let ?ds = "digit_prefix base (bytes m first (unat (lim - first)))"
  have "length ?ds < 2 ^ 64"
    using digit_prefix_length [of base "bytes m first (unat (lim - first))"]
      unsigned_less [of "lim - first", where 'a = nat] by simp
  then have "(of_nat (length ?ds) :: u64) = 0 \<longleftrightarrow> ?ds = []"
    using unat_of_nat_small [of "length ?ds"] by (simp add: word_unat_eq_iff)
  then have "s' = first \<longleftrightarrow> ?ds = []" using spec(1) by simp
  moreover have "x' = of_nat (horner (nat base) ?ds 0)" if "\<not> ov'"
  proof -
    have "horner (nat base) ?ds 0 = unat x'" using spec(3) [OF that] by simp
    then show ?thesis by simp
  qed
  ultimately show ?thesis
    using spec(1,2) by (auto simp: from_chars_def r Let_def)
qed

section \<open>Unparsing\<close>

fun ndigits :: "nat \<Rightarrow> nat \<Rightarrow> nat" where
  "ndigits base v = (if v < base \<or> base < 2 then 1 else Suc (ndigits base (v div base)))"

declare ndigits.simps [simp del]

lemma ndigits_step: "2 \<le> base \<Longrightarrow> base \<le> v \<Longrightarrow> ndigits base v = Suc (ndigits base (v div base))"
  by (subst ndigits.simps) simp

lemma ndigits_one: "v < base \<Longrightarrow> ndigits base v = 1"
  by (subst ndigits.simps) simp

lemma ndigits_power:
  assumes "2 \<le> base"
  shows "v < base ^ ndigits base v" and "ndigits base v = Suc n \<Longrightarrow> n > 0 \<Longrightarrow> base ^ n \<le> v"
proof -
  have "v < base ^ ndigits base v \<and> (\<forall>n > 0. ndigits base v = Suc n \<longrightarrow> base ^ n \<le> v)"
  proof (induction v rule: less_induct)
    case (less v)
    show ?case
    proof (cases "v < base")
      case True
      then show ?thesis by (simp add: ndigits_one)
    next
      case False
      then have step: "ndigits base v = Suc (ndigits base (v div base))"
        using ndigits_step assms by simp
      have "v div base < v" using False assms by (intro div_less_dividend) simp_all
      note IH = less.IH [OF this]
      have "v < base * base ^ ndigits base (v div base)"
        using IH assms by (simp add: div_less_iff_less_mult mult.commute)
      moreover have "base ^ ndigits base (v div base) \<le> v"
      proof (cases "ndigits base (v div base)")
        case (Suc k)
        show ?thesis
        proof (cases "k = 0")
          case True
          with Suc False show ?thesis by simp
        next
          case False
          then have "base ^ k \<le> v div base" using IH Suc by simp
          then have "base ^ k * base \<le> v" using assms by (simp add: less_eq_div_iff_mult_less_eq)
          then show ?thesis by (simp add: Suc mult.commute)
        qed
      qed (use False assms in simp)
      ultimately show ?thesis using step by auto
    qed
  qed
  then show "v < base ^ ndigits base v" "ndigits base v = Suc n \<Longrightarrow> n > 0 \<Longrightarrow> base ^ n \<le> v"
    by auto
qed

lemma ndigits_bound:
  assumes "2 \<le> base"
  shows "ndigits base (unat (v :: u64)) \<le> 64" "0 < ndigits base x"
proof -
  show "0 < ndigits base x" by (subst ndigits.simps) simp
  show "ndigits base (unat v) \<le> 64"
  proof (rule ccontr)
    assume "\<not> ndigits base (unat v) \<le> 64"
    then obtain n where n: "ndigits base (unat v) = Suc n" "64 \<le> n"
      by (cases "ndigits base (unat v)") auto
    have "2 ^ 64 \<le> base ^ n"
      using assms n(2) by (metis order_trans power_increasing power_mono one_le_numeral zero_le_numeral)
    also have "\<dots> \<le> unat v" using ndigits_power(2) [OF assms n(1)] n(2) by simp
    finally show False using unsigned_less [of v, where 'a = nat] by simp
  qed
qed

lemma to_chars_len_ndigits:
  assumes B: "2 \<le> B" and u: "unat (ucast b :: u64) = B" "unat (ucast b2 :: u64) = B * B"
    "unat (ucast b3 :: u64) = B * B * B"
  shows "to_chars_len b b2 b3 v n = Some (n + of_nat (ndigits B (unat v)))"
proof (induction "unat v" arbitrary: v n rule: less_induct)
  case less
  have lt: "B < B * B" "B * B < B * B * B" "0 < B" using B by simp_all
  let ?v = "unat v"
  note unfold = to_chars_len.simps [of b b2 b3 v n]
  have one: "ndigits B ?v = Suc (ndigits B (?v div B))" if "B \<le> ?v" using that by (rule ndigits_step [OF B])
  have two: "ndigits B (?v div B) = Suc (ndigits B (?v div (B * B)))" if "B * B \<le> ?v"
    using that ndigits_step [OF B, of "?v div B"] lt(3)
    by (simp add: div_mult2_eq less_eq_div_iff_mult_less_eq)
  have three: "ndigits B (?v div (B * B)) = Suc (ndigits B (?v div (B * B * B)))" if "B * B * B \<le> ?v"
    using that ndigits_step [OF B, of "?v div (B * B)"] lt(3)
    by (simp add: div_mult2_eq less_eq_div_iff_mult_less_eq mult.assoc)
  consider "?v < B" | "B \<le> ?v" "?v < B * B" | "B * B \<le> ?v" "?v < B * B * B" | "B * B * B \<le> ?v"
    by linarith
  then show ?case
  proof cases
    case 1
    then have "?v < B * B * B" using lt by linarith
    with 1 show ?thesis by (simp add: unfold word_less_nat_alt u ndigits_one)
  next
    case 2
    then have "ndigits B ?v = 2"
      using one ndigits_one [of "?v div B" B] by (simp add: div_less_iff_less_mult lt)
    moreover have "?v < B * B * B" using 2 lt by linarith
    ultimately show ?thesis using 2 by (simp add: unfold word_less_nat_alt u)
  next
    case 3
    then have "ndigits B ?v = 3"
      using one two lt ndigits_one [of "?v div (B * B)" B]
      by (simp add: div_less_iff_less_mult mult.assoc)
    moreover have "\<not> ?v < B" using 3 lt by linarith
    ultimately show ?thesis using 3 by (simp add: unfold word_less_nat_alt u)
  next
    case 4
    then have n: "ndigits B ?v = 3 + ndigits B (?v div (B * B * B))"
      using one two three lt by simp
    have d: "unat (v div ucast b3) = ?v div (B * B * B)" by (simp add: unat_div u)
    also have "\<dots> < ?v" using 4 lt by (intro div_less_dividend) linarith+
    finally have "to_chars_len b b2 b3 (v div ucast b3) (n + 3) =
        Some (n + 3 + of_nat (ndigits B (?v div (B * B * B))))"
      using less.hyps [of "v div ucast b3" "n + 3"] by (simp add: d)
    moreover have "\<not> ?v < B" "\<not> ?v < B * B" using 4 lt by linarith+
    ultimately show ?thesis using 4 by (simp add: unfold word_less_nat_alt u n)
  qed
qed

text \<open>The \<open>n\<close> low digits of a number, most significant first.\<close>

primrec digits :: "nat \<Rightarrow> nat \<Rightarrow> nat \<Rightarrow> nat list" where
  "digits B 0 v = []"
| "digits B (Suc n) v = digits B n (v div B) @ [v mod B]"

lemma length_digits [simp]: "length (digits B n v) = n"
  by (induction n arbitrary: v) simp_all

lemma digits_less: "0 < B \<Longrightarrow> d \<in> set (digits B n v) \<Longrightarrow> d < B"
  by (induction n arbitrary: v) auto

lemma horner_digits: "0 < B \<Longrightarrow> horner B (digits B n v) 0 = v mod B ^ n"
proof (induction n arbitrary: v)
  case (Suc n)
  then show ?case by (simp add: mod_mult2_eq)
qed simp

lemma bytes_upd_outside:
  assumes "n \<le> unat (x - a)"
  shows "bytes (m(x := v)) a n = bytes m a n"
proof (rule bytes_cong)
  fix i assume "i < n"
  have "a + of_nat i \<noteq> x"
  proof
    assume "a + of_nat i = x"
    then have "x - a = of_nat i" by (simp add: algebra_simps)
    moreover have "unat (of_nat i :: u64) \<le> i" by (simp add: unat_of_nat)
    ultimately show False using assms \<open>i < n\<close> by simp
  qed
  then show "(m(x := v)) (a + of_nat i) = m (a + of_nat i)" by simp
qed

lemma bytes_Suc_end: "bytes m a (Suc n) = bytes m a n @ [m (a + of_nat n)]"
  using bytes_append [of m a n 1] by simp

lemma to_chars_digits_spec:
  fixes m :: mem and val base :: u64
  assumes "unat first + n < 2 ^ 64" "0 < base"
  defines "m' \<equiv> to_chars_digits m (first + of_nat n) first val base"
  shows "bytes m' first n = map (\<lambda>d. digit_char (of_nat d)) (digits (unat base) n (unat val))"
    and "n \<le> unat (x - first) \<Longrightarrow> m' x = m x"
proof -
  have "bytes m' first n = map (\<lambda>d. digit_char (of_nat d)) (digits (unat base) n (unat val))
      \<and> (\<forall>x. n \<le> unat (x - first) \<longrightarrow> m' x = m x)"
    unfolding m'_def using assms(1)
  proof (induction n arbitrary: m val)
    case 0
    then show ?case by (simp add: to_chars_digits.simps [of m first first])
  next
    case (Suc n)
    let ?m = "m(first + of_nat n := digit_char (ucast (val mod base)))"
    let ?r = "to_chars_digits ?m (first + of_nat n) first (val div base) base"
    have n: "unat (of_nat (Suc n) :: u64) = Suc n" "unat (of_nat n :: u64) = n"
      using Suc.prems by (simp_all del: of_nat_Suc add: unat_of_nat)
    then have "unat (first + of_nat (Suc n)) = unat first + Suc n"
      using Suc.prems unat_add_lem [of first "of_nat (Suc n)"] by (simp del: of_nat_Suc)
    then have gt: "first + of_nat (Suc n) > first" by (simp add: word_less_nat_alt del: of_nat_Suc)
    have r: "to_chars_digits m (first + of_nat (Suc n)) first val base = ?r"
      using gt by (subst to_chars_digits.simps) simp
    have IH: "bytes ?r first n = map (\<lambda>d. digit_char (of_nat d)) (digits (unat base) n (unat (val div base)))"
      "\<And>x. n \<le> unat (x - first) \<Longrightarrow> ?r x = ?m x"
      using Suc.IH [of ?m "val div base"] Suc.prems by (simp_all del: fun_upd_apply)
    have "(ucast (val mod base) :: u32) = of_nat (unat val mod unat base)"
      by (simp add: word_unat_eq_iff unsigned_ucast_eq unat_of_nat unat_mod take_bit_eq_mod)
    then have "?r (first + of_nat n) = digit_char (of_nat (unat val mod unat base))"
      using IH(2) [of "first + of_nat n"] n by simp
    with IH(1) have "bytes ?r first (Suc n) =
        map (\<lambda>d. digit_char (of_nat d)) (digits (unat base) (Suc n) (unat val))"
      by (simp only: bytes_Suc_end) (simp add: unat_div)
    moreover have "?r x = m x" if "Suc n \<le> unat (x - first)" for x
    proof -
      have "x \<noteq> first + of_nat n" using that n(2) by auto
      then show ?thesis using IH(2) [of x] that by simp
    qed
    ultimately show ?case by (simp only: r) blast
  qed
  then show "bytes m' first n = map (\<lambda>d. digit_char (of_nat d)) (digits (unat base) n (unat val))"
    "n \<le> unat (x - first) \<Longrightarrow> m' x = m x" by blast+
qed

text \<open>Reading back a digit character.\<close>

lemma sint_small_byte: "k < 128 \<Longrightarrow> sint (of_nat k :: byte) = int k"
  by (simp add: sint_uint signed_take_bit_eq_take_bit_shift uint_nat unat_of_nat take_bit_eq_mod)

lemma ucast_byte_of_nat: "k < 256 \<Longrightarrow> (ucast (of_nat k :: u32) :: byte) = of_nat k"
  by (simp add: word_unat_eq_iff unsigned_ucast_eq unat_of_nat take_bit_eq_mod)

lemma from_chars_digit_char:
  assumes "int d < base" "base \<le> 36"
  shows "from_chars_digit (digit_char (of_nat d)) base = Some (of_nat d)"
proof -
  have d: "d < 36" using assms by linarith
  then have u: "unat (of_nat d :: u32) = d" by (simp add: unat_of_nat)
  show ?thesis
  proof (cases "d < 10")
    case True
    then have "(of_nat d :: u32) < 10" by (simp add: word_less_nat_alt u)
    then have "digit_char (of_nat d) = of_nat (48 + d)"
      using True ucast_byte_of_nat [of "48 + d"] by (simp add: digit_char_def)
    then have "sint (digit_char (of_nat d)) = 48 + int d"
      using True sint_small_byte [of "48 + d"] by (simp del: of_nat_add)
    then show ?thesis using assms by (simp add: from_chars_digit_def)
  next
    case False
    then have "\<not> (of_nat d :: u32) < 10" by (simp add: word_less_nat_alt u)
    then have "digit_char (of_nat d) = of_nat (87 + d)"
      using d ucast_byte_of_nat [of "87 + d"] by (simp add: digit_char_def algebra_simps)
    then have "sint (digit_char (of_nat d)) = 87 + int d"
      using False d sint_small_byte [of "87 + d"] by (simp del: of_nat_add)
    then show ?thesis using assms False by (simp add: from_chars_digit_def)
  qed
qed

lemma digit_prefix_digits:
  assumes "base \<le> 36" "\<And>d. d \<in> set ds \<Longrightarrow> int d < base"
  shows "digit_prefix base (map (\<lambda>d. digit_char (of_nat d)) ds) = ds"
  using assms(2)
proof (induction ds)
  case (Cons d ds)
  then have "int d < base" by simp
  then have "from_chars_digit (digit_char (of_nat d)) base = Some (of_nat d)" "d < 36"
    using from_chars_digit_char assms(1) by simp_all
  with Cons show ?case by (simp add: unat_of_nat)
qed simp

lemma to_chars_spec:
  fixes v :: u64
  assumes "2 \<le> base" "base \<le> 36" "first \<le> lim" "unat (lim - first) < 2 ^ 63"
  defines "n \<equiv> ndigits (nat base) (unat v)"
  shows "to_chars m first lim v base =
    Some (if n \<le> unat (lim - first)
      then (to_chars_digits m (first + of_nat n) first v (word_of_int base), first + of_nat n, 0)
      else (m, lim, E_OVERFLOW))"
proof -
  define B where "B = nat base"
  have B: "2 \<le> B" "B \<le> 36" using assms(1,2) by (simp_all add: B_def)
  have base: "base = int B" using assms(1) by (simp add: B_def)
  have le: "B * B \<le> 36 * 36" "B * B * B \<le> 36 * 36 * 36"
    using B(2) by (simp_all only: mult_le_mono)
  have u: "unat (ucast (word_of_int base :: u32) :: u64) = B"
      "unat (ucast (word_of_int base * word_of_int base :: u32) :: u64) = B * B"
      "unat (ucast (word_of_int base * word_of_int base * word_of_int base :: u32) :: u64) = B * B * B"
    using B le unfolding base of_int_of_nat_eq of_nat_mult [symmetric]
    by (simp_all add: unsigned_ucast_eq unat_of_nat take_bit_nat_eq_self del: of_nat_mult)
  have n: "n \<le> 64" using ndigits_bound(1) [OF B(1), of v] by (simp add: n_def B_def)
  then have n32: "unat (of_nat n :: u32) = n" by (simp add: unat_of_nat)
  then have nn: "(ucast (of_nat n :: u32) :: u64) = of_nat n"
    using n by (simp add: word_unat_eq_iff unsigned_ucast_eq unat_of_nat take_bit_nat_eq_self)
  have "sint (lim - first) = int (unat (lim - first))"
    using assms(4) by (rule sint_low)
  moreover have "uint (of_nat n :: u32) = int n" using n32 by (simp add: uint_nat)
  moreover have "to_chars_len (word_of_int base) (word_of_int base * word_of_int base)
      (word_of_int base * word_of_int base * word_of_int base) v 0 = Some (of_nat n)"
    using to_chars_len_ndigits [OF B(1) u, of v 0] by (simp only: n_def B_def add_0)
  ultimately show ?thesis
    by (simp only: to_chars_def Let_def option.map nn) (simp add: not_le uint_less_iff)
qed

section \<open>Clamping\<close>

lemma strtol_fix_base_range:
  assumes "strtol_fix_base m t base = (t', b)" "base = 0 \<or> 2 \<le> base \<and> base \<le> 36"
  shows "2 \<le> b \<and> b \<le> 36"
  using assms by (auto simp: strtol_fix_base_def split: if_splits)

lemma sint_neg_word:
  assumes "unat (x :: u64) \<le> 2 ^ 63"
  shows "sint (- x) = - int (unat x)"
proof -
  have "- (2 ^ 63) \<le> - int (unat x)"
    using of_nat_mono [OF assms, where 'a = int] by simp
  moreover have "- int (unat x) < 2 ^ 63" by (rule le_less_trans [of _ 0]) simp_all
  ultimately have "signed_take_bit 63 (- int (unat x)) = - int (unat x)"
    by (simp add: signed_take_bit_int_eq_self)
  moreover have "- x = word_of_int (- int (unat x))" by simp
  then have "sint (- x) = signed_take_bit 63 (- int (unat x))"
    by (simp only: signed_of_int) simp
  ultimately show ?thesis by simp
qed

abbreviation clamp_long :: "int \<Rightarrow> int" where
  "clamp_long v \<equiv> max (- (2 ^ 63)) (min (2 ^ 63 - 1) v)"

lemma strtol_clamp_value:
  fixes x :: u64 and V :: nat and neg :: bool
  assumes "\<not> range_err \<Longrightarrow> unat x = V" "range_err \<Longrightarrow> V \<ge> 2 ^ 64"
  defines "bound \<equiv> push_bit 63 1 - of_bool (\<not> neg)"
  defines "x' \<equiv> (if range_err \<or> x > bound then bound else x)"
  shows "sint (if neg then - x' else x') = clamp_long (if neg then - int V else int V)"
proof -
  have bound: "unat bound = 2 ^ 63 - of_bool (\<not> neg)"
    by (cases neg) (simp_all add: bound_def unat_sub word_le_nat_alt)
  have x': "unat x' = min V (2 ^ 63 - of_bool (\<not> neg))"
    using assms(1,2) by (cases range_err) (auto simp: x'_def word_less_nat_alt bound min_def)
  show ?thesis
  proof (cases neg)
    case True
    then show ?thesis using sint_neg_word [of x'] by (simp add: x' of_nat_min min_def max_def)
  next
    case False
    then have "unat x' < 2 ^ 63" by (simp add: x')
    then show ?thesis using False sint_low [of x'] by (auto simp: x' min_def max_def)
  qed
qed

section \<open>Properties\<close>


definition digits_mem :: mem where
  "digits_mem = (\<lambda>_. 0)(0x100 := 0x34, 0x101 := 0x32, 0x102 := 0x78)"


text \<open>
  \<open>C13\<close>: unparsing and parsing are inverse. For a base from 2 to 36 and a buffer below \<open>2^63\<close>
  bytes, \<open>to_chars\<close> returns: when the digits of the value fit, it changes only their bytes, and
  \<open>from_chars\<close> on the bytes written gives back the value and the end pointer; when they do not
  fit, it returns \<open>E_OVERFLOW\<close> and changes no byte.
\<close>

theorem to_chars_from_chars:
  assumes "2 \<le> base" "base \<le> 36" "first \<le> lim" "unat (lim - first) < 2 ^ 63"
  shows "\<exists>m' p ec. to_chars m first lim v base = Some (m', p, ec)
    \<and> (if ndigits (nat base) (unat v) \<le> unat (lim - first)
       then ec = 0 \<and> first < p \<and> p \<le> lim \<and> from_chars m' first p w base = ((p, 0), v)
         \<and> (\<forall>x. p - first \<le> x - first \<longrightarrow> m' x = m x)
       else m' = m \<and> p = lim \<and> ec = E_OVERFLOW)"
proof (cases "ndigits (nat base) (unat v) \<le> unat (lim - first)")
  case True
  define n where "n = ndigits (nat base) (unat v)"
  let ?p = "first + of_nat n" and ?b = "word_of_int base :: u64"
  let ?m = "to_chars_digits m ?p first v ?b"
  have B: "2 \<le> nat base" "unat ?b = nat base" "0 < ?b"
    using assms(1,2) by (simp_all add: unsigned_of_int take_bit_int_eq_self word_gt_0 word_unat_eq_iff)
  have n: "0 < n" "n \<le> unat (lim - first)"
    using True ndigits_bound(2) [OF B(1)] by (simp_all add: n_def)
  have lim: "unat lim = unat first + unat (lim - first)"
    using assms(3) by (simp add: unat_sub word_le_nat_alt)
  then have fits: "unat first + n < 2 ^ 64"
    using n(2) unsigned_less [of lim, where 'a = nat] by simp
  then have u: "unat (of_nat n :: u64) = n" by (intro unat_of_nat_small) simp
  then have p: "unat ?p = unat first + n"
    using fits unat_add_lem [of first "of_nat n"] by simp
  note spec = to_chars_digits_spec [OF fits B(3), where m = m and val = v, unfolded B(2)]
  have "digit_prefix base (bytes ?m first n) = digits (nat base) n (unat v)"
    unfolding spec(1) using assms(1,2) digits_less [of "nat base" _ n "unat v"]
    by (intro digit_prefix_digits) (simp_all, fastforce)
  moreover have "horner (nat base) (digits (nat base) n (unat v)) 0 = unat v"
    using ndigits_power(1) [OF B(1), of "unat v"] B(1) by (simp add: horner_digits n_def)
  moreover have "digits (nat base) n (unat v) \<noteq> []"
    using n(1) by (metis length_0_conv length_digits less_irrefl)
  ultimately have "from_chars ?m first ?p w base = ((?p, 0), v)"
    using from_chars_spec [OF assms(1,2), of ?m first ?p w] unsigned_less [of v, where 'a = nat]
    by (simp add: u Let_def)
  moreover have "first < ?p" "?p \<le> lim" using n lim by (simp_all add: word_less_nat_alt word_le_nat_alt p)
  moreover have "to_chars m first lim v base = Some (?m, ?p, 0)"
    using to_chars_spec [OF assms, where v = v and m = m] True by (simp add: n_def)
  moreover have "?m x = m x" if "?p - first \<le> x - first" for x
    using that by (intro spec(2)) (simp add: word_le_nat_alt u)
  ultimately show ?thesis using True by auto
next
  case False
  then show ?thesis using to_chars_spec [OF assms, where v = v and m = m] by simp
qed

theorem to_chars_from_chars_witness:
  "\<exists>m' p. to_chars (\<lambda>_. 0) 0x100 0x110 1000 16 = Some (m', p, 0) \<and> from_chars m' 0x100 p 0 16 = ((p, 0), 1000)"
proof -
  have "ndigits 16 1000 = 3" by (simp add: ndigits.simps)
  then show ?thesis
    using to_chars_from_chars [of 16 "0x100" "0x110" "\<lambda>_. 0" 1000 0] by auto
qed

text \<open>
  \<open>strtol\<close> returns the exact integer, clamped to the range of \<open>long\<close>. For base 0 or a
  base from 2 to 36, and any string with a character that is not a space, it returns; the value
  is the signed value of the digits after the spaces, the sign and the base prefix, clamped to
  \<open>-2^63 .. 2^63 - 1\<close>, and the end pointer is after the digits, or the start when there are none.
\<close>

theorem strtol_clamps:
  assumes "skip_space m s = Some t" "base = 0 \<or> 2 \<le> base \<and> base \<le> 36"
    and "strtol_fix_base m (if m t = 0x2D \<or> m t = 0x2B then t + 1 else t) base = (t2, b)"
  defines "ds \<equiv> digit_prefix b (bytes m t2 (unat (- t2)))"
  shows "\<exists>r e. strtol m s base = Some (r, e)
    \<and> sint r = clamp_long (if m t = 0x2D then - int (horner (nat b) ds 0) else int (horner (nat b) ds 0))
    \<and> e = (if ds = [] then s else t2 + of_nat (length ds))"
proof -
  let ?V = "horner (nat b) ds 0" and ?neg = "m t = 0x2D"
  have b: "2 \<le> b" "b \<le> 36" using strtol_fix_base_range [OF assms(3,2)] by simp_all
  obtain p ec x where fc: "from_chars m t2 0 0 b = ((p, ec), x)" by (metis prod.exhaust)
  have res: "(p, ec, x) = (if ds = [] then (t2, E_INVAL, 0)
      else if ?V \<ge> 2 ^ 64 then (t2 + of_nat (length ds), E_RANGE, 0)
      else (t2 + of_nat (length ds), 0, of_nat ?V))"
    using from_chars_spec [OF b, of m t2 0 0] fc by (simp add: Let_def ds_def split: if_splits)
  have parse: "strto_parse m s base = Some (?neg, (p, ec), x)"
    using assms(1,3) fc by (simp add: strto_parse_def Let_def)
  have "\<not> ec = E_RANGE \<Longrightarrow> unat x = ?V" "ec = E_RANGE \<Longrightarrow> ?V \<ge> 2 ^ 64"
    using res by (auto simp: unat_of_nat_small split: if_splits)
  note clamp = strtol_clamp_value [OF this, where neg = ?neg]
  let ?bound = "push_bit 63 1 - of_bool (\<not> ?neg) :: u64"
  let ?x' = "if ec = E_RANGE \<or> x > ?bound then ?bound else x"
  have "strtol m s base = Some (if ?neg then - ?x' else ?x', if ec = E_INVAL then s else p)"
    by (simp only: strtol_def parse option.map case_prod_conv Let_def)
  moreover have "(if ec = E_INVAL then s else p) = (if ds = [] then s else t2 + of_nat (length ds))"
    using res by (auto split: if_splits)
  ultimately show ?thesis using clamp by blast
qed

theorem strtol_clamps_witness: "\<exists>r. strtol digits_mem 0x100 10 = Some (r, 0x102) \<and> sint r = 42"
proof -
  have "unat (- (0x100 :: u64)) = 3 + (2 ^ 64 - 0x103)" by simp
  then have b: "bytes digits_mem 0x100 (unat (- (0x100 :: u64))) =
      0x34 # 0x32 # 0x78 # bytes digits_mem 0x103 (2 ^ 64 - 0x103)"
    by (simp only: bytes_append) (simp add: digits_mem_def numeral_3_eq_3)
  have "digit_prefix 10 (bytes digits_mem 0x100 (unat (- (0x100 :: u64)))) = [4, 2]"
    unfolding b by (simp add: from_chars_digit_def)
  moreover have "skip_space digits_mem 0x100 = Some 0x100"
    by (subst skip_space.simps) (simp add: digits_mem_def isspace_def)
  moreover have "strtol_fix_base digits_mem 0x100 10 = (0x100, 10)"
    by (simp add: strtol_fix_base_def)
  moreover have "digits_mem 0x100 = 0x34" by (simp add: digits_mem_def)
  ultimately show ?thesis
    using strtol_clamps [of digits_mem "0x100" "0x100" 10 "0x100" 10] by (simp add: Let_def)
qed

end
