(* ===== verification/Printf.thy ===== *)
theory Printf
  imports CNumber
begin

text \<open>
  Formatted printing: \<open>print_number\<close>, \<open>printer::vprintf\<close>, \<open>string_printer\<close> and \<open>vsnprintf\<close>
  of \<open>pset3/lib.cc\<close>. \<open>vprintf\<close> does not look at the state of its printer, so its model is the
  sequence of calls it makes (\<open>Putc\<close> for \<open>putc\<close>, \<open>SetColor\<close> for the assignment to \<open>color_\<close>);
  a printer is run on the sequence. The format is the list of its bytes before the terminator,
  the variable arguments are a list of 64-bit slots, and string arguments are read from a memory
  that the printer does not change. \<open>None\<close> stands for undefined behaviour (a missing argument,
  signed overflow in a field width) or a string argument without a terminator.
\<close>

section \<open>Definitions\<close>

abbreviation FLAG_ALT :: u32 where "FLAG_ALT \<equiv> 0x1"
abbreviation FLAG_ZERO :: u32 where "FLAG_ZERO \<equiv> 0x2"
abbreviation FLAG_LEFTJUSTIFY :: u32 where "FLAG_LEFTJUSTIFY \<equiv> 0x4"
abbreviation FLAG_SPACEPOSITIVE :: u32 where "FLAG_SPACEPOSITIVE \<equiv> 0x8"
abbreviation FLAG_PLUSPOSITIVE :: u32 where "FLAG_PLUSPOSITIVE \<equiv> 0x10"
abbreviation FLAG_THOUSANDS :: u32 where "FLAG_THOUSANDS \<equiv> 0x20"
abbreviation FLAG_NUMERIC :: u32 where "FLAG_NUMERIC \<equiv> 0x40"
abbreviation FLAG_SIGNED :: u32 where "FLAG_SIGNED \<equiv> 0x80"
abbreviation FLAG_NEGATIVE :: u32 where "FLAG_NEGATIVE \<equiv> 0x100"
abbreviation FLAG_ALT2 :: u32 where "FLAG_ALT2 \<equiv> 0x200"
abbreviation NUMBUFSIZ :: nat where "NUMBUFSIZ \<equiv> 32"

abbreviation flag_set :: "u32 \<Rightarrow> u32 \<Rightarrow> bool" where
  "flag_set flags f \<equiv> flags AND f \<noteq> 0"

definition flag_chars :: "byte list" where
  "flag_chars = [0x23, 0x30, 0x2D, 0x20, 0x2B, 0x27]"

definition upper_digits :: "byte list" where
  "upper_digits = [0x30, 0x31, 0x32, 0x33, 0x34, 0x35, 0x36, 0x37, 0x38, 0x39,
                   0x41, 0x42, 0x43, 0x44, 0x45, 0x46]"

definition lower_digits :: "byte list" where
  "lower_digits = [0x30, 0x31, 0x32, 0x33, 0x34, 0x35, 0x36, 0x37, 0x38, 0x39,
                   0x61, 0x62, 0x63, 0x64, 0x65, 0x66]"

subsection \<open>print_number\<close>

text \<open>The loop writes backwards; \<open>pos\<close> is the offset in the buffer and \<open>thousands_pos\<close> the
  offset of the next separator, \<open>None\<close> when there is none.\<close>

primrec print_number_loop ::
  "byte list \<Rightarrow> u64 \<Rightarrow> byte \<Rightarrow> int \<Rightarrow> nat \<Rightarrow> int option \<Rightarrow> u64 \<Rightarrow> byte list \<Rightarrow> byte list \<times> nat" where
  "print_number_loop digs base sep grp 0 thousands_pos val buf = (buf, 0)"
| "print_number_loop digs base sep grp (Suc pos) thousands_pos val buf =
     (case (if thousands_pos = Some (int (Suc pos))
            then (buf[pos := sep], Some (int pos - grp), val)
            else (buf[pos := digs ! unat (val mod base)], thousands_pos, val div base))
      of (buf', tp', val') \<Rightarrow>
        if val' \<noteq> 0 \<and> pos \<noteq> 0 then print_number_loop digs base sep grp pos tp' val' buf'
        else (buf', pos))"

definition print_number :: "byte list \<Rightarrow> u64 \<Rightarrow> int \<Rightarrow> u32 \<Rightarrow> byte list \<times> nat" where
  "print_number buf val base flags =
     (let digs = (if base < 0 then lower_digits else upper_digits);
          base = (if base < 0 then - base else base);
          pos = length buf - 1;
          buf = buf[pos := 0];
          grp = (if base = 10 then 3 else 4);
          sep = (if base = 10 then 0x2C else 0x27);
          thousands_pos = (if flag_set flags FLAG_THOUSANDS then Some (int pos - grp) else None)
      in print_number_loop digs (word_of_int base) sep grp pos thousands_pos val buf)"

subsection \<open>vprintf\<close>

datatype printer_call = Putc byte | SetColor u32

type_synonym args = "u64 list"

text \<open>\<open>*format\<close>: the terminator when the format is used up.\<close>

definition peek :: "byte list \<Rightarrow> byte" where
  "peek fmt = (case fmt of [] \<Rightarrow> 0 | c # _ \<Rightarrow> c)"

fun parse_flags :: "u32 \<Rightarrow> byte list \<Rightarrow> u32 \<times> byte list" where
  "parse_flags flags [] = (flags, [])"
| "parse_flags flags (c # cs) =
     (let i = length (takeWhile (\<lambda>f. f \<noteq> c) flag_chars) in
      if i < length flag_chars then parse_flags (flags OR push_bit i 1) cs else (flags, c # cs))"

definition decimal_char :: "byte \<Rightarrow> bool" where
  "decimal_char c \<longleftrightarrow> c \<ge> 0x30 \<and> c \<le> 0x39"

fun parse_decimal :: "int \<Rightarrow> byte list \<Rightarrow> (int \<times> byte list) option" where
  "parse_decimal n [] = Some (n, [])"
| "parse_decimal n (c # cs) =
     (if decimal_char c
      then let n' = 10 * n + uint c - 48
           in if n' < 2 ^ 31 then parse_decimal n' cs else None
      else Some (n, c # cs))"

text \<open>An \<open>int\<close> argument occupies the low half of its slot.\<close>

definition arg_int :: "u64 \<Rightarrow> int" where
  "arg_int a = sint (ucast a :: u32)"

definition parse_width :: "byte list \<Rightarrow> args \<Rightarrow> (int \<times> byte list \<times> args) option" where
  "parse_width fmt args =
     (if peek fmt \<ge> 0x31 \<and> peek fmt \<le> 0x39
      then map_option (\<lambda>(w, fmt'). (w, fmt', args)) (parse_decimal 0 fmt)
      else if peek fmt = 0x2A
      then (case args of [] \<Rightarrow> None | a # args' \<Rightarrow> Some (arg_int a, tl fmt, args'))
      else Some (- 1, fmt, args))"

definition parse_precision :: "byte list \<Rightarrow> args \<Rightarrow> (int \<times> byte list \<times> args) option" where
  "parse_precision fmt args =
     (if peek fmt = 0x2E
      then let fmt = tl fmt in
           map_option (\<lambda>(p, fmt', args'). (if p < 0 then 0 else p, fmt', args'))
             (if decimal_char (peek fmt)
              then map_option (\<lambda>(p, fmt'). (p, fmt', args)) (parse_decimal 0 fmt)
              else if peek fmt = 0x2A
              then (case args of [] \<Rightarrow> None | a # args' \<Rightarrow> Some (arg_int a, tl fmt, args'))
              else Some (- 1, fmt, args))
      else Some (- 1, fmt, args))"

definition parse_length :: "byte list \<Rightarrow> bool \<times> byte list" where
  "parse_length fmt =
     (if peek fmt \<in> {0x6C, 0x74, 0x7A} then (True, tl fmt)
      else if peek fmt = 0x68 then (False, tl fmt)
      else (False, fmt))"

text \<open>What the main conversion character selects; \<open>ConvChar\<close> is a one-character buffer.\<close>

datatype conversion = ConvNum int u64 | ConvString addr | ConvColor u32 | ConvChar byte

definition convert_signed :: "bool \<Rightarrow> u32 \<Rightarrow> u64 \<Rightarrow> u32 \<times> conversion" where
  "convert_signed is_long flags a =
     (let x = (if is_long then a else scast (ucast a :: u32));
          negative = (if sint x < 0 then FLAG_NEGATIVE else 0)
      in (flags OR FLAG_NUMERIC OR FLAG_SIGNED OR negative,
          ConvNum 10 (if sint x < 0 then - x else x)))"

definition convert_unsigned :: "bool \<Rightarrow> int \<Rightarrow> u32 \<Rightarrow> u64 \<Rightarrow> u32 \<times> conversion" where
  "convert_unsigned is_long base flags a =
     (flags OR FLAG_NUMERIC, ConvNum base (if is_long then a else ucast (ucast a :: u32)))"

definition parse_conversion :: "byte \<Rightarrow> bool \<Rightarrow> u32 \<Rightarrow> args \<Rightarrow> ((u32 \<times> conversion) \<times> args) option" where
  "parse_conversion c is_long flags args =
     (let with_arg = (\<lambda>f. case args of [] \<Rightarrow> None | a # args' \<Rightarrow> Some (f a, args')) in
      if c = 0x64 \<or> c = 0x69 then with_arg (convert_signed is_long flags)
      else if c = 0x75 then with_arg (convert_unsigned is_long 10 flags)
      else if c = 0x78 then with_arg (convert_unsigned is_long (- 16) flags)
      else if c = 0x58 then with_arg (convert_unsigned is_long 16 flags)
      else if c = 0x70
      then with_arg (\<lambda>a. (flags OR FLAG_ALT OR FLAG_ALT2 OR FLAG_NUMERIC, ConvNum (- 16) a))
      else if c = 0x73 then with_arg (\<lambda>a. (flags, ConvString a))
      else if c = 0x43 then with_arg (\<lambda>a. (flags, ConvColor (ucast a)))
      else if c = 0x63 then with_arg (\<lambda>a. (flags, ConvChar (ucast a)))
      else Some ((flags, ConvChar (if c \<noteq> 0 then c else 0x25)), args))"

definition number_prefix :: "u32 \<Rightarrow> int \<Rightarrow> u64 \<Rightarrow> byte list" where
  "number_prefix flags base num =
     (if flag_set flags FLAG_NUMERIC \<and> flag_set flags FLAG_SIGNED
      then if flag_set flags FLAG_NEGATIVE then [0x2D]
           else if flag_set flags FLAG_PLUSPOSITIVE then [0x2B]
           else if flag_set flags FLAG_SPACEPOSITIVE then [0x20]
           else []
      else if flag_set flags FLAG_NUMERIC \<and> flag_set flags FLAG_ALT \<and> (base = 16 \<or> base = - 16)
              \<and> (num \<noteq> 0 \<or> flag_set flags FLAG_ALT2)
      then if base = - 16 then [0x30, 0x78] else [0x30, 0x58]
      else [])"

text \<open>Conversion to \<open>int\<close>.\<close>

definition to_int :: "int \<Rightarrow> int" where
  "to_int x = signed_take_bit 31 x"

text \<open>The characters of the conversion and the value of \<open>datalen\<close>.\<close>

definition conversion_data :: "mem \<Rightarrow> u32 \<Rightarrow> int \<Rightarrow> conversion \<Rightarrow> (byte list \<times> int) option" where
  "conversion_data m flags precision conv =
     (case conv of
        ConvNum base num \<Rightarrow>
          (case print_number (replicate NUMBUFSIZ 0) num base flags of (buf, pos) \<Rightarrow>
             let s = takeWhile (\<lambda>b. b \<noteq> 0) (drop pos buf) in Some (s, int (length s)))
      | ConvChar c \<Rightarrow>
          let s = (if c = 0 then [] else [c]);
              n = (if precision \<ge> 0 then min (int (length s)) precision else int (length s))
          in Some (take (nat n) s, n)
      | ConvString a \<Rightarrow>
          map_option (\<lambda>n. let datalen = to_int (uint n) in (bytes m a (nat datalen), datalen))
            (if precision \<ge> 0 then Some (strnlen m a (word_of_int precision)) else strlen m a)
      | ConvColor c \<Rightarrow> Some ([], 0))"

definition conversion_zeros :: "u32 \<Rightarrow> int \<Rightarrow> int \<Rightarrow> int \<Rightarrow> nat \<Rightarrow> int" where
  "conversion_zeros flags width precision datalen plen =
     (if flag_set flags FLAG_NUMERIC \<and> precision \<ge> 0
      then if precision > datalen then precision - datalen else 0
      else if flag_set flags FLAG_NUMERIC \<and> flag_set flags FLAG_ZERO
              \<and> \<not> flag_set flags FLAG_LEFTJUSTIFY \<and> datalen + int plen < width
      then to_int (width - datalen - int plen)
      else 0)"

text \<open>The output loops: left padding, prefix, zeros, data, right padding.\<close>

definition emit_field :: "u32 \<Rightarrow> int \<Rightarrow> int \<Rightarrow> byte list \<Rightarrow> byte list \<Rightarrow> int \<Rightarrow> byte list" where
  "emit_field flags width precision prefix data datalen =
     (let zeros = conversion_zeros flags width precision datalen (length prefix);
          width' = to_int (width - (datalen + zeros + int (length prefix)));
          left = (if flag_set flags FLAG_LEFTJUSTIFY then 0 else nat width');
          right = (if flag_set flags FLAG_LEFTJUSTIFY then nat width' else 0)
      in replicate left 0x20 @ prefix @ replicate (nat zeros) 0x30 @ data @ replicate right 0x20)"

definition emit_conversion :: "mem \<Rightarrow> u32 \<Rightarrow> int \<Rightarrow> int \<Rightarrow> conversion \<Rightarrow> printer_call list option" where
  "emit_conversion m flags width precision conv =
     (case conv of
        ConvColor c \<Rightarrow> Some [SetColor c]
      | _ \<Rightarrow>
          let prefix = (case conv of ConvNum base num \<Rightarrow> number_prefix flags base num | _ \<Rightarrow> [])
          in map_option (\<lambda>(data, datalen). map Putc (emit_field flags width precision prefix data datalen))
               (conversion_data m flags precision conv))"

text \<open>One conversion, after the percent sign.\<close>

definition vprintf_conversion ::
  "mem \<Rightarrow> byte list \<Rightarrow> args \<Rightarrow> (printer_call list \<times> byte list \<times> args) option" where
  "vprintf_conversion m fmt args =
     (case parse_flags 0 fmt of (flags, fmt1) \<Rightarrow>
      case parse_width fmt1 args of None \<Rightarrow> None | Some (width, fmt2, args2) \<Rightarrow>
      case parse_precision fmt2 args2 of None \<Rightarrow> None | Some (precision, fmt3, args3) \<Rightarrow>
      case parse_length fmt3 of (is_long, fmt4) \<Rightarrow>
      case parse_conversion (peek fmt4) is_long flags args3 of
        None \<Rightarrow> None
      | Some ((flags', conv), args4) \<Rightarrow>
          map_option (\<lambda>calls. (calls, tl fmt4, args4)) (emit_conversion m flags' width precision conv))"

lemma parse_flags_length: "parse_flags flags fmt = (flags', fmt') \<Longrightarrow> length fmt' \<le> length fmt"
  by (induction flags fmt rule: parse_flags.induct) (auto simp: Let_def split: if_splits)

lemma parse_decimal_length: "parse_decimal n fmt = Some (n', fmt') \<Longrightarrow> length fmt' \<le> length fmt"
  by (induction n fmt rule: parse_decimal.induct) (auto simp: Let_def split: if_splits)

lemma parse_width_length: "parse_width fmt args = Some (w, fmt', args') \<Longrightarrow> length fmt' \<le> length fmt"
  by (auto simp: parse_width_def split: if_splits list.splits dest: parse_decimal_length)

lemma parse_precision_length:
  "parse_precision fmt args = Some (p, fmt', args') \<Longrightarrow> length fmt' \<le> length fmt"
  by (auto simp: parse_precision_def Let_def split: if_splits list.splits dest!: parse_decimal_length)

lemma parse_length_length: "parse_length fmt = (l, fmt') \<Longrightarrow> length fmt' \<le> length fmt"
  by (auto simp: parse_length_def split: if_splits)

lemma vprintf_conversion_length:
  assumes "vprintf_conversion m fmt args = Some (calls, fmt', args')"
  shows "length fmt' \<le> length fmt"
  using assms unfolding vprintf_conversion_def
  by (fastforce split: prod.splits option.splits
      dest: parse_flags_length parse_width_length parse_precision_length parse_length_length)

function vprintf_calls :: "mem \<Rightarrow> byte list \<Rightarrow> args \<Rightarrow> printer_call list option" where
  "vprintf_calls m [] args = Some []"
| "vprintf_calls m (c # cs) args =
     (if c \<noteq> 0x25 then map_option (\<lambda>calls. Putc c # calls) (vprintf_calls m cs args)
      else case vprintf_conversion m cs args of
             None \<Rightarrow> None
           | Some (calls, cs', args') \<Rightarrow> map_option (\<lambda>rest. calls @ rest) (vprintf_calls m cs' args'))"
  by pat_completeness auto
termination
  by (relation "measure (\<lambda>(m, fmt, args). length fmt)")
    (auto dest: vprintf_conversion_length simp: le_imp_less_Suc)

lemma vprintf_calls_plain: "0x25 \<notin> set fmt \<Longrightarrow> vprintf_calls m fmt args = Some (map Putc fmt)"
  by (induction fmt) auto

text \<open>Running a printer, given by its \<open>putc\<close> and its color assignment, on the calls.\<close>

fun run_call :: "(byte \<Rightarrow> 's \<Rightarrow> 's) \<Rightarrow> (u32 \<Rightarrow> 's \<Rightarrow> 's) \<Rightarrow> printer_call \<Rightarrow> 's \<Rightarrow> 's" where
  "run_call putc set_color (Putc c) s = putc c s"
| "run_call putc set_color (SetColor c) s = set_color c s"

definition vprintf ::
  "(byte \<Rightarrow> 's \<Rightarrow> 's) \<Rightarrow> (u32 \<Rightarrow> 's \<Rightarrow> 's) \<Rightarrow> mem \<Rightarrow> byte list \<Rightarrow> args \<Rightarrow> 's \<Rightarrow> 's option" where
  "vprintf putc set_color m fmt args s =
     map_option (\<lambda>calls. fold (run_call putc set_color) calls s) (vprintf_calls m fmt args)"

subsection \<open>string_printer\<close>

record string_printer =
  sp_mem :: mem
  sp_s :: addr
  sp_end :: addr
  sp_n :: u64
  sp_color :: u32

definition string_printer_new :: "mem \<Rightarrow> addr \<Rightarrow> u64 \<Rightarrow> string_printer" where
  "string_printer_new m s sz =
     \<lparr>sp_mem = m, sp_s = s, sp_end = s + sz, sp_n = 0, sp_color = 0x0700\<rparr>"

definition string_printer_putc :: "byte \<Rightarrow> string_printer \<Rightarrow> string_printer" where
  "string_printer_putc c sp =
     (let sp = (if sp_s sp < sp_end sp
                then sp\<lparr>sp_mem := (sp_mem sp)(sp_s sp := c), sp_s := sp_s sp + 1\<rparr> else sp)
      in sp\<lparr>sp_n := sp_n sp + 1\<rparr>)"

definition vsnprintf :: "mem \<Rightarrow> mem \<Rightarrow> addr \<Rightarrow> u64 \<Rightarrow> byte list \<Rightarrow> args \<Rightarrow> (mem \<times> u64) option" where
  "vsnprintf argm m s sz fmt args =
     map_option (\<lambda>sp.
       let m' = (if sz \<noteq> 0 \<and> sp_s sp < sp_end sp then (sp_mem sp)(sp_s sp := 0)
                 else if sz \<noteq> 0 then (sp_mem sp)(sp_end sp - 1 := 0)
                 else sp_mem sp)
       in (m', sp_n sp))
     (vprintf string_printer_putc (\<lambda>c sp. sp\<lparr>sp_color := c\<rparr>) argm fmt args (string_printer_new m s sz))"

definition snprintf :: "mem \<Rightarrow> mem \<Rightarrow> addr \<Rightarrow> u64 \<Rightarrow> byte list \<Rightarrow> args \<Rightarrow> (mem \<times> u64) option" where
  "snprintf argm m s sz fmt args =
     map_option (\<lambda>(m', n). (m', scast (ucast n :: u32))) (vsnprintf argm m s sz fmt args)"

section \<open>print_number\<close>

text \<open>The digits of a number, least significant first, and the grouping of such a sequence: a
  separator before every \<open>g\<close>-th digit that follows, counted down by the third argument.\<close>

fun rdigits :: "nat \<Rightarrow> nat \<Rightarrow> nat list" where
  "rdigits B v = v mod B # (if v < B \<or> B < 2 then [] else rdigits B (v div B))"

declare rdigits.simps [simp del]

fun sep_digits :: "nat \<Rightarrow> 'a \<Rightarrow> nat option \<Rightarrow> 'a list \<Rightarrow> 'a list" where
  "sep_digits g c k [] = []"
| "sep_digits g c (Some 0) (d # ds) = c # d # sep_digits g c (Some (g - 1)) ds"
| "sep_digits g c (Some (Suc k)) (d # ds) = d # sep_digits g c (Some k) ds"
| "sep_digits g c None (d # ds) = d # sep_digits g c None ds"

lemma sep_digits_None [simp]: "sep_digits g c None ds = ds"
  by (induction ds) simp_all

lemma sep_digits_length:
  "1 \<le> g \<Longrightarrow> length (sep_digits g c (Some k) ds) \<le> length ds + (length ds + (g - 1) - k) div g"
proof (induction ds arbitrary: k)
  case (Cons d ds)
  show ?case
  proof (cases k)
    case 0
    have "length (sep_digits g c (Some (g - 1)) ds) \<le> length ds + length ds div g"
      using Cons.IH [of "g - 1"] Cons.prems by simp
    moreover have "(length (d # ds) + (g - 1)) div g = 1 + length ds div g"
      using Cons.prems by (simp add: div_add_self2)
    ultimately show ?thesis using 0 by simp
  next
    case (Suc j)
    then show ?thesis using Cons.IH [OF Cons.prems, of j] by simp
  qed
qed simp

lemma rdigits_digits:
  assumes "2 \<le> B"
  shows "rdigits B v = rev (digits B (ndigits B v) v)"
proof (induction v rule: less_induct)
  case (less v)
  show ?case
  proof (cases "v < B")
    case True
    then show ?thesis by (simp add: rdigits.simps [of B v] ndigits_one)
  next
    case False
    then have "v div B < v" using assms by (intro div_less_dividend) simp_all
    with less.IH [OF this] False assms show ?thesis
      by (simp add: rdigits.simps [of B v] ndigits_step)
  qed
qed

text \<open>The text of a number, last character first.\<close>

definition rev_text :: "nat \<Rightarrow> byte \<Rightarrow> nat option \<Rightarrow> byte list \<Rightarrow> nat \<Rightarrow> nat \<Rightarrow> byte list" where
  "rev_text g c k digs B v = sep_digits g c k (map (\<lambda>d. digs ! d) (rdigits B v))"

lemma rev_text_sep:
  "1 \<le> g \<Longrightarrow> rev_text g c (Some 0) digs B v = c # rev_text g c (Some g) digs B v"
  by (cases g) (simp_all add: rev_text_def rdigits.simps [of B v])

lemma rev_text_digit:
  assumes "k \<noteq> Some 0" "2 \<le> B"
  shows "rev_text g c k digs B v =
    digs ! (v mod B) # (if v < B then [] else rev_text g c (map_option (\<lambda>j. j - 1) k) digs B (v div B))"
proof (cases k)
  case None
  with assms(2) show ?thesis by (simp add: rev_text_def rdigits.simps [of B v])
next
  case (Some j)
  with assms obtain i where "j = Suc i" by (cases j) auto
  with Some assms(2) show ?thesis by (simp add: rev_text_def rdigits.simps [of B v])
qed

lemma rev_text_nonempty: "1 \<le> g \<Longrightarrow> 2 \<le> B \<Longrightarrow> rev_text g c k digs B v \<noteq> []"
  by (cases "k = Some 0") (simp_all add: rev_text_sep rev_text_digit)

lemma rev_text_length:
  assumes "1 \<le> g" "k = None \<or> k = Some g" "length (rdigits B v) \<le> n"
  shows "length (rev_text g c k digs B v) \<le> n + (n - 1) div g"
proof -
  let ?ds = "map (\<lambda>d. digs ! d) (rdigits B v)"
  have "length (sep_digits g c k ?ds) \<le> length ?ds + (length ?ds - 1) div g"
    using assms(1,2) sep_digits_length [OF assms(1), of c g ?ds] by auto
  also have "\<dots> \<le> n + (n - 1) div g"
    using assms(3) by (intro add_mono div_le_mono diff_le_mono) simp_all
  finally show ?thesis by (simp add: rev_text_def)
qed

lemma update_split: "pos < length xs \<Longrightarrow> p \<le> pos \<Longrightarrow>
    take p (xs[pos := x]) @ ys @ drop pos (xs[pos := x]) = take p xs @ (ys @ [x]) @ drop (Suc pos) xs"
  by (simp add: drop_update_swap [symmetric] upd_conv_take_nth_drop)

lemma print_number_loop_spec:
  fixes val base :: u64
  assumes "1 \<le> g" "2 \<le> unat base" "k = Some 0 \<longrightarrow> val \<noteq> 0" "pos \<le> length buf"
    and "length (rev_text g c k digs (unat base) (unat val)) \<le> pos"
  shows "print_number_loop digs base c (int g) pos (map_option (\<lambda>j. int pos - int j) k) val buf =
    (let L = rev_text g c k digs (unat base) (unat val)
     in (take (pos - length L) buf @ rev L @ drop pos buf, pos - length L))"
  using assms(3-)
proof (induction pos arbitrary: k val buf)
  case 0
  then show ?case
    using assms(1,2) by (cases "k = Some 0") (auto simp: rev_text_sep rev_text_digit)
next
  case (Suc pos)
  let ?B = "unat base" and ?L = "\<lambda>k val. rev_text g c k digs (unat base) (unat val)"
  have pos: "pos < length buf" using Suc.prems(2) by simp
  show ?case
  proof (cases "k = Some 0")
    case True
    then have L: "?L k val = c # ?L (Some g) val" using assms(1) by (simp add: rev_text_sep)
    moreover have "0 < length (?L (Some g) val)"
      using rev_text_digit [of "Some g" ?B] assms(1,2) by simp
    ultimately have "pos \<noteq> 0" using Suc.prems(3) by (cases pos) auto
    let ?buf = "buf[pos := c]"
    have "print_number_loop digs base c (int g) (Suc pos) (map_option (\<lambda>j. int (Suc pos) - int j) k) val buf =
        print_number_loop digs base c (int g) pos (map_option (\<lambda>j. int pos - int j) (Some g)) val ?buf"
      using True \<open>pos \<noteq> 0\<close> Suc.prems(1) by simp
    also have "\<dots> = (let L = ?L (Some g) val in
        (take (pos - length L) ?buf @ rev L @ drop pos ?buf, pos - length L))"
      using Suc.prems L assms(1) by (intro Suc.IH) simp_all
    finally show ?thesis
      by (simp only: Let_def L update_split [OF pos diff_le_self] rev.simps length_Cons diff_Suc_Suc)
  next
    case False
    let ?d = "digs ! (unat val mod ?B)"
    let ?k = "map_option (\<lambda>j. j - 1) k"
    let ?buf = "buf[pos := ?d]"
    have L: "?L k val = ?d # (if unat val < ?B then [] else ?L ?k (val div base))"
      using rev_text_digit [OF False assms(2)] by (simp add: unat_div)
    have tp: "map_option (\<lambda>j. int (Suc pos) - int j) k = map_option (\<lambda>j. int pos - int j) ?k"
      using False by (cases k) (auto split: nat.splits)
    have ne: "map_option (\<lambda>j. int (Suc pos) - int j) k \<noteq> Some (int (Suc pos))"
      using False by (cases k) auto
    have zero: "val div base = 0 \<longleftrightarrow> unat val < ?B"
      using assms(2) by (simp add: word_unat_eq_iff unat_div div_eq_0_iff)
    have step: "print_number_loop digs base c (int g) (Suc pos) (map_option (\<lambda>j. int (Suc pos) - int j) k) val buf =
        (if \<not> unat val < ?B \<and> pos \<noteq> 0
         then print_number_loop digs base c (int g) pos (map_option (\<lambda>j. int pos - int j) ?k) (val div base) ?buf
         else (?buf, pos))"
      by (simp only: print_number_loop.simps ne [unfolded tp] if_False case_prod_conv zero unat_mod tp simp_thms)
    show ?thesis
    proof (cases "unat val < ?B")
      case True
      then show ?thesis
        using L pos by (simp only: step) (simp add: upd_conv_take_nth_drop)
    next
      case ge: False
      have "0 < length (?L ?k (val div base))"
        using rev_text_nonempty [OF assms(1,2)] by simp
      then have "pos \<noteq> 0" using Suc.prems(3) L ge by (cases pos) auto
      moreover have "print_number_loop digs base c (int g) pos (map_option (\<lambda>j. int pos - int j) ?k) (val div base) ?buf
        = (let L = ?L ?k (val div base) in
            (take (pos - length L) ?buf @ rev L @ drop pos ?buf, pos - length L))"
        using Suc.prems L ge zero by (intro Suc.IH) simp_all
      ultimately show ?thesis
        using ge by (simp only: step Let_def L if_False simp_thms if_True update_split [OF pos diff_le_self]
            rev.simps length_Cons diff_Suc_Suc)
    qed
  qed
qed

text \<open>The text the formatted number should have.\<close>

definition number_text :: "u32 \<Rightarrow> int \<Rightarrow> u64 \<Rightarrow> byte list" where
  "number_text flags base val =
     rev (rev_text (if \<bar>base\<bar> = 10 then 3 else 4) (if \<bar>base\<bar> = 10 then 0x2C else 0x27)
       (if flag_set flags FLAG_THOUSANDS then Some (if \<bar>base\<bar> = 10 then 3 else 4) else None)
       (if base < 0 then lower_digits else upper_digits) (nat \<bar>base\<bar>) (unat val))"

lemma rdigits_length:
  assumes "2 \<le> B" "unat (v :: u64) < B ^ n" "0 < n"
  shows "length (rdigits B (unat v)) \<le> n"
proof (rule ccontr)
  assume "\<not> length (rdigits B (unat v)) \<le> n"
  then have gt: "n < ndigits B (unat v)" by (simp add: rdigits_digits [OF assms(1)])
  then obtain k where k: "ndigits B (unat v) = Suc k" "n \<le> k" by (cases "ndigits B (unat v)") auto
  then have "B ^ k \<le> unat v" using ndigits_power(2) [OF assms(1) k(1)] assms(3) by simp
  moreover have "B ^ n \<le> B ^ k" using k(2) assms(1) by (intro power_increasing) simp_all
  ultimately show False using assms(2) by simp
qed

lemma number_text_length:
  assumes "base \<in> {10, 16, - 16}"
  shows "length (number_text flags base val) \<le> 26"
proof -
  have v: "unat val < 10 ^ 20" "unat val < 16 ^ 16"
    using unsigned_less [of val, where 'a = nat] by simp_all
  have "length (rdigits 10 (unat val)) \<le> 20" "length (rdigits 16 (unat val)) \<le> 16"
    using v by (intro rdigits_length; simp)+
  then have "length (rev_text 3 c k digs 10 (unat val)) \<le> 26" if "k = None \<or> k = Some 3" for c k digs
    using rev_text_length [of 3 k 10 "unat val" 20] that by simp
  moreover have "length (rev_text 4 c k digs 16 (unat val)) \<le> 26" if "k = None \<or> k = Some 4" for c k digs
    using rev_text_length [of 4 k 16 "unat val" 16] that \<open>length (rdigits 16 (unat val)) \<le> 16\<close>
    by (fastforce intro: order_trans)
  ultimately show ?thesis using assms by (auto simp: number_text_def)
qed

lemma digit_chars_nonzero:
  assumes "d < 16"
  shows "upper_digits ! d \<noteq> 0" "lower_digits ! d \<noteq> 0"
proof -
  have "length upper_digits = 16" "length lower_digits = 16" "0 \<notin> set upper_digits" "0 \<notin> set lower_digits"
    by (simp_all add: upper_digits_def lower_digits_def)
  then show "upper_digits ! d \<noteq> 0" "lower_digits ! d \<noteq> 0"
    using assms by (metis nth_mem)+
qed

lemma sep_digits_set: "set (sep_digits g c k ds) \<subseteq> insert c (set ds)"
  by (induction g c k ds rule: sep_digits.induct) auto

lemma number_text_nonzero:
  assumes "base \<in> {10, 16, - 16}"
  shows "0 \<notin> set (number_text flags base val)"
proof -
  define B where "B = nat \<bar>base\<bar>"
  define digs where "digs = (if base < 0 then lower_digits else upper_digits)"
  have B: "2 \<le> B" "B \<le> 16" using assms by (auto simp: B_def)
  have "digs ! d \<noteq> 0" if "d \<in> set (rdigits B (unat val))" for d
  proof -
    have "d < 16"
      using that digits_less [of B d "ndigits B (unat val)" "unat val"] B by (simp add: rdigits_digits)
    then show ?thesis using digit_chars_nonzero by (simp add: digs_def)
  qed
  then have "0 \<notin> insert (if \<bar>base\<bar> = 10 then 0x2C else 0x27) (set (map (\<lambda>d. digs ! d) (rdigits B (unat val))))"
    by auto
  then show ?thesis
    unfolding number_text_def rev_text_def set_rev B_def [symmetric] digs_def [symmetric]
    by (rule contra_subsetD [OF sep_digits_set])
qed

lemma print_number_spec:
  assumes "base \<in> {10, 16, - 16}" "length buf = NUMBUFSIZ"
    and "print_number buf val base flags = (buf', pos)"
  shows "takeWhile (\<lambda>b. b \<noteq> 0) (drop pos buf') = number_text flags base val"
    and "length buf' = NUMBUFSIZ"
proof -
  let ?t = "number_text flags base val" and ?buf = "buf[31 := 0]"
  have b: "unat (word_of_int \<bar>base\<bar> :: u64) = nat \<bar>base\<bar>" "2 \<le> nat \<bar>base\<bar>" using assms(1) by auto
  let ?g = "if \<bar>base\<bar> = 10 then 3 else 4 :: nat"
  let ?k = "if flag_set flags FLAG_THOUSANDS then Some ?g else None"
  have "print_number buf val base flags =
      print_number_loop (if base < 0 then lower_digits else upper_digits) (word_of_int \<bar>base\<bar>)
        (if \<bar>base\<bar> = 10 then 0x2C else 0x27) (int ?g) 31 (map_option (\<lambda>j. int 31 - int j) ?k) val ?buf"
    using assms(1,2) unfolding print_number_def Let_def
    by (elim insertE emptyE; simp only: assms(2); simp split: if_split)
  also have "\<dots> = (take (31 - length ?t) ?buf @ ?t @ drop 31 ?buf, 31 - length ?t)"
    using number_text_length [OF assms(1), of flags val] assms(2) b
    by (subst print_number_loop_spec) (simp_all add: number_text_def Let_def)
  finally have r: "buf' = take (31 - length ?t) ?buf @ ?t @ drop 31 ?buf" "pos = 31 - length ?t"
    using assms(3) by simp_all
  have "drop 31 ?buf = [0]"
    using assms(2) by (intro nth_equalityI) auto
  moreover have "length (take (31 - length ?t) ?buf) = 31 - length ?t" using assms(2) by simp
  ultimately have "drop pos buf' = ?t @ [0]" unfolding r by simp
  then show "takeWhile (\<lambda>b. b \<noteq> 0) (drop pos buf') = ?t"
    using number_text_nonzero [OF assms(1)] by (simp add: takeWhile_append)
  show "length buf' = NUMBUFSIZ"
    using number_text_length [OF assms(1), of flags val] assms(2) by (simp add: r)
qed

section \<open>Fields\<close>

lemma to_int_id: "- (2 ^ 31) \<le> x \<Longrightarrow> x < 2 ^ 31 \<Longrightarrow> to_int x = x"
  by (simp add: to_int_def signed_take_bit_int_eq_self)

text \<open>The layout of a field: the body is the prefix, the zeros and the data; spaces fill it up to
  the width on the left, or on the right with the flag \<open>-\<close>.\<close>

definition field_layout :: "u32 \<Rightarrow> nat \<Rightarrow> byte list \<Rightarrow> byte list" where
  "field_layout flags width body =
     (let pad = replicate (width - length body) 0x20
      in if flag_set flags FLAG_LEFTJUSTIFY then body @ pad else pad @ body)"

lemma emit_field_layout:
  fixes flags :: u32
  assumes "- 1 \<le> width" "width < 2 ^ 30" "- 1 \<le> precision" "precision < 2 ^ 30"
    and "int (length data) < 2 ^ 29" "int (length prefix) < 2 ^ 29"
  defines "z \<equiv> nat (conversion_zeros flags width precision (int (length data)) (length prefix))"
  shows "emit_field flags width precision prefix data (int (length data)) =
    field_layout flags (nat width) (prefix @ replicate z 0x30 @ data)"
proof -
  let ?z = "conversion_zeros flags width precision (int (length data)) (length prefix)"
  have "to_int (width - int (length data) - int (length prefix)) = width - int (length data) - int (length prefix)"
    using assms(1,2,5,6) by (intro to_int_id) simp_all
  then have z: "0 \<le> ?z" "?z < 2 ^ 30"
    using assms(1-6) by (auto simp: conversion_zeros_def)
  let ?w = "width - (int (length data) + ?z + int (length prefix))"
  have "to_int ?w = ?w" using assms(1,2,5,6) z by (intro to_int_id) simp_all
  moreover have "nat ?w = nat width - length (prefix @ replicate z 0x30 @ data)"
    using z(1) by (simp add: z_def)
  ultimately show ?thesis
    by (simp add: emit_field_def Let_def field_layout_def z_def)
qed

section \<open>Printers\<close>

primrec call_chars :: "printer_call list \<Rightarrow> byte list" where
  "call_chars [] = []"
| "call_chars (c # cs) = (case c of Putc b \<Rightarrow> b # call_chars cs | SetColor _ \<Rightarrow> call_chars cs)"

lemma call_chars_append [simp]: "call_chars (xs @ ys) = call_chars xs @ call_chars ys"
  by (induction xs) (simp_all split: printer_call.splits)

lemma call_chars_Putc [simp]: "call_chars (map Putc cs) = cs"
  by (induction cs) simp_all

text \<open>The interface of a printer: a relation between the characters printed so far and the state
  that \<open>putc\<close> extends and a color change keeps.\<close>

locale printer =
  fixes putc :: "byte \<Rightarrow> 's \<Rightarrow> 's" and set_color :: "u32 \<Rightarrow> 's \<Rightarrow> 's"
    and printed :: "byte list \<Rightarrow> 's \<Rightarrow> bool"
  assumes putc_printed: "printed out s \<Longrightarrow> printed (out @ [c]) (putc c s)"
    and color_printed: "printed out s \<Longrightarrow> printed out (set_color k s)"
begin

lemma run_printed: "printed out s \<Longrightarrow> printed (out @ call_chars calls) (fold (run_call putc set_color) calls s)"
proof (induction calls arbitrary: out s)
  case (Cons c calls)
  show ?case
  proof (cases c)
    case (Putc b)
    then show ?thesis using Cons.IH [OF putc_printed [OF Cons.prems]] by simp
  next
    case (SetColor k)
    then show ?thesis using Cons.IH [OF color_printed [OF Cons.prems]] by simp
  qed
qed simp

lemma vprintf_printed:
  assumes "vprintf_calls m fmt args = Some calls" "printed [] s"
  obtains s' where "vprintf putc set_color m fmt args s = Some s'" "printed (call_chars calls) s'"
  using assms run_printed [of "[]" s calls] by (simp add: vprintf_def)

end

text \<open>What a string printer holds: the printed characters that fit are in the buffer, every other
  byte is as before, and all characters are counted.\<close>

definition sp_holds :: "mem \<Rightarrow> addr \<Rightarrow> u64 \<Rightarrow> byte list \<Rightarrow> string_printer \<Rightarrow> bool" where
  "sp_holds m s sz out sp \<longleftrightarrow>
     unat s + unat sz < 2 ^ 64 \<and> sp_end sp = s + sz \<and> sp_n sp = of_nat (length out)
     \<and> sp_s sp = s + of_nat (min (length out) (unat sz))
     \<and> bytes (sp_mem sp) s (min (length out) (unat sz)) = take (unat sz) out
     \<and> (\<forall>x. min (length out) (unat sz) \<le> unat (x - s) \<longrightarrow> sp_mem sp x = m x)"

lemma sp_holds_putc:
  assumes "sp_holds m s sz out sp"
  shows "sp_holds m s sz (out @ [c]) (string_printer_putc c sp)"
proof -
  define k where "k = min (length out) (unat sz)"
  have h: "unat s + unat sz < 2 ^ 64" "sp_end sp = s + sz" "sp_n sp = of_nat (length out)"
      "sp_s sp = s + of_nat k" "bytes (sp_mem sp) s k = take (unat sz) out"
      "\<And>x. k \<le> unat (x - s) \<Longrightarrow> sp_mem sp x = m x"
    using assms by (simp_all add: sp_holds_def k_def)
  have k: "unat (of_nat k :: u64) = k" using h(1) by (intro unat_of_nat_small) (simp add: k_def)
  have "unat s + k < 2 ^ 64" using h(1) by (simp add: k_def)
  then have "unat (s + of_nat k) = unat s + k" "unat (s + sz) = unat s + unat sz"
    using h(1) k unat_add_lem [of s "of_nat k"] unat_add_lem [of s sz] by simp_all
  then have room: "sp_s sp < sp_end sp \<longleftrightarrow> length out < unat sz"
    by (simp add: word_less_nat_alt h k_def min_less_iff_disj)
  show ?thesis
  proof (cases "length out < unat sz")
    case True
    then have kl: "k = length out" by (simp add: k_def)
    let ?m = "(sp_mem sp)(s + of_nat k := c)"
    have "bytes ?m s (Suc k) = out @ [c]"
      using bytes_upd_outside [of k "s + of_nat k" s "sp_mem sp" c] h(5) True kl k
      by (simp only: bytes_Suc_end) simp
    moreover have "?m x = m x" if "Suc k \<le> unat (x - s)" for x
    proof -
      have "x \<noteq> s + of_nat k" using that k by auto
      then show ?thesis using h(6) [of x] that by simp
    qed
    ultimately show ?thesis
      using True h(1-4) room kl
      by (simp add: sp_holds_def string_printer_putc_def Let_def min_absorb1 Suc_le_eq add.assoc)
  next
    case False
    then show ?thesis
      using h room by (simp add: sp_holds_def string_printer_putc_def Let_def k_def min_absorb2)
  qed
qed

interpretation string_out: printer string_printer_putc "\<lambda>c sp. sp\<lparr>sp_color := c\<rparr>" "sp_holds m s sz"
  for m s sz
  by unfold_locales (simp_all add: sp_holds_putc, simp add: sp_holds_def)

section \<open>Properties\<close>

text \<open>
  \<open>C12\<close>: \<open>vsnprintf\<close> is bounded and counts everything. For a non-empty buffer that does not
  wrap around the address space, the call stores the first \<open>min n (sz - 1)\<close> characters that
  \<open>vprintf\<close> prints followed by a terminator, changes no byte outside the buffer, and returns the
  number \<open>n\<close> of all characters printed, stored or not.
\<close>

theorem vsnprintf_bounded:
  assumes "vprintf_calls argm fmt args = Some calls" "unat s + unat sz < 2 ^ 64" "sz \<noteq> 0"
  shows "\<exists>m'. vsnprintf argm m s sz fmt args = Some (m', of_nat (length (call_chars calls)))
    \<and> (let k = min (length (call_chars calls)) (unat sz - 1)
       in bytes m' s (Suc k) = take k (call_chars calls) @ [0])
    \<and> (\<forall>x. unat sz \<le> unat (x - s) \<longrightarrow> m' x = m x)"
proof -
  let ?out = "call_chars calls" and ?z = "unat sz"
  have "0 < ?z" using assms(3) by (simp add: unat_gt_0)
  have "sp_holds m s sz [] (string_printer_new m s sz)"
    using assms(2) by (simp add: sp_holds_def string_printer_new_def)
  then obtain sp where run: "vprintf string_printer_putc (\<lambda>c sp. sp\<lparr>sp_color := c\<rparr>) argm fmt args
      (string_printer_new m s sz) = Some sp" and h: "sp_holds m s sz ?out sp"
    by (rule string_out.vprintf_printed [OF assms(1)])
  have h': "sp_end sp = s + sz" "sp_n sp = of_nat (length ?out)" "sp_s sp = s + of_nat (min (length ?out) ?z)"
      "bytes (sp_mem sp) s (min (length ?out) ?z) = take ?z ?out"
      "\<And>x. min (length ?out) ?z \<le> unat (x - s) \<Longrightarrow> sp_mem sp x = m x"
    using h by (simp_all add: sp_holds_def)
  have u: "unat (of_nat j :: u64) = j" if "j \<le> ?z" for j
    using that assms(2) by (intro unat_of_nat_small) simp
  have add: "unat (s + of_nat j) = unat s + j" if "j \<le> ?z" for j
    using unat_add_lem [of s "of_nat j"] u [OF that] that assms(2) by simp
  show ?thesis
  proof (cases "length ?out < ?z")
    case True
    let ?n = "length ?out" and ?m = "(sp_mem sp)(s + of_nat (length ?out) := 0)"
    have "sp_s sp < sp_end sp"
      using True add [of ?n] add [of ?z] by (simp add: h' word_less_nat_alt)
    then have "vsnprintf argm m s sz fmt args = Some (?m, of_nat ?n)"
      using run True assms(3) by (simp add: vsnprintf_def h' Let_def)
    moreover have "bytes ?m s (Suc ?n) = ?out @ [0]"
      using bytes_upd_outside [of ?n "s + of_nat ?n" s "sp_mem sp" 0] h'(4) True u [of ?n]
      by (simp only: bytes_Suc_end) simp
    moreover have "?m x = m x" if "?z \<le> unat (x - s)" for x
    proof -
      have "x \<noteq> s + of_nat ?n" using that True u [of ?n] by auto
      then show ?thesis using h'(5) [of x] that True by simp
    qed
    ultimately show ?thesis using True by (simp add: Let_def min_absorb1)
  next
    case False
    let ?e = "s + of_nat (?z - 1)" and ?m = "(sp_mem sp)(s + of_nat (?z - 1) := 0)"
    have e: "sp_end sp - 1 = ?e" using \<open>0 < ?z\<close> by (simp add: h' of_nat_diff)
    have "\<not> sp_s sp < sp_end sp" using False by (simp add: h' min_absorb2)
    then have "vsnprintf argm m s sz fmt args = Some (?m, of_nat (length ?out))"
      using run assms(3) by (simp add: vsnprintf_def h'(2) e Let_def)
    moreover have "bytes (sp_mem sp) s (?z - 1) = take (?z - 1) ?out"
    proof -
      have "bytes (sp_mem sp) s (Suc (?z - 1)) = take (Suc (?z - 1)) ?out"
        using h'(4) False \<open>0 < ?z\<close> by (simp add: min_absorb2)
      moreover have "?z - 1 < length ?out" using False \<open>0 < ?z\<close> by simp
      ultimately show ?thesis
        by (simp only: bytes_Suc_end take_Suc_conv_app_nth) simp
    qed
    then have "bytes ?m s (Suc (?z - 1)) = take (?z - 1) ?out @ [0]"
      using bytes_upd_outside [of "?z - 1" ?e s "sp_mem sp" 0] u [of "?z - 1"]
      by (simp only: bytes_Suc_end) simp
    moreover have "?m x = m x" if "?z \<le> unat (x - s)" for x
    proof -
      have "x \<noteq> ?e" using that \<open>0 < ?z\<close> u [of "?z - 1"] by auto
      then show ?thesis using h'(5) [of x] that by simp
    qed
    moreover have "min (length ?out) (?z - 1) = ?z - 1" using False by simp
    ultimately show ?thesis by (simp only: Let_def) blast
  qed
qed

theorem vsnprintf_bounded_witness:
  "\<exists>m'. vsnprintf (\<lambda>_. 0) (\<lambda>_. 0) 0x100 3 [0x61, 0x62, 0x63] [] = Some (m', 3)
    \<and> bytes m' 0x100 3 = [0x61, 0x62, 0]"
proof -
  have calls: "vprintf_calls (\<lambda>_. 0) [0x61, 0x62, 0x63] [] = Some (map Putc [0x61, 0x62, 0x63])" by simp
  have "bytes m' a 3 = [m' a, m' (a + 1), m' (a + 2)]" for m' a by (simp add: numeral_3_eq_3 add.assoc)
  then show ?thesis
    using vsnprintf_bounded [OF calls, of "0x100" 3 "\<lambda>_. 0"] unfolding call_chars_Putc Let_def by auto
qed

text \<open>
  \<open>print_number\<close> never runs out of its buffer. For the bases \<open>vprintf\<close> uses, the text
  left in the 32-byte buffer is the complete number in that base, with separators every three
  (decimal) or four (hexadecimal) digits when asked for; without separators, reading its digits
  back gives the value.
\<close>

theorem print_number_complete:
  assumes "base \<in> {10, 16, - 16}" "length buf = NUMBUFSIZ"
  shows "\<exists>buf' pos. print_number buf val base flags = (buf', pos)
    \<and> takeWhile (\<lambda>b. b \<noteq> 0) (drop pos buf') = number_text flags base val
    \<and> (\<not> flag_set flags FLAG_THOUSANDS \<longrightarrow>
         (\<exists>ds. number_text flags base val =
              map (\<lambda>d. (if base < 0 then lower_digits else upper_digits) ! d) ds
            \<and> ds \<noteq> [] \<and> (\<forall>d \<in> set ds. d < nat \<bar>base\<bar>) \<and> horner (nat \<bar>base\<bar>) ds 0 = unat val))"
proof -
  obtain buf' pos where r: "print_number buf val base flags = (buf', pos)" by (metis prod.exhaust)
  let ?B = "nat \<bar>base\<bar>"
  have B: "2 \<le> ?B" using assms(1) by auto
  let ?ds = "digits ?B (ndigits ?B (unat val)) (unat val)"
  have "number_text flags base val = map (\<lambda>d. (if base < 0 then lower_digits else upper_digits) ! d) ?ds"
    if "\<not> flag_set flags FLAG_THOUSANDS"
    using that by (simp add: number_text_def rev_text_def rdigits_digits [OF B] rev_map)
  moreover have "?ds \<noteq> []"
    using ndigits_bound(2) [OF B, of "unat val"] by (metis length_0_conv length_digits less_irrefl)
  moreover have "\<forall>d \<in> set ?ds. d < ?B" using digits_less [of ?B] B by auto
  moreover have "horner ?B ?ds 0 = unat val"
    using ndigits_power(1) [OF B, of "unat val"] B by (simp add: horner_digits)
  ultimately show ?thesis using print_number_spec(1) [OF assms r] r by blast
qed

theorem print_number_complete_witness:
  "\<exists>buf' pos. print_number (replicate NUMBUFSIZ 0) 1234567 10 FLAG_THOUSANDS = (buf', pos)
    \<and> takeWhile (\<lambda>b. b \<noteq> 0) (drop pos buf') = [0x31, 0x2C, 0x32, 0x33, 0x34, 0x2C, 0x35, 0x36, 0x37]"
proof -
  have "rdigits 10 1234567 = [7, 6, 5, 4, 3, 2, 1]" by (simp add: rdigits.simps)
  moreover have "sep_digits 3 c (Some 3) [x1, x2, x3, x4, x5, x6, x7] = [x1, x2, x3, c, x4, x5, x6, c, x7]"
    for c x1 x2 x3 x4 x5 x6 x7 :: byte by (simp add: numeral_3_eq_3)
  ultimately have "number_text FLAG_THOUSANDS 10 1234567 = [0x31, 0x2C, 0x32, 0x33, 0x34, 0x2C, 0x35, 0x36, 0x37]"
    by (simp add: number_text_def rev_text_def upper_digits_def)
  then show ?thesis
    using print_number_complete [of 10 "replicate NUMBUFSIZ 0" 1234567 FLAG_THOUSANDS] by auto
qed



end
