(* ===== verification/Console.thy ===== *)
theory Console
  imports Printf
begin

text \<open>
  The CGA console: \<open>console_printer\<close>, \<open>ansi_escape_buffer\<close>, \<open>console_clear\<close>, \<open>console_puts\<close>
  and \<open>console_vprintf\<close> of \<open>pset3/lib.cc\<close>. The console is a map from offsets to cells, so that a
  write outside the array of 2000 cells would be visible as a change of another cell; the pointer
  \<open>cell_\<close> is an offset. \<open>console_safe\<close> is the invariant of a printer; the locale \<open>printer\<close> is
  interpreted with it, which carries it through every \<open>vprintf\<close>.
\<close>

section \<open>Definitions\<close>

abbreviation CONSOLE_ROWS :: nat where "CONSOLE_ROWS \<equiv> 25"
abbreviation CONSOLE_COLUMNS :: int where "CONSOLE_COLUMNS \<equiv> 80"
abbreviation END_CPOS :: int where "END_CPOS \<equiv> 2000"
abbreviation COLOR_GRAY :: u32 where "COLOR_GRAY \<equiv> 0x0700"

type_synonym console = "int \<Rightarrow> u16"

record console_printer =
  cp_console :: console
  cp_cursorpos :: int
  cp_color :: u32
  cp_cell :: int
  cp_scroll_mode :: nat
  cp_scroll_blank :: int
  cp_buf :: "byte list"
  cp_len :: int

abbreviation (input) scroll_off :: nat where "scroll_off \<equiv> 0"
abbreviation (input) scroll_on :: nat where "scroll_on \<equiv> 1"
abbreviation (input) scroll_blank :: nat where "scroll_blank \<equiv> 2"

text \<open>\<open>console_clear\<close>; the hardware cursor it also moves is not part of the state.\<close>

definition console_clear :: "console \<Rightarrow> console \<times> int" where
  "console_clear con = (fold (\<lambda>i con. con(i := 0x20 OR 0x0700)) [0..END_CPOS - 1] con, 0)"

definition console_printer_new :: "console \<Rightarrow> int \<Rightarrow> int \<Rightarrow> nat \<Rightarrow> console_printer" where
  "console_printer_new con cursorpos cpos mode =
     \<lparr>cp_console = con, cp_cursorpos = cursorpos, cp_color = COLOR_GRAY,
      cp_cell = (if cpos < 0 then cursorpos else if cpos \<le> END_CPOS then cpos else 0),
      cp_scroll_mode = mode, cp_scroll_blank = - 1, cp_buf = replicate 12 0, cp_len = 0\<rparr>"

subsection \<open>Scrolling\<close>

text \<open>The scan stops at the first cell that is not blank; the first argument counts the cells left.\<close>

primrec blank_from :: "nat \<Rightarrow> console \<Rightarrow> int \<Rightarrow> bool" where
  "blank_from 0 con cpos = True"
| "blank_from (Suc n) con cpos \<longleftrightarrow> con cpos AND 0xF0DF = 0 \<and> blank_from n con (cpos + 1)"

definition console_line_is_blank :: "console \<Rightarrow> nat \<Rightarrow> bool" where
  "console_line_is_blank con row = blank_from 80 con (int row * CONSOLE_COLUMNS)"

primrec skip_nonblank_rows :: "console \<Rightarrow> nat \<Rightarrow> nat" where
  "skip_nonblank_rows con 0 = 0"
| "skip_nonblank_rows con (Suc row) =
     (if \<not> console_line_is_blank con row then skip_nonblank_rows con row else Suc row)"

primrec skip_blank_rows :: "console \<Rightarrow> nat \<Rightarrow> nat" where
  "skip_blank_rows con 0 = 0"
| "skip_blank_rows con (Suc row) =
     (if console_line_is_blank con row then skip_blank_rows con row else Suc row)"

definition scroll_start :: "console_printer \<Rightarrow> int" where
  "scroll_start cp =
     (if cp_scroll_mode cp = scroll_blank \<and> cp_scroll_blank cp < 0
      then int (skip_blank_rows (cp_console cp) (skip_nonblank_rows (cp_console cp) (CONSOLE_ROWS - 1)))
      else if cp_scroll_blank cp > 0 \<and> \<not> console_line_is_blank (cp_console cp) (nat (cp_scroll_blank cp))
      then 0 else cp_scroll_blank cp)"

definition console_shift :: "int \<Rightarrow> console \<Rightarrow> console" where
  "console_shift sp con =
     fold (\<lambda>i con. con(i := 0)) [END_CPOS - CONSOLE_COLUMNS..END_CPOS - 1]
       (fold (\<lambda>i con. con(i := con (i + CONSOLE_COLUMNS))) [sp..END_CPOS - CONSOLE_COLUMNS - 1] con)"

definition console_scroll :: "console_printer \<Rightarrow> console_printer result" where
  "console_scroll cp =
     (if \<not> cp_cell cp \<ge> END_CPOS then Inl (AssertFail ''cell_ >= console + END_CPOS'')
      else if cp_scroll_mode cp = scroll_off then Inr (cp\<lparr>cp_cell := 0\<rparr>)
      else let blank = scroll_start cp;
               sp = (if blank > 0 then blank * CONSOLE_COLUMNS else 0)
           in Inr (cp\<lparr>cp_scroll_blank := blank, cp_console := console_shift sp (cp_console cp),
                      cp_cell := cp_cell cp - CONSOLE_COLUMNS\<rparr>))"

lemma console_scroll_less: "console_scroll cp = Inr cp' \<Longrightarrow> cp_cell cp' < cp_cell cp"
  by (auto simp: console_scroll_def Let_def split: if_splits)

function console_scroll_loop :: "console_printer \<Rightarrow> console_printer result" where
  "console_scroll_loop cp =
     (if cp_cell cp \<ge> END_CPOS
      then case console_scroll cp of Inl e \<Rightarrow> Inl e | Inr cp' \<Rightarrow> console_scroll_loop cp'
      else Inr cp)"
  by pat_completeness auto
termination
  by (relation "measure (\<lambda>cp. nat (cp_cell cp))") (auto dest: console_scroll_less)

declare console_scroll_loop.simps [simp del]

subsection \<open>putc\<close>

definition console_write :: "u32 \<Rightarrow> console_printer \<Rightarrow> console_printer" where
  "console_write c cp =
     cp\<lparr>cp_console := (cp_console cp)(cp_cell cp := ucast (c OR cp_color cp)), cp_cell := cp_cell cp + 1\<rparr>"

text \<open>The part of \<open>console_printer::putc\<close> after the escape buffer has refused the character.\<close>

definition console_putc_direct :: "byte \<Rightarrow> console_printer \<Rightarrow> console_printer result" where
  "console_putc_direct c cp =
     (case console_scroll_loop cp of
        Inl e \<Rightarrow> Inl e
      | Inr cp \<Rightarrow>
          Inr (if c = 0x0A then (console_write 0x20 ^^ nat (80 - cp_cell cp mod 80)) cp
               else console_write (ucast c) cp))"

primrec console_put_all :: "byte list \<Rightarrow> console_printer \<Rightarrow> console_printer result" where
  "console_put_all [] cp = Inr cp"
| "console_put_all (c # cs) cp =
     (case console_putc_direct c cp of Inl e \<Rightarrow> Inl e | Inr cp' \<Rightarrow> console_put_all cs cp')"

text \<open>While \<open>flush\<close> runs, \<open>len_\<close> is negative, the buffer refuses every character and \<open>putc\<close>
  prints it directly.\<close>

definition ansi_flush :: "console_printer \<Rightarrow> console_printer result" where
  "ansi_flush cp =
     (if cp_len cp \<le> 0 then Inr cp
      else case console_put_all (take (nat (cp_len cp)) (cp_buf cp)) (cp\<lparr>cp_len := - 1\<rparr>) of
             Inl e \<Rightarrow> Inl e | Inr cp' \<Rightarrow> Inr (cp'\<lparr>cp_len := 0\<rparr>))"

definition colormap :: "u32 list" where
  "colormap = [0, 4, 2, 6, 1, 5, 3, 7]"

definition ansi_color :: "int \<Rightarrow> u32 \<Rightarrow> u32" where
  "ansi_color x color =
     (if x = 0 then COLOR_GRAY
      else if x = 1 then color OR 0x0800
      else if x = 2 then color AND NOT 0x0800
      else if x = 7 then (signed_drop_bit 4 color OR push_bit 4 color) AND 0xFF00
      else if x \<ge> 30 \<and> x \<le> 37 then color AND 0xF000 OR push_bit 8 (colormap ! nat (x - 30))
      else if x \<ge> 40 \<and> x \<le> 47 then color AND 0x0F00 OR push_bit 12 (colormap ! nat (x - 40))
      else if x \<ge> 90 \<and> x \<le> 97
      then color AND 0xF000 OR push_bit 8 (colormap ! nat (x - 90)) OR 0x0800
      else if x \<ge> 100 \<and> x \<le> 107
      then color AND 0x0F00 OR push_bit 12 (colormap ! nat (x - 100)) OR 0x8000
      else color)"

fun ansi_parse :: "byte list \<Rightarrow> int \<Rightarrow> u32 \<Rightarrow> u32" where
  "ansi_parse [] x color = color"
| "ansi_parse (c # cs) x color =
     (if isdigit (scast c) then ansi_parse cs (x * 10 + sint c - 48) color
      else ansi_parse cs 0 (ansi_color x color))"

definition ansi_putc_impl :: "byte \<Rightarrow> console_printer \<Rightarrow> console_printer result" where
  "ansi_putc_impl c cp =
     (if \<not> (0 \<le> cp_len cp \<and> nat (cp_len cp) < length (cp_buf cp)) then Inl (OutOfBounds ''buf_[len_]'')
      else let cp = cp\<lparr>cp_buf := (cp_buf cp)[nat (cp_len cp) := c], cp_len := cp_len cp + 1\<rparr>;
               len = cp_len cp
           in if len = 1 \<or> (len = 2 \<and> c = 0x5B)
                 \<or> (len > 2 \<and> len < int (length (cp_buf cp)) \<and> (isdigit (ucast c) \<or> c = 0x3B))
              then Inr cp
              else if c \<noteq> 0x6D then ansi_flush cp
              else Inr (cp\<lparr>cp_color := ansi_parse (drop 2 (take (nat len) (cp_buf cp))) 0 COLOR_GRAY,
                           cp_len := 0\<rparr>))"

definition console_putc :: "byte \<Rightarrow> console_printer \<Rightarrow> console_printer result" where
  "console_putc c cp =
     (if cp_len cp < 0 \<or> (cp_len cp = 0 \<and> c \<noteq> 0x1B) then console_putc_direct c cp
      else ansi_putc_impl c cp)"

definition console_move_cursor :: "console_printer \<Rightarrow> console_printer result" where
  "console_move_cursor cp =
     (case ansi_flush cp of Inl e \<Rightarrow> Inl e | Inr cp' \<Rightarrow> Inr (cp'\<lparr>cp_cursorpos := cp_cell cp'\<rparr>))"

subsection \<open>Entry points\<close>

text \<open>The printer as \<open>vprintf\<close> uses it.\<close>

definition console_putc_lifted :: "byte \<Rightarrow> console_printer result \<Rightarrow> console_printer result" where
  "console_putc_lifted c r = (case r of Inl e \<Rightarrow> Inl e | Inr cp \<Rightarrow> console_putc c cp)"

definition console_set_color :: "u32 \<Rightarrow> console_printer result \<Rightarrow> console_printer result" where
  "console_set_color k r = (case r of Inl e \<Rightarrow> Inl e | Inr cp \<Rightarrow> Inr (cp\<lparr>cp_color := k\<rparr>))"

definition console_finish :: "int \<Rightarrow> console_printer result \<Rightarrow> (console_printer \<times> int) result" where
  "console_finish cpos r =
     (case (case r of Inl e \<Rightarrow> Inl e | Inr cp \<Rightarrow> if cpos < 0 then console_move_cursor cp else Inr cp) of
        Inl e \<Rightarrow> Inl e | Inr cp \<Rightarrow> Inr (cp, cp_cell cp))"

definition console_puts ::
  "console \<Rightarrow> int \<Rightarrow> int \<Rightarrow> u32 \<Rightarrow> byte list \<Rightarrow> (console_printer \<times> int) result" where
  "console_puts con cursorpos cpos color s =
     console_finish cpos
       (fold console_putc_lifted s
         (Inr ((console_printer_new con cursorpos cpos (if cpos < 0 then scroll_on else scroll_off))
                 \<lparr>cp_color := color\<rparr>)))"

definition console_vprintf ::
  "mem \<Rightarrow> console \<Rightarrow> int \<Rightarrow> int \<Rightarrow> byte list \<Rightarrow> args \<Rightarrow> (console_printer \<times> int) result option" where
  "console_vprintf m con cursorpos cpos fmt args =
     map_option (console_finish cpos)
       (vprintf console_putc_lifted console_set_color m fmt args
         (Inr (console_printer_new con cursorpos cpos (if cpos < 0 then scroll_on else scroll_off))))"

section \<open>Closed forms of the console loops\<close>

lemma fold_store:
  "fold (\<lambda>i con. con(i := v)) [a..b] con = (\<lambda>i :: int. if a \<le> i \<and> i \<le> b then v else con i)"
proof -
  have "fold (\<lambda>i con. con(i := v)) xs con = (\<lambda>i. if i \<in> set xs then v else con i)" for xs :: "int list"
    by (induction xs arbitrary: con) (auto simp: fun_eq_iff)
  then show ?thesis by simp
qed

lemma fold_shift:
  fixes con :: "int \<Rightarrow> 'a"
  assumes "0 < k"
  shows "fold (\<lambda>i con. con(i := con (i + k))) [a..b] con = (\<lambda>i. if a \<le> i \<and> i \<le> b then con (i + k) else con i)"
proof (induction "nat (b - a + 1)" arbitrary: a con)
  case 0
  then show ?case by (auto simp: fun_eq_iff)
next
  case (Suc n)
  then have le: "a \<le> b" and n: "n = nat (b - (a + 1) + 1)" by simp_all
  show ?case
    using assms le by (simp only: upto_rec1 [OF le] fold_simps Suc.hyps(1) [OF n]) (auto simp: fun_eq_iff)
qed

lemma console_clear_cells:
  "console_clear con = ((\<lambda>i. if 0 \<le> i \<and> i < END_CPOS then 0x0720 else con i), 0)"
  unfolding console_clear_def fold_store by (auto simp: fun_eq_iff)

lemma columns_pos: "0 < CONSOLE_COLUMNS"
  by simp

lemma console_shift_cells:
  "console_shift sp con = (\<lambda>i. if END_CPOS - CONSOLE_COLUMNS \<le> i \<and> i < END_CPOS then 0
     else if sp \<le> i \<and> i < END_CPOS - CONSOLE_COLUMNS then con (i + CONSOLE_COLUMNS) else con i)"
  unfolding console_shift_def fold_store fold_shift [OF columns_pos] by (auto simp: fun_eq_iff)

section \<open>The invariant of a console printer\<close>

definition console_safe :: "console \<Rightarrow> console_printer \<Rightarrow> bool" where
  "console_safe con0 cp \<longleftrightarrow>
     0 \<le> cp_cell cp \<and> cp_cell cp \<le> END_CPOS \<and> 0 \<le> cp_cursorpos cp \<and> cp_cursorpos cp \<le> END_CPOS
     \<and> - 1 \<le> cp_scroll_blank cp \<and> cp_scroll_blank cp < int CONSOLE_ROWS
     \<and> length (cp_buf cp) = 12 \<and> cp_len cp < 12
     \<and> (\<forall>i. \<not> (0 \<le> i \<and> i < END_CPOS) \<longrightarrow> cp_console cp i = con0 i)"

lemma skip_rows_le: "skip_nonblank_rows con n \<le> n" "skip_blank_rows con n \<le> n"
  by (induction n) (auto simp: le_SucI)

lemma scroll_start_bounds:
  assumes "console_safe con0 cp"
  shows "- 1 \<le> scroll_start cp \<and> scroll_start cp < int CONSOLE_ROWS"
proof -
  have "skip_blank_rows con (skip_nonblank_rows con 24) < 25" for con
    using skip_rows_le(2) [of con "skip_nonblank_rows con 24"] skip_rows_le(1) [of con 24] by linarith
  then show ?thesis using assms by (auto simp: scroll_start_def console_safe_def)
qed

lemma console_scroll_safe:
  assumes "console_safe con0 cp" "cp_cell cp \<ge> END_CPOS"
  obtains cp' where "console_scroll cp = Inr cp'" "console_safe con0 cp'" "cp_len cp' = cp_len cp"
    "cp_color cp' = cp_color cp" "cp_cell cp' < END_CPOS"
proof (cases "cp_scroll_mode cp = scroll_off")
  case True
  with assms that [of "cp\<lparr>cp_cell := 0\<rparr>"] show ?thesis
    by (simp add: console_scroll_def console_safe_def)
next
  case False
  let ?b = "scroll_start cp"
  let ?cp = "cp\<lparr>cp_scroll_blank := ?b, cp_cell := cp_cell cp - CONSOLE_COLUMNS,
    cp_console := console_shift (if ?b > 0 then ?b * CONSOLE_COLUMNS else 0) (cp_console cp)\<rparr>"
  have "console_scroll cp = Inr ?cp" using False assms(2) by (simp add: console_scroll_def Let_def)
  moreover have "console_safe con0 ?cp"
    using assms scroll_start_bounds [OF assms(1)] by (auto simp: console_safe_def console_shift_cells)
  ultimately show ?thesis using that assms(1) by (simp add: console_safe_def)
qed

lemma console_scroll_loop_safe:
  assumes "console_safe con0 cp"
  obtains cp' where "console_scroll_loop cp = Inr cp'" "console_safe con0 cp'"
    "cp_cell cp' < END_CPOS" "cp_len cp' = cp_len cp" "cp_color cp' = cp_color cp"
proof (cases "cp_cell cp \<ge> END_CPOS")
  case True
  with assms obtain cp' where "console_scroll cp = Inr cp'" "console_safe con0 cp'"
    "cp_len cp' = cp_len cp" "cp_color cp' = cp_color cp" "cp_cell cp' < END_CPOS" by (rule console_scroll_safe)
  with True that show ?thesis
    by (simp add: console_scroll_loop.simps [of cp] console_scroll_loop.simps [of cp'])
next
  case False
  with assms that show ?thesis by (simp add: console_scroll_loop.simps [of cp])
qed

text \<open>Writing \<open>n\<close> cells in a row.\<close>

lemma console_write_pow:
  "(console_write c ^^ n) cp =
     cp\<lparr>cp_console := (\<lambda>i. if cp_cell cp \<le> i \<and> i < cp_cell cp + int n then ucast (c OR cp_color cp)
          else cp_console cp i), cp_cell := cp_cell cp + int n\<rparr>"
proof (induction n)
  case 0
  have "(\<lambda>i. if cp_cell cp \<le> i \<and> i < cp_cell cp + int 0 then ucast (c OR cp_color cp)
      else cp_console cp i) = cp_console cp"
    by (auto simp: fun_eq_iff)
  then show ?case by (simp del: of_nat_0)
next
  case (Suc n)
  show ?case
    unfolding funpow.simps comp_apply Suc
    by (auto simp: console_write_def fun_eq_iff intro!: console_printer.equality)
qed

lemma console_write_safe:
  assumes "console_safe con0 cp" "cp_cell cp + int n \<le> END_CPOS"
  shows "console_safe con0 ((console_write c ^^ n) cp)"
  using assms by (auto simp: console_safe_def console_write_pow)

lemma console_putc_direct_safe:
  assumes "console_safe con0 cp"
  obtains cp' where "console_putc_direct c cp = Inr cp'" "console_safe con0 cp'" "cp_len cp' = cp_len cp"
proof -
  from assms obtain cp1 where s: "console_scroll_loop cp = Inr cp1" "console_safe con0 cp1"
    "cp_cell cp1 < END_CPOS" "cp_len cp1 = cp_len cp" by (rule console_scroll_loop_safe)
  let ?n = "nat (80 - cp_cell cp1 mod 80)"
  have "cp_cell cp1 + int ?n \<le> END_CPOS"
    using s(2,3) by (auto simp: console_safe_def) presburger
  then have "console_safe con0 ((console_write 0x20 ^^ ?n) cp1)" using s(2) by (intro console_write_safe)
  moreover have "console_safe con0 (console_write (ucast c) cp1)"
    using console_write_safe [of con0 cp1 1 "ucast c"] s(2,3) by simp
  moreover have "cp_len ((console_write 0x20 ^^ ?n) cp1) = cp_len cp1" "cp_len (console_write (ucast c) cp1) = cp_len cp1"
    by (simp_all add: console_write_pow console_write_def)
  ultimately show ?thesis using that s(1,4) by (auto simp: console_putc_direct_def)
qed

lemma console_put_all_safe:
  assumes "console_safe con0 cp"
  obtains cp' where "console_put_all cs cp = Inr cp'" "console_safe con0 cp'" "cp_len cp' = cp_len cp"
  using assms
proof (induction cs arbitrary: cp thesis)
  case (Cons c cs)
  from Cons.prems(2) obtain cp1 where 1: "console_putc_direct c cp = Inr cp1" "console_safe con0 cp1"
    "cp_len cp1 = cp_len cp" by (rule console_putc_direct_safe)
  from 1(2) obtain cp2 where "console_put_all cs cp1 = Inr cp2" "console_safe con0 cp2" "cp_len cp2 = cp_len cp1"
    using Cons.IH by blast
  with 1 Cons.prems(1) show ?case by simp
qed simp

lemma ansi_flush_safe:
  assumes "console_safe con0 (cp\<lparr>cp_len := 0\<rparr>)" "0 \<le> cp_len cp" 
  obtains cp' where "ansi_flush cp = Inr cp'" "console_safe con0 cp'" "cp_len cp' = 0"
proof (cases "cp_len cp = 0")
  case True
  then have "cp\<lparr>cp_len := 0\<rparr> = cp" by simp
  with True assms(1) that [of cp] show ?thesis by (simp add: ansi_flush_def)
next
  case False
  have "console_safe con0 (cp\<lparr>cp_len := - 1\<rparr>)" using assms(1) by (simp add: console_safe_def)
  then obtain cp1 where "console_put_all (take (nat (cp_len cp)) (cp_buf cp)) (cp\<lparr>cp_len := - 1\<rparr>) = Inr cp1"
    "console_safe con0 cp1" by (rule console_put_all_safe)
  with False assms(2) that [of "cp1\<lparr>cp_len := 0\<rparr>"] show ?thesis
    by (simp add: ansi_flush_def console_safe_def)
qed

lemma console_putc_safe:
  assumes "console_safe con0 cp" "0 \<le> cp_len cp"
  obtains cp' where "console_putc c cp = Inr cp'" "console_safe con0 cp'" "0 \<le> cp_len cp'"
proof (cases "cp_len cp = 0 \<and> c \<noteq> 0x1B")
  case True
  from assms(1) obtain cp1 where "console_putc_direct c cp = Inr cp1" "console_safe con0 cp1" "cp_len cp1 = cp_len cp"
    by (rule console_putc_direct_safe)
  with True that show ?thesis by (simp add: console_putc_def)
next
  case False
  let ?cp = "cp\<lparr>cp_buf := (cp_buf cp)[nat (cp_len cp) := c], cp_len := cp_len cp + 1\<rparr>"
  have len: "nat (cp_len cp) < length (cp_buf cp)" "length (cp_buf cp) = 12"
    using assms by (auto simp: console_safe_def)
  have "console_safe con0 (?cp\<lparr>cp_len := 0\<rparr>)" "0 \<le> cp_len ?cp" using assms by (simp_all add: console_safe_def)
  then obtain cp1 where f: "ansi_flush ?cp = Inr cp1" "console_safe con0 cp1" "cp_len cp1 = 0"
    by (rule ansi_flush_safe)
  have putc: "console_putc c cp = ansi_putc_impl c cp" using False assms(2) by (auto simp: console_putc_def)
  let ?go = "cp_len ?cp = 1 \<or> (cp_len ?cp = 2 \<and> c = 0x5B)
      \<or> (cp_len ?cp > 2 \<and> cp_len ?cp < 12 \<and> (isdigit (ucast c) \<or> c = 0x3B))"
  let ?k = "ansi_parse (drop 2 (take (nat (cp_len ?cp)) (cp_buf ?cp))) 0 COLOR_GRAY"
  have impl: "ansi_putc_impl c cp = (if ?go then Inr ?cp else if c \<noteq> 0x6D then ansi_flush ?cp
      else Inr (?cp\<lparr>cp_color := ?k, cp_len := 0\<rparr>))"
    using len assms(2) by (simp add: ansi_putc_impl_def Let_def)
  consider (collect) ?go | (flush) "\<not> ?go" "c \<noteq> 0x6D" | (color) "\<not> ?go" "\<not> c \<noteq> 0x6D" by blast
  then show ?thesis
  proof cases
    case collect
    then have "console_putc c cp = Inr ?cp" by (simp only: putc impl if_True)
    then show ?thesis by (rule that) (use collect assms in \<open>auto simp: console_safe_def\<close>)
  next
    case flush
    then have "console_putc c cp = Inr cp1" by (simp only: putc impl if_False if_True f simp_thms)
    then show ?thesis by (rule that) (simp_all add: f)
  next
    case color
    have "console_putc c cp = Inr (?cp\<lparr>cp_color := ?k, cp_len := 0\<rparr>)"
      unfolding putc impl if_not_P [OF color(1)] if_not_P [OF color(2)] by (rule refl)
    then show ?thesis by (rule that) (use assms in \<open>simp_all add: console_safe_def\<close>)
  qed
qed

definition console_ok :: "console \<Rightarrow> byte list \<Rightarrow> console_printer result \<Rightarrow> bool" where
  "console_ok con0 out r \<longleftrightarrow> (\<exists>cp. r = Inr cp \<and> console_safe con0 cp \<and> 0 \<le> cp_len cp)"

interpretation console_out: printer console_putc_lifted console_set_color "console_ok con0" for con0
proof unfold_locales
  fix out c r
  assume "console_ok con0 out r"
  then obtain cp where r: "r = Inr cp" and s: "console_safe con0 cp" "0 \<le> cp_len cp"
    by (auto simp: console_ok_def)
  from s obtain cp' where "console_putc c cp = Inr cp'" "console_safe con0 cp'" "0 \<le> cp_len cp'"
    by (rule console_putc_safe)
  then show "console_ok con0 (out @ [c]) (console_putc_lifted c r)"
    by (simp add: console_ok_def console_putc_lifted_def r)
  show "console_ok con0 out (console_set_color k r)" for k
    using s by (simp add: console_ok_def console_set_color_def r console_safe_def)
qed

lemma console_new_safe:
  assumes "0 \<le> cursorpos" "cursorpos \<le> END_CPOS"
  shows "console_ok con [] (Inr ((console_printer_new con cursorpos cpos mode)\<lparr>cp_color := k\<rparr>))"
  using assms by (simp add: console_ok_def console_safe_def console_printer_new_def)

lemma console_finish_safe:
  assumes "console_ok con0 out r"
  obtains cp where "console_finish cpos r = Inr (cp, cp_cell cp)" "console_safe con0 cp"
    "cpos < 0 \<Longrightarrow> cp_cursorpos cp = cp_cell cp"
proof -
  from assms obtain cp where r: "r = Inr cp" and safe: "console_safe con0 cp" "0 \<le> cp_len cp"
    by (auto simp: console_ok_def)
  then have "console_safe con0 (cp\<lparr>cp_len := 0\<rparr>)" by (simp add: console_safe_def)
  then obtain cp1 where "ansi_flush cp = Inr cp1" "console_safe con0 cp1"
    using safe(2) by (rule ansi_flush_safe)
  then have "console_move_cursor cp = Inr (cp1\<lparr>cp_cursorpos := cp_cell cp1\<rparr>)"
    "console_safe con0 (cp1\<lparr>cp_cursorpos := cp_cell cp1\<rparr>)"
    by (simp_all add: console_move_cursor_def console_safe_def)
  then show ?thesis
    using r safe that [of cp] that [of "cp1\<lparr>cp_cursorpos := cp_cell cp1\<rparr>"]
    by (cases "cpos < 0") (simp_all add: console_finish_def)
qed

section \<open>Plain text\<close>

text \<open>The cells after writing characters from an offset on.\<close>

definition text_cells :: "u32 \<Rightarrow> byte list \<Rightarrow> int \<Rightarrow> console \<Rightarrow> console" where
  "text_cells color cs pos con =
     (\<lambda>i. if pos \<le> i \<and> i < pos + int (length cs) then ucast (ucast (cs ! nat (i - pos)) OR color) else con i)"

lemma text_cells_Cons:
  "text_cells color (c # cs) pos con = text_cells color cs (pos + 1) (con(pos := ucast (ucast c OR color)))"
proof
  fix i
  consider "i < pos" | "i = pos" | "pos < i" by linarith
  then show "text_cells color (c # cs) pos con i =
      text_cells color cs (pos + 1) (con(pos := ucast (ucast c OR color))) i"
  proof cases
    case 3
    then have "nat (i - pos) = Suc (nat (i - (pos + 1)))" by simp
    with 3 show ?thesis by (simp add: text_cells_def)
  qed (simp_all add: text_cells_def)
qed

lemma console_putc_plain:
  assumes "c \<noteq> 0x0A" "c \<noteq> 0x1B" "cp_len cp = 0" "cp_cell cp < END_CPOS"
  shows "console_putc c cp = Inr (console_write (ucast c) cp)"
  using assms by (simp add: console_putc_def console_putc_direct_def console_scroll_loop.simps [of cp])

lemma console_put_plain:
  assumes "0x0A \<notin> set cs" "0x1B \<notin> set cs" "cp_len cp = 0" "cp_cell cp + int (length cs) \<le> END_CPOS"
  shows "fold console_putc_lifted cs (Inr cp) =
    Inr (cp\<lparr>cp_console := text_cells (cp_color cp) cs (cp_cell cp) (cp_console cp),
            cp_cell := cp_cell cp + int (length cs)\<rparr>)"
  using assms
proof (induction cs arbitrary: cp)
  case Nil
  have "text_cells (cp_color cp) [] (cp_cell cp) (cp_console cp) = cp_console cp"
    by (auto simp: text_cells_def fun_eq_iff)
  then show ?case by simp
next
  case (Cons c cs)
  let ?cp = "console_write (ucast c) cp"
  have "console_putc_lifted c (Inr cp) = Inr ?cp"
    using Cons.prems by (simp add: console_putc_lifted_def console_putc_plain)
  moreover have "fold console_putc_lifted cs (Inr ?cp) =
      Inr (?cp\<lparr>cp_console := text_cells (cp_color ?cp) cs (cp_cell ?cp) (cp_console ?cp),
            cp_cell := cp_cell ?cp + int (length cs)\<rparr>)"
    using Cons.prems by (intro Cons.IH) (simp_all add: console_write_def)
  ultimately show ?case by (simp add: text_cells_Cons console_write_def add.commute)
qed

lemma console_vprintf_ends:
  assumes "vprintf_calls m fmt args = Some calls" "0 \<le> cursorpos" "cursorpos \<le> END_CPOS"
  shows "\<exists>cp pos. console_vprintf m con cursorpos cpos fmt args = Some (Inr (cp, pos))
    \<and> 0 \<le> pos \<and> pos \<le> END_CPOS \<and> (cpos < 0 \<longrightarrow> cp_cursorpos cp = pos)
    \<and> 0 \<le> cp_cursorpos cp \<and> cp_cursorpos cp \<le> END_CPOS
    \<and> (\<forall>i. \<not> (0 \<le> i \<and> i < END_CPOS) \<longrightarrow> cp_console cp i = con i)"
proof -
  let ?cp = "console_printer_new con cursorpos cpos (if cpos < 0 then scroll_on else scroll_off)"
  have "console_ok con [] (Inr (?cp\<lparr>cp_color := COLOR_GRAY\<rparr>))" using assms(2,3) by (rule console_new_safe)
  moreover have "?cp\<lparr>cp_color := COLOR_GRAY\<rparr> = ?cp" by (simp add: console_printer_new_def)
  ultimately have "console_ok con [] (Inr ?cp)" by (simp only:)
  with assms(1) obtain r where r: "vprintf console_putc_lifted console_set_color m fmt args (Inr ?cp) = Some r"
      "console_ok con (call_chars calls) r"
    by (rule console_out.vprintf_printed)
  obtain cp where "console_finish cpos r = Inr (cp, cp_cell cp)" "console_safe con cp"
    "cpos < 0 \<Longrightarrow> cp_cursorpos cp = cp_cell cp" using console_finish_safe [OF r(2), of cpos] by metis
  then show ?thesis using r(1) by (auto simp: console_vprintf_def console_safe_def)
qed

section \<open>Properties\<close>

text \<open>
  \<open>C11\<close>: printing is safe for the console. From a cursor on the screen, every call of
  \<open>console_vprintf\<close> with a well-defined format returns: no assertion fails and the escape buffer
  is never overrun. It changes no memory outside the 2000 cells of the console, returns a
  position on the screen, and at the current position (\<open>cpos < 0\<close>) leaves the cursor there;
  otherwise the cursor stays on the screen.
\<close>

theorem console_vprintf_safe:
  assumes "vprintf_calls m fmt args = Some calls" "0 \<le> cursorpos" "cursorpos \<le> END_CPOS"
  shows "\<exists>cp pos. console_vprintf m con cursorpos cpos fmt args = Some (Inr (cp, pos))
    \<and> 0 \<le> pos \<and> pos \<le> END_CPOS \<and> (cpos < 0 \<longrightarrow> cp_cursorpos cp = pos)
    \<and> 0 \<le> cp_cursorpos cp \<and> cp_cursorpos cp \<le> END_CPOS
    \<and> (\<forall>i. \<not> (0 \<le> i \<and> i < END_CPOS) \<longrightarrow> cp_console cp i = con i)"
  using assms by (rule console_vprintf_ends)

theorem console_vprintf_safe_witness:
  "\<exists>cp pos. console_vprintf (\<lambda>_. 0) (\<lambda>_. 0) 1999 (- 1) [0x61, 0x0A, 0x1B, 0x5B, 0x78] [] = Some (Inr (cp, pos))
    \<and> 0 \<le> pos \<and> pos \<le> END_CPOS"
  using console_vprintf_safe [of "\<lambda>_. 0" "[0x61, 0x0A, 0x1B, 0x5B, 0x78]" "[]" _ 1999 "\<lambda>_. 0" "- 1"]
  by fastforce

text \<open>
  plain text lands where it is asked for. \<open>console_puts\<close> of characters other than newline
  and escape, at a position from which they fit on the screen, stores each character with its
  color in consecutive cells, changes no other cell, and returns the position after the text.
\<close>

theorem console_puts_text:
  assumes "0x0A \<notin> set cs" "0x1B \<notin> set cs" "0 \<le> cpos" "cpos + int (length cs) \<le> END_CPOS"
  shows "\<exists>cp. console_puts con cursorpos cpos color cs = Inr (cp, cpos + int (length cs))
    \<and> cp_console cp = text_cells color cs cpos con \<and> cp_cursorpos cp = cursorpos"
proof -
  let ?cp = "(console_printer_new con cursorpos cpos scroll_off)\<lparr>cp_color := color\<rparr>"
  have "cp_len ?cp = 0" "cp_cell ?cp = cpos" using assms(3,4) by (simp_all add: console_printer_new_def)
  with assms have "fold console_putc_lifted cs (Inr ?cp) =
      Inr (?cp\<lparr>cp_console := text_cells color cs cpos (cp_console ?cp), cp_cell := cpos + int (length cs)\<rparr>)"
    using console_put_plain [of cs ?cp] by simp
  then show ?thesis
    using assms(3) by (simp add: console_puts_def console_finish_def console_printer_new_def)
qed

theorem console_puts_text_witness:
  "\<exists>cp. console_puts (\<lambda>_. 0) 0 81 0x0F00 [0x68, 0x69] = Inr (cp, 83)
    \<and> cp_console cp 81 = 0x0F68 \<and> cp_console cp 82 = 0x0F69"
  using console_puts_text [of "[0x68, 0x69]" 81 "\<lambda>_. 0" 0 "0x0F00"] by (auto simp: text_cells_def)

text \<open>
  scrolling moves the screen up by one line. When the position has run off the end, a
  scrolling printer copies every cell from the row below, clears the last row, moves its position
  back by one row, and changes nothing else.
\<close>

theorem console_scroll_moves_up:
  assumes "END_CPOS \<le> cp_cell cp" "cp_scroll_mode cp = scroll_on" "cp_scroll_blank cp = - 1"
  shows "\<exists>cp'. console_scroll cp = Inr cp' \<and> cp_cell cp' = cp_cell cp - CONSOLE_COLUMNS
    \<and> (\<forall>i. cp_console cp' i =
          (if 0 \<le> i \<and> i < END_CPOS - CONSOLE_COLUMNS then cp_console cp (i + CONSOLE_COLUMNS)
           else if END_CPOS - CONSOLE_COLUMNS \<le> i \<and> i < END_CPOS then 0 else cp_console cp i))"
  using assms by (simp add: console_scroll_def scroll_start_def console_shift_cells Let_def)

theorem console_scroll_moves_up_witness:
  "\<exists>cp'. console_scroll ((console_printer_new (\<lambda>i. if i = 80 then 7 else 0) 0 2000 scroll_on)) = Inr cp'
    \<and> cp_cell cp' = 1920 \<and> cp_console cp' 0 = 7 \<and> cp_console cp' 80 = 0"
  using console_scroll_moves_up [of "console_printer_new (\<lambda>i. if i = 80 then 7 else 0) 0 2000 scroll_on"]
  by (fastforce simp: console_printer_new_def)

text \<open>
  a color escape sequence prints nothing and sets the color. For every digit \<open>n\<close> below 8,
  the characters \<open>ESC [ 3 n m\<close> leave all cells, the position and the (empty) escape buffer as
  they were, and set the foreground to the CGA color of ANSI color \<open>n\<close> on black.
\<close>

theorem ansi_foreground:
  assumes "n < 8" "cp_len cp = 0" "length (cp_buf cp) = 12"
  shows "\<exists>cp'. fold console_putc_lifted [0x1B, 0x5B, 0x33, 0x30 + of_nat n, 0x6D] (Inr cp) = Inr cp'
    \<and> cp_color cp' = push_bit 8 (colormap ! n) \<and> cp_console cp' = cp_console cp
    \<and> cp_cell cp' = cp_cell cp \<and> cp_len cp' = 0"
proof -
  obtain b0 b1 b2 b3 b4 rest where b: "cp_buf cp = b0 # b1 # b2 # b3 # b4 # rest" "length rest = 7"
    using assms(3) by (cases "cp_buf cp" rule: list.exhaust; auto simp: numeral_eq_Suc length_Suc_conv)
  have n: "n = 0 \<or> n = 1 \<or> n = 2 \<or> n = 3 \<or> n = 4 \<or> n = 5 \<or> n = 6 \<or> n = 7"
    using assms(1) by linarith
  have d: "isdigit (ucast (0x30 + of_nat n :: byte))" "isdigit (scast (0x30 + of_nat n :: byte))"
      "sint (0x30 + of_nat n :: byte) = 48 + int n" "ansi_color (30 + int n) COLOR_GRAY = push_bit 8 (colormap ! n)"
    using n by (elim disjE; simp add: isdigit_def ansi_color_def)+
  show ?thesis
    using assms(2) b d
    by (simp add: console_putc_lifted_def console_putc_def ansi_putc_impl_def isdigit_def)
qed

theorem ansi_foreground_witness:
  "\<exists>cp'. fold console_putc_lifted [0x1B, 0x5B, 0x33, 0x31, 0x6D]
      (Inr (console_printer_new (\<lambda>_. 0) 0 0 scroll_off)) = Inr cp' \<and> cp_color cp' = 0x0400"
  using ansi_foreground [of 1 "console_printer_new (\<lambda>_. 0) 0 0 scroll_off"]
  by (auto simp: console_printer_new_def colormap_def)

end
