(* ===== verification/Log.thy ===== *)
theory Log
  imports Console PortIO
begin

text \<open>
  Debugging output of \<open>pset3/k-hardware.cc\<close>: the parallel port that carries the host's log,
  the log printer with its escape buffer, and the error printer that writes to the log and
  the console at once. Both printers are run by \<open>vprintf\<close>.
\<close>

section \<open>Parallel port\<close>

record port =
  initialized :: bool
  port_trace :: trace

definition delay :: "device \<Rightarrow> trace \<Rightarrow> trace" where
  "delay dev tr =
     snd (inb dev 0x84 (snd (inb dev 0x84 (snd (inb dev 0x84 (snd (inb dev 0x84 tr)))))))"

text \<open>The first argument counts the rounds that are left of the 12800.\<close>

primrec parallel_wait :: "nat \<Rightarrow> device \<Rightarrow> trace \<Rightarrow> trace" where
  "parallel_wait 0 dev tr = tr"
| "parallel_wait (Suc n) dev tr =
     (case inb dev 0x379 tr of (status, tr) \<Rightarrow>
        if status AND 0x80 = 0 then parallel_wait n dev (delay dev tr) else tr)"

definition parallel_port_putc :: "device \<Rightarrow> byte \<Rightarrow> port \<Rightarrow> port" where
  "parallel_port_putc dev c p =
     (let tr = (if \<not> initialized p then outb 0x37A 0 (port_trace p) else port_trace p);
          tr = parallel_wait 12800 dev tr;
          tr = outb 0x378 c tr;
          tr = outb 0x37A (0x08 OR 0x04 OR 0x01) tr;
          tr = outb 0x37A (0x08 OR 0x04) tr
      in \<lparr>initialized = True, port_trace = tr\<rparr>)"

section \<open>Log printer\<close>

record log_printer =
  lp_color :: u32
  lp_buf :: "byte list"
  lp_len :: int
  lp_port :: port

definition log_printer_new :: "port \<Rightarrow> log_printer" where
  "log_printer_new p = \<lparr>lp_color = COLOR_GRAY, lp_buf = replicate 12 0, lp_len = 0, lp_port = p\<rparr>"

definition log_putc_direct :: "device \<Rightarrow> byte \<Rightarrow> log_printer \<Rightarrow> log_printer" where
  "log_putc_direct dev c lp = lp\<lparr>lp_port := parallel_port_putc dev c (lp_port lp)\<rparr>"

text \<open>While the buffer is flushed its length is negative and every character is printed.\<close>

definition log_flush :: "device \<Rightarrow> log_printer \<Rightarrow> log_printer" where
  "log_flush dev lp =
     (if lp_len lp \<le> 0 then lp
      else (fold (log_putc_direct dev) (take (nat (lp_len lp)) (lp_buf lp)) (lp\<lparr>lp_len := - 1\<rparr>))
             \<lparr>lp_len := 0\<rparr>)"

definition log_putc_impl :: "device \<Rightarrow> byte \<Rightarrow> log_printer \<Rightarrow> log_printer result" where
  "log_putc_impl dev c lp =
     (if \<not> (0 \<le> lp_len lp \<and> nat (lp_len lp) < length (lp_buf lp)) then Inl (OutOfBounds ''buf_[len_]'')
      else let lp = lp\<lparr>lp_buf := (lp_buf lp)[nat (lp_len lp) := c], lp_len := lp_len lp + 1\<rparr>;
               len = lp_len lp
           in if len = 1 \<or> (len = 2 \<and> c = 0x5B)
                 \<or> (len > 2 \<and> len < int (length (lp_buf lp)) \<and> (isdigit (ucast c) \<or> c = 0x3B))
              then Inr lp
              else if c \<noteq> 0x6D then Inr (log_flush dev lp)
              else Inr (lp\<lparr>lp_color := ansi_parse (drop 2 (take (nat len) (lp_buf lp))) 0 COLOR_GRAY,
                           lp_len := 0\<rparr>))"

definition log_putc :: "device \<Rightarrow> byte \<Rightarrow> log_printer \<Rightarrow> log_printer result" where
  "log_putc dev c lp =
     (if lp_len lp < 0 \<or> (lp_len lp = 0 \<and> c \<noteq> 0x1B) then Inr (log_putc_direct dev c lp)
      else log_putc_impl dev c lp)"

text \<open>The printer as \<open>vprintf\<close> uses it.\<close>

definition log_putc_lifted :: "device \<Rightarrow> byte \<Rightarrow> log_printer result \<Rightarrow> log_printer result" where
  "log_putc_lifted dev c r = bind_result r (log_putc dev c)"

definition log_set_color :: "u32 \<Rightarrow> log_printer result \<Rightarrow> log_printer result" where
  "log_set_color k r = bind_result r (\<lambda>lp. Inr (lp\<lparr>lp_color := k\<rparr>))"

definition log_vprintf :: "device \<Rightarrow> mem \<Rightarrow> byte list \<Rightarrow> args \<Rightarrow> port \<Rightarrow> port result option" where
  "log_vprintf dev m fmt args p =
     map_option (map_sum id lp_port)
       (vprintf (log_putc_lifted dev) log_set_color m fmt args (Inr (log_printer_new p)))"

section \<open>Error printer\<close>

record error_printer =
  ep_con :: console_printer
  ep_log :: log_printer

abbreviation COLOR_ERROR :: u32 where "COLOR_ERROR \<equiv> 0xCF00"

definition error_printer_new :: "console \<Rightarrow> int \<Rightarrow> port \<Rightarrow> error_printer" where
  "error_printer_new con cursorpos p =
     (let cp = console_printer_new con cursorpos (- 1) scroll_blank;
          cp = (if cp_cell cp < END_CPOS - CONSOLE_COLUMNS then cp\<lparr>cp_cell := END_CPOS\<rparr> else cp)
      in \<lparr>ep_con = cp\<lparr>cp_color := COLOR_ERROR\<rparr>, ep_log = log_printer_new p\<rparr>)"

text \<open>
  \<open>error_printer::putc\<close> while the console's escape buffer refuses every character: the
  character goes to the log and to the console.
\<close>

definition error_putc_direct :: "device \<Rightarrow> byte \<Rightarrow> error_printer \<Rightarrow> error_printer result" where
  "error_putc_direct dev c ep =
     bind_result (log_putc dev c (ep_log ep)) (\<lambda>lp.
     bind_result (console_putc_direct c (ep_con ep)) (\<lambda>cp.
     Inr \<lparr>ep_con = cp, ep_log = lp\<rparr>))"

primrec error_put_all :: "device \<Rightarrow> byte list \<Rightarrow> error_printer \<Rightarrow> error_printer result" where
  "error_put_all dev [] ep = Inr ep"
| "error_put_all dev (c # cs) ep = bind_result (error_putc_direct dev c ep) (error_put_all dev cs)"

text \<open>The console's buffer flushes through the virtual \<open>putc\<close>, that is, through the log again.\<close>

definition error_flush :: "device \<Rightarrow> error_printer \<Rightarrow> error_printer result" where
  "error_flush dev ep =
     (let cp = ep_con ep in
      if cp_len cp \<le> 0 then Inr ep
      else bind_result
        (error_put_all dev (take (nat (cp_len cp)) (cp_buf cp)) (ep\<lparr>ep_con := cp\<lparr>cp_len := - 1\<rparr>\<rparr>))
        (\<lambda>ep. Inr (ep\<lparr>ep_con := (ep_con ep)\<lparr>cp_len := 0\<rparr>\<rparr>)))"

definition error_putc_impl :: "device \<Rightarrow> byte \<Rightarrow> error_printer \<Rightarrow> error_printer result" where
  "error_putc_impl dev c ep =
     (let cp = ep_con ep in
      if \<not> (0 \<le> cp_len cp \<and> nat (cp_len cp) < length (cp_buf cp)) then Inl (OutOfBounds ''buf_[len_]'')
      else let cp = cp\<lparr>cp_buf := (cp_buf cp)[nat (cp_len cp) := c], cp_len := cp_len cp + 1\<rparr>;
               len = cp_len cp
           in if len = 1 \<or> (len = 2 \<and> c = 0x5B)
                 \<or> (len > 2 \<and> len < int (length (cp_buf cp)) \<and> (isdigit (ucast c) \<or> c = 0x3B))
              then Inr (ep\<lparr>ep_con := cp\<rparr>)
              else if c \<noteq> 0x6D then error_flush dev (ep\<lparr>ep_con := cp\<rparr>)
              else Inr (ep\<lparr>ep_con := cp\<lparr>cp_color := ansi_parse (drop 2 (take (nat len) (cp_buf cp))) 0 COLOR_GRAY,
                           cp_len := 0\<rparr>\<rparr>))"

definition error_putc :: "device \<Rightarrow> byte \<Rightarrow> error_printer \<Rightarrow> error_printer result" where
  "error_putc dev c ep =
     bind_result (log_putc dev c (ep_log ep)) (\<lambda>lp.
     let ep = ep\<lparr>ep_log := lp\<rparr>; cp = ep_con ep in
     if cp_len cp < 0 \<or> (cp_len cp = 0 \<and> c \<noteq> 0x1B)
     then bind_result (console_putc_direct c cp) (\<lambda>cp. Inr (ep\<lparr>ep_con := cp\<rparr>))
     else error_putc_impl dev c ep)"

definition error_putc_lifted :: "device \<Rightarrow> byte \<Rightarrow> error_printer result \<Rightarrow> error_printer result" where
  "error_putc_lifted dev c r = bind_result r (error_putc dev c)"

definition error_set_color :: "u32 \<Rightarrow> error_printer result \<Rightarrow> error_printer result" where
  "error_set_color k r = bind_result r (\<lambda>ep. Inr (ep\<lparr>ep_con := (ep_con ep)\<lparr>cp_color := k\<rparr>\<rparr>))"

definition error_move_cursor :: "device \<Rightarrow> error_printer \<Rightarrow> error_printer result" where
  "error_move_cursor dev ep =
     bind_result (error_flush dev ep) (\<lambda>ep.
     Inr (ep\<lparr>ep_con := (ep_con ep)\<lparr>cp_cursorpos := cp_cell (ep_con ep)\<rparr>\<rparr>))"

definition error_printf :: "device \<Rightarrow> mem \<Rightarrow> byte list \<Rightarrow> args \<Rightarrow> error_printer \<Rightarrow> error_printer result option" where
  "error_printf dev m fmt args ep =
     vprintf (error_putc_lifted dev) error_set_color m fmt args (Inr ep)"

definition error_vprintf :: "device \<Rightarrow> mem \<Rightarrow> console \<Rightarrow> int \<Rightarrow> port \<Rightarrow> byte list \<Rightarrow> args
    \<Rightarrow> error_printer result option" where
  "error_vprintf dev m con cursorpos p fmt args =
     map_option (\<lambda>r. bind_result r (error_move_cursor dev))
       (error_printf dev m fmt args (error_printer_new con cursorpos p))"

section \<open>What reaches the log\<close>

text \<open>The bytes written to the data register, in order.\<close>

fun data_out :: "trace \<Rightarrow> byte list" where
  "data_out [] = []"
| "data_out (OutB p c # tr) = (if p = 0x378 then data_out tr @ [c] else data_out tr)"
| "data_out (_ # tr) = data_out tr"

abbreviation logged :: "log_printer \<Rightarrow> byte list" where
  "logged lp \<equiv> data_out (port_trace (lp_port lp))"

lemma data_out_inb: "data_out (snd (inb dev p tr)) = data_out tr"
  by (simp add: inb_def Let_def)

lemma data_out_wait: "data_out (parallel_wait n dev tr) = data_out tr"
proof (induction n arbitrary: tr)
  case (Suc n)
  then show ?case
    using data_out_inb [of dev "0x379" tr]
    by (cases "inb dev 0x379 tr") (auto simp: delay_def data_out_inb)
qed simp

lemma data_out_putc: "data_out (port_trace (parallel_port_putc dev c p)) = data_out (port_trace p) @ [c]"
  by (simp add: parallel_port_putc_def Let_def outb_def data_out_wait)

lemma log_putc_direct_out:
  "logged (log_putc_direct dev c lp) = logged lp @ [c]"
  "lp_len (log_putc_direct dev c lp) = lp_len lp" "lp_buf (log_putc_direct dev c lp) = lp_buf lp"
  by (simp_all add: log_putc_direct_def data_out_putc)

lemma log_put_all_out:
  "logged (fold (log_putc_direct dev) cs lp) = logged lp @ cs
   \<and> lp_len (fold (log_putc_direct dev) cs lp) = lp_len lp
   \<and> lp_buf (fold (log_putc_direct dev) cs lp) = lp_buf lp"
  by (induction cs arbitrary: lp) (simp_all add: log_putc_direct_out)

lemma log_flush_out:
  "0 < lp_len lp \<Longrightarrow> logged (log_flush dev lp) = logged lp @ take (nat (lp_len lp)) (lp_buf lp)
    \<and> lp_len (log_flush dev lp) = 0 \<and> lp_buf (log_flush dev lp) = lp_buf lp"
  using log_put_all_out [of dev "take (nat (lp_len lp)) (lp_buf lp)" "lp\<lparr>lp_len := - 1\<rparr>"]
  by (simp add: log_flush_def)

definition log_safe :: "log_printer \<Rightarrow> bool" where
  "log_safe lp \<longleftrightarrow> length (lp_buf lp) = 12 \<and> 0 \<le> lp_len lp \<and> lp_len lp < 12"

lemma log_putc_impl_safe:
  assumes "log_safe lp"
  shows "\<exists>lp'. log_putc_impl dev c lp = Inr lp' \<and> log_safe lp'"
proof -
  define lp1 where "lp1 = lp\<lparr>lp_buf := (lp_buf lp)[nat (lp_len lp) := c], lp_len := lp_len lp + 1\<rparr>"
  have "length (lp_buf lp1) = 12" "0 < lp_len lp1" "lp_len lp1 \<le> 12" "lp_len lp1 = 1 \<Longrightarrow> lp_len lp1 < 12"
    using assms by (simp_all add: lp1_def log_safe_def)
  moreover have "\<not> \<not> (0 \<le> lp_len lp \<and> nat (lp_len lp) < length (lp_buf lp))"
    using assms by (auto simp: log_safe_def nat_less_iff)
  ultimately show ?thesis
    unfolding log_putc_impl_def Let_def lp1_def [symmetric]
    using log_flush_out [of lp1 dev] by (auto simp: log_safe_def)
qed

lemma log_putc_safe:
  assumes "log_safe lp"
  obtains lp' where "log_putc dev c lp = Inr lp'" "log_safe lp'"
    "lp_len lp = 0 \<Longrightarrow> c \<noteq> 0x1B \<Longrightarrow> lp_len lp' = 0 \<and> logged lp' = logged lp @ [c]"
proof (cases "lp_len lp = 0 \<and> c \<noteq> 0x1B")
  case True
  then show ?thesis
    using that [of "log_putc_direct dev c lp"] assms
    by (simp add: log_putc_def log_safe_def log_putc_direct_out)
next
  case False
  then show ?thesis
    using that log_putc_impl_safe [OF assms, of dev c] assms by (auto simp: log_putc_def log_safe_def)
qed

definition log_holds :: "byte list \<Rightarrow> byte list \<Rightarrow> log_printer result \<Rightarrow> bool" where
  "log_holds base out r \<longleftrightarrow>
     (\<exists>lp. r = Inr lp \<and> log_safe lp \<and> (0x1B \<notin> set out \<longrightarrow> lp_len lp = 0 \<and> logged lp = base @ out))"

interpretation log_out: printer "log_putc_lifted dev" log_set_color "log_holds base" for dev base
proof unfold_locales
  fix out c r
  assume "log_holds base out r"
  then obtain lp where r: "r = Inr lp" "log_safe lp"
    "0x1B \<notin> set out \<Longrightarrow> lp_len lp = 0 \<and> logged lp = base @ out"
    by (auto simp: log_holds_def)
  obtain lp' where "log_putc dev c lp = Inr lp'" "log_safe lp'"
    "lp_len lp = 0 \<Longrightarrow> c \<noteq> 0x1B \<Longrightarrow> lp_len lp' = 0 \<and> logged lp' = logged lp @ [c]"
    using log_putc_safe [OF r(2)] by metis
  then show "log_holds base (out @ [c]) (log_putc_lifted dev c r)"
    using r by (auto simp: log_holds_def log_putc_lifted_def)
  show "log_holds base out (log_set_color k r)" for k
    using r by (auto simp: log_holds_def log_set_color_def log_safe_def)
qed

section \<open>The error printer is safe\<close>

definition error_safe :: "console \<Rightarrow> error_printer \<Rightarrow> bool" where
  "error_safe con0 ep \<longleftrightarrow> console_safe con0 (ep_con ep) \<and> log_safe (ep_log ep)"

lemma error_putc_direct_safe:
  assumes "error_safe con0 ep"
  obtains ep' where "error_putc_direct dev c ep = Inr ep'" "error_safe con0 ep'"
    "cp_len (ep_con ep') = cp_len (ep_con ep)"
proof -
  obtain lp where "log_putc dev c (ep_log ep) = Inr lp" "log_safe lp"
    using assms log_putc_safe [of "ep_log ep"] unfolding error_safe_def by metis
  moreover obtain cp where "console_putc_direct c (ep_con ep) = Inr cp" "console_safe con0 cp"
      "cp_len cp = cp_len (ep_con ep)"
    using assms console_putc_direct_safe [of con0 "ep_con ep" c] unfolding error_safe_def by metis
  ultimately show ?thesis using that by (simp add: error_putc_direct_def error_safe_def)
qed

lemma error_put_all_safe:
  assumes "error_safe con0 ep"
  shows "\<exists>ep'. error_put_all dev cs ep = Inr ep' \<and> error_safe con0 ep'
    \<and> cp_len (ep_con ep') = cp_len (ep_con ep)"
  using assms
proof (induction cs arbitrary: ep)
  case (Cons c cs)
  obtain ep1 where "error_putc_direct dev c ep = Inr ep1" "error_safe con0 ep1"
    "cp_len (ep_con ep1) = cp_len (ep_con ep)" using error_putc_direct_safe [OF Cons.prems] by metis
  with Cons.IH [of ep1] show ?case by simp
qed simp

lemma error_flush_safe:
  assumes "console_safe con0 (ep_con ep)" "log_safe (ep_log ep)" "0 \<le> cp_len (ep_con ep)"
  shows "\<exists>ep'. error_flush dev ep = Inr ep' \<and> error_safe con0 ep' \<and> cp_len (ep_con ep') = 0"
proof (cases "cp_len (ep_con ep) = 0")
  case True
  then show ?thesis using assms by (simp add: error_flush_def error_safe_def)
next
  case False
  let ?ep = "ep\<lparr>ep_con := (ep_con ep)\<lparr>cp_len := - 1\<rparr>\<rparr>"
  have "error_safe con0 ?ep" using assms by (simp add: error_safe_def console_safe_def)
  then obtain ep' where "error_put_all dev (take (nat (cp_len (ep_con ep))) (cp_buf (ep_con ep))) ?ep = Inr ep'"
    "error_safe con0 ep'" using error_put_all_safe by blast
  then show ?thesis
    using False assms(3) by (simp add: error_flush_def Let_def error_safe_def console_safe_def)
qed

lemma error_putc_impl_safe:
  assumes "error_safe con0 ep" "0 \<le> cp_len (ep_con ep)"
  shows "\<exists>ep'. error_putc_impl dev c ep = Inr ep' \<and> error_safe con0 ep' \<and> 0 \<le> cp_len (ep_con ep')"
proof -
  define cp where "cp = (ep_con ep)\<lparr>cp_buf := (cp_buf (ep_con ep))[nat (cp_len (ep_con ep)) := c],
    cp_len := cp_len (ep_con ep) + 1\<rparr>"
  have len: "length (cp_buf cp) = 12" "0 < cp_len cp" "cp_len cp \<le> 12" "cp_len cp = 1 \<Longrightarrow> cp_len cp < 12"
    using assms by (simp_all add: cp_def error_safe_def console_safe_def)
  have cells: "console_safe con0 (cp\<lparr>cp_len := l\<rparr>)" if "l < 12" for l
    using assms(1) that by (simp add: cp_def error_safe_def console_safe_def)
  have log: "log_safe (ep_log ep)" using assms(1) by (simp add: error_safe_def)
  have ok: "\<not> \<not> (0 \<le> cp_len (ep_con ep) \<and> nat (cp_len (ep_con ep)) < length (cp_buf (ep_con ep)))"
    using assms by (auto simp: error_safe_def console_safe_def nat_less_iff)
  have flush: "\<exists>ep'. error_flush dev (ep\<lparr>ep_con := cp\<rparr>) = Inr ep' \<and> error_safe con0 ep' \<and> 0 \<le> cp_len (ep_con ep')"
  proof -
    let ?ep = "ep\<lparr>ep_con := cp\<lparr>cp_len := - 1\<rparr>\<rparr>"
    have "error_safe con0 ?ep" using cells [of "- 1"] log by (simp add: error_safe_def)
    then obtain ep' where "error_put_all dev (take (nat (cp_len cp)) (cp_buf cp)) ?ep = Inr ep'"
      "error_safe con0 ep'" using error_put_all_safe by blast
    then show ?thesis using len(2) by (simp add: error_flush_def error_safe_def console_safe_def)
  qed
  have "console_safe con0 cp" if "cp_len cp < 12" using cells [OF that] by simp
  moreover have "console_safe con0 (cp\<lparr>cp_color := k, cp_len := 0\<rparr>)" for k
    using cells [of 0] by (simp add: console_safe_def)
  ultimately show ?thesis
    unfolding error_putc_impl_def Let_def cp_def [symmetric] using ok len flush log
    by (auto simp: error_safe_def)
qed

lemma error_putc_safe:
  assumes "error_safe con0 ep" "0 \<le> cp_len (ep_con ep)"
  obtains ep' where "error_putc dev c ep = Inr ep'" "error_safe con0 ep'" "0 \<le> cp_len (ep_con ep')"
    "\<lbrakk>cp_len (ep_con ep) = 0; lp_len (ep_log ep) = 0; c \<noteq> 0x1B\<rbrakk> \<Longrightarrow>
      cp_len (ep_con ep') = 0 \<and> lp_len (ep_log ep') = 0 \<and> logged (ep_log ep') = logged (ep_log ep) @ [c]"
proof -
  obtain lp where lp: "log_putc dev c (ep_log ep) = Inr lp" "log_safe lp"
    "\<lbrakk>lp_len (ep_log ep) = 0; c \<noteq> 0x1B\<rbrakk> \<Longrightarrow> lp_len lp = 0 \<and> logged lp = logged (ep_log ep) @ [c]"
    using assms log_putc_safe [of "ep_log ep"] unfolding error_safe_def by metis
  let ?ep = "ep\<lparr>ep_log := lp\<rparr>"
  have safe: "error_safe con0 ?ep" using assms(1) lp(2) by (simp add: error_safe_def)
  show ?thesis
  proof (cases "cp_len (ep_con ep) = 0 \<and> c \<noteq> 0x1B")
    case True
    obtain cp where "console_putc_direct c (ep_con ep) = Inr cp" "console_safe con0 cp"
        "cp_len cp = cp_len (ep_con ep)"
      using assms console_putc_direct_safe [of con0 "ep_con ep" c] unfolding error_safe_def by metis
    then show ?thesis
      using that [of "?ep\<lparr>ep_con := cp\<rparr>"] True lp by (simp add: error_putc_def Let_def error_safe_def)
  next
    case False
    then show ?thesis
      using that error_putc_impl_safe [OF safe, of dev c] assms(2) lp(1)
      by (auto simp: error_putc_def Let_def)
  qed
qed

definition error_holds :: "console \<Rightarrow> byte list \<Rightarrow> byte list \<Rightarrow> error_printer result \<Rightarrow> bool" where
  "error_holds con0 base out r \<longleftrightarrow>
     (\<exists>ep. r = Inr ep \<and> error_safe con0 ep \<and> 0 \<le> cp_len (ep_con ep)
        \<and> (0x1B \<notin> set out \<longrightarrow>
             cp_len (ep_con ep) = 0 \<and> lp_len (ep_log ep) = 0 \<and> logged (ep_log ep) = base @ out))"

interpretation error_out: printer "error_putc_lifted dev" error_set_color "error_holds con0 base"
  for dev con0 base
proof unfold_locales
  fix out c r
  assume "error_holds con0 base out r"
  then obtain ep where r: "r = Inr ep" "error_safe con0 ep" "0 \<le> cp_len (ep_con ep)"
    "0x1B \<notin> set out \<Longrightarrow>
       cp_len (ep_con ep) = 0 \<and> lp_len (ep_log ep) = 0 \<and> logged (ep_log ep) = base @ out"
    by (auto simp: error_holds_def)
  obtain ep' where "error_putc dev c ep = Inr ep'" "error_safe con0 ep'" "0 \<le> cp_len (ep_con ep')"
    "\<lbrakk>cp_len (ep_con ep) = 0; lp_len (ep_log ep) = 0; c \<noteq> 0x1B\<rbrakk> \<Longrightarrow>
      cp_len (ep_con ep') = 0 \<and> lp_len (ep_log ep') = 0 \<and> logged (ep_log ep') = logged (ep_log ep) @ [c]"
    using error_putc_safe [OF r(2,3)] by metis
  then show "error_holds con0 base (out @ [c]) (error_putc_lifted dev c r)"
    using r by (auto simp: error_holds_def error_putc_lifted_def)
  show "error_holds con0 base out (error_set_color k r)" for k
    using r by (auto simp: error_holds_def error_set_color_def error_safe_def console_safe_def)
qed

lemma error_printer_new_holds:
  assumes "0 \<le> cursorpos" "cursorpos \<le> END_CPOS"
  shows "error_holds con (data_out (port_trace p)) [] (Inr (error_printer_new con cursorpos p))"
  using assms
  by (simp add: error_holds_def error_printer_new_def Let_def error_safe_def console_safe_def
      log_safe_def log_printer_new_def console_printer_new_def)

lemma error_vprintf_ends:
  assumes "vprintf_calls m fmt args = Some calls" "0 \<le> cursorpos" "cursorpos \<le> END_CPOS"
  shows "\<exists>ep. error_vprintf dev m con cursorpos p fmt args = Some (Inr ep)
    \<and> (\<forall>i. \<not> (0 \<le> i \<and> i < END_CPOS) \<longrightarrow> cp_console (ep_con ep) i = con i)
    \<and> 0 \<le> cp_cursorpos (ep_con ep) \<and> cp_cursorpos (ep_con ep) \<le> END_CPOS
    \<and> (0x1B \<notin> set (call_chars calls) \<longrightarrow> logged (ep_log ep) = data_out (port_trace p) @ call_chars calls)"
proof -
  obtain r where r: "error_printf dev m fmt args (error_printer_new con cursorpos p) = Some r"
    "error_holds con (data_out (port_trace p)) (call_chars calls) r"
    using error_out.vprintf_printed [OF assms(1) error_printer_new_holds [OF assms(2,3)]]
    unfolding error_printf_def by metis
  then obtain ep where ep: "r = Inr ep" "error_safe con ep" "0 \<le> cp_len (ep_con ep)"
    "0x1B \<notin> set (call_chars calls) \<Longrightarrow>
       cp_len (ep_con ep) = 0 \<and> logged (ep_log ep) = data_out (port_trace p) @ call_chars calls"
    by (auto simp: error_holds_def)
  obtain ep' where f: "error_flush dev ep = Inr ep'" "error_safe con ep'"
    using error_flush_safe ep(2,3) unfolding error_safe_def by metis
  have "ep' = ep" if "cp_len (ep_con ep) = 0" using f(1) that by (simp add: error_flush_def)
  then show ?thesis
    using r(1) ep f by (auto simp: error_vprintf_def error_move_cursor_def error_safe_def console_safe_def)
qed

lemma log_vprintf_ends:
  assumes "vprintf_calls m fmt args = Some calls"
  shows "\<exists>p'. log_vprintf dev m fmt args p = Some (Inr p')
    \<and> (0x1B \<notin> set (call_chars calls) \<longrightarrow>
         data_out (port_trace p') = data_out (port_trace p) @ call_chars calls)"
proof -
  have "log_holds (data_out (port_trace p)) [] (Inr (log_printer_new p))"
    by (simp add: log_holds_def log_safe_def log_printer_new_def)
  then obtain r where "vprintf (log_putc_lifted dev) log_set_color m fmt args (Inr (log_printer_new p)) = Some r"
    "log_holds (data_out (port_trace p)) (call_chars calls) r"
    using log_out.vprintf_printed [OF assms] by metis
  then show ?thesis by (auto simp: log_vprintf_def log_holds_def)
qed

section \<open>Properties\<close>

text \<open>
  \<open>log_vprintf\<close> never overruns its escape buffer, and formatted text without an escape
  character reaches the parallel port byte for byte and in order, whatever the port's status
  register answers.
\<close>

theorem log_vprintf_text:
  assumes "vprintf_calls m fmt args = Some calls"
  shows "\<exists>p'. log_vprintf dev m fmt args p = Some (Inr p')
    \<and> (0x1B \<notin> set (call_chars calls) \<longrightarrow>
         data_out (port_trace p') = data_out (port_trace p) @ call_chars calls)"
  using assms by (rule log_vprintf_ends)

theorem log_vprintf_text_witness:
  "\<exists>p'. log_vprintf (\<lambda>_ _. 0) (\<lambda>_. 0) [0x4F, 0x4B] [] \<lparr>initialized = False, port_trace = []\<rparr> = Some (Inr p')
    \<and> data_out (port_trace p') = [0x4F, 0x4B]"
proof -
  have "vprintf_calls (\<lambda>_. 0) [0x4F, 0x4B] [] = Some [Putc 0x4F, Putc 0x4B]"
    by simp
  from log_vprintf_text [OF this, of "\<lambda>_ _. 0" "\<lparr>initialized = False, port_trace = []\<rparr>"]
  show ?thesis by auto
qed

text \<open>
  \<open>error_vprintf\<close> returns for every format and every text, escape sequences included: no
  assertion fails, no buffer is overrun, no memory outside the console is written and the
  cursor stays on the console; text without escape characters is logged once.
\<close>

theorem error_vprintf_safe:
  assumes "vprintf_calls m fmt args = Some calls" "0 \<le> cursorpos" "cursorpos \<le> END_CPOS"
  shows "\<exists>ep. error_vprintf dev m con cursorpos p fmt args = Some (Inr ep)
    \<and> (\<forall>i. \<not> (0 \<le> i \<and> i < END_CPOS) \<longrightarrow> cp_console (ep_con ep) i = con i)
    \<and> 0 \<le> cp_cursorpos (ep_con ep) \<and> cp_cursorpos (ep_con ep) \<le> END_CPOS
    \<and> (0x1B \<notin> set (call_chars calls) \<longrightarrow> logged (ep_log ep) = data_out (port_trace p) @ call_chars calls)"
  using assms by (rule error_vprintf_ends)

theorem error_vprintf_safe_witness:
  "\<exists>ep. error_vprintf (\<lambda>_ _. 0) (\<lambda>_. 0) (\<lambda>_. 0) 0 \<lparr>initialized = False, port_trace = []\<rparr> [0x4F, 0x4B] []
      = Some (Inr ep) \<and> logged (ep_log ep) = [0x4F, 0x4B]"
proof -
  have "vprintf_calls (\<lambda>_. 0) [0x4F, 0x4B] [] = Some [Putc 0x4F, Putc 0x4B]"
    by simp
  from error_vprintf_safe [OF this, of 0 "\<lambda>_ _. 0" "\<lambda>_. 0" "\<lparr>initialized = False, port_trace = []\<rparr>"]
  show ?thesis by auto
qed

lemma log_escape_pair:
  assumes "log_safe lp" "lp_len lp = 0" "c \<noteq> 0x5B" "c \<noteq> 0x6D"
  obtains lp1 lp2 where "log_putc dev 0x1B lp = Inr lp1" "log_safe lp1"
    "log_putc dev c lp1 = Inr lp2" "log_safe lp2" "lp_len lp2 = 0" "logged lp2 = logged lp @ [0x1B, c]"
proof -
  let ?lp1 = "lp\<lparr>lp_buf := (lp_buf lp)[0 := 0x1B], lp_len := 1\<rparr>"
  let ?lp2 = "?lp1\<lparr>lp_buf := (lp_buf ?lp1)[1 := c], lp_len := 2\<rparr>"
  have len: "length (lp_buf lp) = 12" using assms(1) by (simp add: log_safe_def)
  then have take: "take 2 ((lp_buf lp)[0 := 0x1B, 1 := c]) = [0x1B, c]"
    by (cases "lp_buf lp" rule: remdups_adj.cases) (simp_all add: take_Cons')
  have "log_putc dev 0x1B lp = Inr ?lp1"
    using assms(2) len by (simp add: log_putc_def log_putc_impl_def Let_def)
  moreover have "log_putc dev c ?lp1 = Inr (log_flush dev ?lp2)"
    using assms(3,4) len by (simp add: log_putc_def log_putc_impl_def Let_def)
  moreover have "log_safe ?lp1" using len by (simp add: log_safe_def)
  ultimately show ?thesis
    using that [of ?lp1 "log_flush dev ?lp2"] log_flush_out [of ?lp2 dev] take len
    by (simp add: log_safe_def)
qed

text \<open>
  an escape character that does not start a color sequence is logged twice by the
  error printer: its log printer passes it on, and then the console's escape buffer flushes
  it through the same virtual \<open>putc\<close>.
\<close>

theorem error_escape_logged_twice:
  assumes "error_safe con0 ep" "cp_len (ep_con ep) = 0" "lp_len (ep_log ep) = 0" "c \<noteq> 0x5B" "c \<noteq> 0x6D"
  shows "\<exists>ep'. bind_result (error_putc dev 0x1B ep) (error_putc dev c) = Inr ep'
    \<and> logged (ep_log ep') = logged (ep_log ep) @ [0x1B, c, 0x1B, c]"
proof -
  let ?cp = "ep_con ep"
  have safe: "console_safe con0 ?cp" "log_safe (ep_log ep)" using assms(1) by (simp_all add: error_safe_def)
  have len: "length (cp_buf ?cp) = 12" using safe(1) by (simp add: console_safe_def)
  then have take: "take 2 ((cp_buf ?cp)[0 := 0x1B, 1 := c]) = [0x1B, c]"
    by (cases "cp_buf ?cp" rule: remdups_adj.cases) (simp_all add: take_Cons')
  obtain lp1 lp2 where log1: "log_putc dev 0x1B (ep_log ep) = Inr lp1" "log_putc dev c lp1 = Inr lp2"
      "log_safe lp2" "lp_len lp2 = 0" "logged lp2 = logged (ep_log ep) @ [0x1B, c]"
    using log_escape_pair [OF safe(2) assms(3-5)] by metis
  obtain lp3 lp4 where log2: "log_putc dev 0x1B lp2 = Inr lp3" "log_putc dev c lp3 = Inr lp4"
      "logged lp4 = logged lp2 @ [0x1B, c]"
    using log_escape_pair [OF log1(3,4) assms(4,5)] by metis
  let ?cp2 = "?cp\<lparr>cp_buf := (cp_buf ?cp)[0 := 0x1B, 1 := c], cp_len := - 1\<rparr>"
  have "console_safe con0 ?cp2" using safe(1) by (simp add: console_safe_def)
  then obtain cp3 where cp3: "console_putc_direct 0x1B ?cp2 = Inr cp3" "console_safe con0 cp3"
    using console_putc_direct_safe by metis
  then obtain cp4 where cp4: "console_putc_direct c cp3 = Inr cp4" using console_putc_direct_safe by metis
  have "error_putc dev 0x1B ep = Inr \<lparr>ep_con = ?cp\<lparr>cp_buf := (cp_buf ?cp)[0 := 0x1B], cp_len := 1\<rparr>, ep_log = lp1\<rparr>"
    using assms(2) len log1(1) by (cases ep) (simp add: error_putc_def error_putc_impl_def Let_def)
  moreover have "error_putc dev c \<lparr>ep_con = ?cp\<lparr>cp_buf := (cp_buf ?cp)[0 := 0x1B], cp_len := 1\<rparr>, ep_log = lp1\<rparr>
      = Inr \<lparr>ep_con = cp4\<lparr>cp_len := 0\<rparr>, ep_log = lp4\<rparr>"
    using assms(4,5) len log1(2) log2 cp3(1) cp4 take
    by (simp add: error_putc_def error_putc_impl_def Let_def error_flush_def error_putc_direct_def)
  ultimately show ?thesis using log1(5) log2(3) by simp
qed

theorem error_escape_logged_twice_witness:
  "\<exists>ep'. bind_result (error_putc (\<lambda>_ _. 0) 0x1B (error_printer_new (\<lambda>_. 0) 0 \<lparr>initialized = True, port_trace = []\<rparr>))
      (error_putc (\<lambda>_ _. 0) 0x78) = Inr ep' \<and> logged (ep_log ep') = [0x1B, 0x78, 0x1B, 0x78]"
  using error_escape_logged_twice [of "\<lambda>_. 0" "error_printer_new (\<lambda>_. 0) 0 \<lparr>initialized = True, port_trace = []\<rparr>"
      "0x78" "\<lambda>_ _. 0"]
  by (simp add: error_printer_new_def Let_def error_safe_def console_safe_def log_safe_def
      log_printer_new_def console_printer_new_def)

end
