(* ===== verification/Backtrace.thy ===== *)
theory Backtrace
  imports VmWalk Cpu Log
begin

text \<open>
  Debugging aids of \<open>pset3/k-hardware.cc\<close> that read memory: the symbol table search, the
  stack walk of \<open>backtracer\<close>, the printed backtrace and \<open>strlcpy_from_user\<close>. Code that reads
  through page tables may panic (the iterator's sanity check) and may, as a partial function,
  not return: its values are of type \<open>'a result option\<close>.
\<close>

section \<open>Symbol table\<close>

record elf_symbol =
  st_name :: u32
  st_info :: byte
  st_other :: byte
  st_shndx :: u16
  st_value :: u64
  st_size :: u64

record elf_symtabref =
  sym :: "elf_symbol list"
  strtab :: addr

abbreviation SYMTAB_ADDR :: u64 where "SYMTAB_ADDR \<equiv> 0x1000000"

text \<open>The test of the binary search at index \<open>m\<close>; \<open>nsym\<close> is the length of the table.\<close>

definition symbol_covers :: "elf_symbol list \<Rightarrow> u64 \<Rightarrow> nat \<Rightarrow> bool" where
  "symbol_covers syms addr m \<longleftrightarrow>
     st_value (syms ! m) \<le> addr
     \<and> (if m + 1 = length syms then addr < st_value (syms ! m) + 0x1000
        else addr < st_value (syms ! (m + 1)))
     \<and> (st_size (syms ! m) = 0 \<or> addr \<le> st_value (syms ! m) + st_size (syms ! m))"

function symbol_search :: "elf_symbol list \<Rightarrow> u64 \<Rightarrow> nat \<Rightarrow> nat \<Rightarrow> elf_symbol option" where
  "symbol_search syms addr l r =
     (if l < r
      then let m = l + (r - l) div 2; s = syms ! m in
           if symbol_covers syms addr m
           then if st_value s = 0 then None else Some s
           else if st_value s < addr then symbol_search syms addr (m + 1) r
           else symbol_search syms addr l m
      else None)"
  by pat_completeness auto
termination
  by (relation "measure (\<lambda>(_, _, l, r). r - l)") auto

declare symbol_search.simps [simp del]

definition map_symtab :: "addr \<Rightarrow> mem \<Rightarrow> mem" where
  "map_symtab kpt m =
     (let a = kpt + 2 * PAGESIZE + 8 * (SYMTAB_ADDR div 0x200000) in
      if load64 m a = 0 then store64 m a (SYMTAB_ADDR OR PTE_P OR PTE_W OR PTE_PS) else m)"

definition lookup_symbol :: "addr \<Rightarrow> elf_symtabref \<Rightarrow> u64 \<Rightarrow> mem \<Rightarrow> mem \<times> (addr \<times> u64) option" where
  "lookup_symbol kpt tab addr m =
     (map_symtab kpt m,
      map_option (\<lambda>s. (strtab tab + ucast (st_name s), st_value s))
        (symbol_search (sym tab) addr 0 (length (sym tab))))"

section \<open>Stack walk\<close>

record backtrace_regs =
  bt_reg_rip :: u64
  bt_reg_rsp :: u64
  bt_reg_rbp :: u64

definition backtrace_regs_of :: "regstate \<Rightarrow> backtrace_regs" where
  "backtrace_regs_of r =
     \<lparr>bt_reg_rip = reg_rip r, bt_reg_rsp = reg_rsp r, bt_reg_rbp = reg_rbp r\<rparr>"

record backtracer =
  bt_rbp :: u64
  bt_rsp :: u64
  bt_stack_top :: u64
  bt_leaf :: bool
  bt_pt :: addr

definition bt_ok :: "backtracer \<Rightarrow> bool" where
  "bt_ok bt \<longleftrightarrow> bt_rsp bt \<noteq> 0"

text \<open>\<open>deref\<close>: a read through a null kernel pointer is undefined.\<close>

definition deref :: "mem \<Rightarrow> addr \<Rightarrow> u64 \<Rightarrow> u64 result" where
  "deref m pt va =
     bind_result (vmiter_new m pt va) (\<lambda>it.
       if vmiter_kptr m it = 0 then Inl (Undefined ''null dereference'')
       else Inr (load64 m (vmiter_kptr m it)))"

definition bt_ret_rip :: "mem \<Rightarrow> backtracer \<Rightarrow> u64 result" where
  "bt_ret_rip m bt = (if bt_leaf bt then deref m (bt_pt bt) (bt_rsp bt) else deref m (bt_pt bt) (bt_rbp bt + 8))"

definition has_range :: "mem \<Rightarrow> addr \<Rightarrow> u64 \<Rightarrow> u64 \<Rightarrow> u64 \<Rightarrow> bool result option" where
  "has_range m pt va sz perm =
     bind_ro (Some (vmiter_new m pt va)) (\<lambda>it. vmiter_range_has_perm m it sz perm)"

definition bt_check :: "mem \<Rightarrow> backtracer \<Rightarrow> (bool \<times> backtracer) result option" where
  "bt_check m bt =
     (if bt_pt bt = 0 \<or> bt_rbp bt AND 7 \<noteq> 0 then Some (Inr (False, bt))
      else bind_ro (has_range m (bt_pt bt) (bt_rbp bt) 16 PTE_P) (\<lambda>ok.
        if \<not> ok then Some (Inr (False, bt))
        else if bt_stack_top bt \<ge> VA_HIGHMIN \<and> bt_rbp bt < VA_LOWMAX
        then let bt' = bt\<lparr>bt_stack_top := round_up (bt_rbp bt) PAGESIZE\<rparr> in
             Some (Inr (bt_stack_top bt' \<ge> bt_rbp bt \<and> bt_stack_top bt' - bt_rbp bt \<ge> 16, bt'))
        else if bt_rbp bt < bt_rsp bt then Some (Inr (False, bt))
        else Some (Inr (bt_stack_top bt \<ge> bt_rbp bt \<and> bt_stack_top bt - bt_rbp bt \<ge> 16, bt))))"

text \<open>Bytes read through an iterator while its address is present, at most \<open>n\<close>.\<close>

primrec read_present :: "nat \<Rightarrow> mem \<Rightarrow> vmiter \<Rightarrow> (byte list \<times> vmiter) result" where
  "read_present 0 m it = Inr ([], it)"
| "read_present (Suc n) m it =
     (if \<not> vmiter_present m it then Inr ([], it)
      else bind_result (vmiter_find m it (vm_va it + 1)) (\<lambda>it'.
           bind_result (read_present n m it') (\<lambda>(bs, it'').
           Inr (m (vmiter_kptr m it) # bs, it''))))"

definition call_offset :: "byte list \<Rightarrow> u64" where
  "call_offset ibuf =
     scast (ucast (ibuf ! 1) + push_bit 8 (ucast (ibuf ! 2)) + push_bit 16 (ucast (ibuf ! 3))
            + push_bit 24 (ucast (ibuf ! 4)) :: u32)"

text \<open>The heuristic of \<open>check_leaf\<close> once the return address has been read.\<close>

definition leaf_call :: "mem \<Rightarrow> backtracer \<Rightarrow> u64 \<Rightarrow> u64 \<Rightarrow> bool result" where
  "leaf_call m bt rip retaddr =
     (if sint (retaddr - rip) > 0x10000
         \<or> (retaddr \<ge> bt_stack_top bt - PAGESIZE \<and> retaddr \<le> bt_stack_top bt) then Inr False
      else bind_result (vmiter_new m (bt_pt bt) (retaddr - 5)) (\<lambda>it.
           bind_result (read_present 5 m it) (\<lambda>(ibuf, it).
      if length ibuf \<noteq> 5 \<or> ibuf ! 0 \<noteq> 0xE8 then Inr False
      else let fnaddr = retaddr + call_offset ibuf in
      if fnaddr > rip \<or> rip - fnaddr > 0x1000 then Inr False
      else bind_result (vmiter_find m it fnaddr) (\<lambda>it.
           bind_result (read_present 5 m it) (\<lambda>(ibuf, it).
      Inr (\<not> (length ibuf \<noteq> 5 \<or> ibuf ! 0 = 0x55 \<or> ibuf = [0xF3, 0x0F, 0x1E, 0xF1, 0x55])))))))"

definition bt_check_leaf :: "mem \<Rightarrow> backtracer \<Rightarrow> u64 \<Rightarrow> backtracer result option" where
  "bt_check_leaf m bt rip =
     (if \<not> (bt_pt bt \<noteq> 0 \<and> bt_stack_top bt \<ge> bt_rsp bt \<and> bt_stack_top bt - bt_rsp bt \<ge> 8
            \<and> bt_rsp bt AND 7 = 0) then Some (Inr bt)
      else bind_ro (has_range m (bt_pt bt) (bt_rsp bt) 8 PTE_P) (\<lambda>ok.
        if \<not> ok then Some (Inr bt)
        else bind_ro (Some (deref m (bt_pt bt) (bt_rsp bt))) (\<lambda>retaddr.
             bind_ro (Some (leaf_call m bt rip retaddr)) (\<lambda>leaf.
        Some (Inr (if leaf then bt\<lparr>bt_leaf := True\<rparr> else bt))))))"

definition bt_stop_unless :: "bool \<times> backtracer \<Rightarrow> backtracer" where
  "bt_stop_unless r = (if fst r then snd r else (snd r)\<lparr>bt_rbp := 0, bt_rsp := 0\<rparr>)"

definition backtracer_new :: "mem \<Rightarrow> backtrace_regs \<Rightarrow> addr \<Rightarrow> backtracer result option" where
  "backtracer_new m r pt =
     (let bt = \<lparr>bt_rbp = bt_reg_rbp r, bt_rsp = bt_reg_rsp r,
                bt_stack_top = round_up (bt_reg_rsp r) PAGESIZE, bt_leaf = False, bt_pt = pt\<rparr> in
      bind_ro (bt_check_leaf m bt (bt_reg_rip r)) (\<lambda>bt.
        if bt_leaf bt then Some (Inr bt)
        else bind_ro (bt_check m bt) (\<lambda>res. Some (Inr (bt_stop_unless res)))))"

definition bt_step :: "mem \<Rightarrow> backtracer \<Rightarrow> backtracer result option" where
  "bt_step m bt =
     bind_ro (if bt_leaf bt then Some (Inr (bt\<lparr>bt_leaf := False\<rparr>))
              else bind_ro (Some (deref m (bt_pt bt) (bt_rbp bt))) (\<lambda>rbp.
                   Some (Inr (bt\<lparr>bt_rsp := bt_rbp bt + 16, bt_rbp := rbp\<rparr>)))) (\<lambda>bt.
     bind_ro (bt_check m bt) (\<lambda>res. Some (Inr (bt_stop_unless res))))"

section \<open>Printed backtraces\<close>

text \<open>A printer's \<open>printf\<close> is the argument \<open>pf\<close>; the memory it reads is that of the kernel.\<close>

type_synonym 's printf_fun = "mem \<Rightarrow> byte list \<Rightarrow> args \<Rightarrow> 's \<Rightarrow> 's result option"

definition print_frame :: "'s printf_fun \<Rightarrow> addr \<Rightarrow> elf_symtabref \<Rightarrow> int \<Rightarrow> u64 \<Rightarrow> u64 \<Rightarrow> mem \<times> 's
    \<Rightarrow> (mem \<times> 's) result option" where
  "print_frame pf kpt tab frame rip addr ms =
     (case ms of (m, s) \<Rightarrow>
      case lookup_symbol kpt tab addr m of (m, found) \<Rightarrow>
      bind_ro
        (case found of
           Some (name, _) \<Rightarrow> pf m (str ''  #%d  %p  <%s>'' @ [0x0A]) [word_of_int frame, rip, name] s
         | None \<Rightarrow> pf m (str ''  #%d  %p'' @ [0x0A]) [word_of_int frame, rip] s)
        (\<lambda>s. Some (Inr (m, s))))"

partial_function (option) print_frames :: "'s printf_fun \<Rightarrow> addr \<Rightarrow> elf_symtabref \<Rightarrow> int \<Rightarrow> backtracer
    \<Rightarrow> mem \<times> 's \<Rightarrow> (mem \<times> 's) result option" where
  "print_frames pf kpt tab frame bt ms =
     (if \<not> bt_ok bt then Some (Inr ms)
      else bind_ro (Some (bt_ret_rip (fst ms) bt)) (\<lambda>ret_rip.
           bind_ro (print_frame pf kpt tab frame ret_rip (ret_rip - 2) ms) (\<lambda>ms.
           bind_ro (bt_step (fst ms) bt) (\<lambda>bt.
           print_frames pf kpt tab (frame + 1) bt ms))))"

definition print_rip :: "'s printf_fun \<Rightarrow> addr \<Rightarrow> elf_symtabref \<Rightarrow> u64 \<Rightarrow> mem \<times> 's \<Rightarrow> (mem \<times> 's) result option" where
  "print_rip pf kpt tab rip ms =
     (case ms of (m, s) \<Rightarrow>
      case lookup_symbol kpt tab rip m of (m, found) \<Rightarrow>
      bind_ro
        (case found of
           Some (name, _) \<Rightarrow> pf m (str ''  #0  %p  <%s>'' @ [0x0A]) [rip, name] s
         | None \<Rightarrow> pf m (str ''  #0  %p'' @ [0x0A]) [rip] s)
        (\<lambda>s. Some (Inr (m, s))))"

definition print_backtrace :: "'s printf_fun \<Rightarrow> addr \<Rightarrow> elf_symtabref \<Rightarrow> backtrace_regs \<Rightarrow> addr \<Rightarrow> bool
    \<Rightarrow> mem \<times> 's \<Rightarrow> (mem \<times> 's) result option" where
  "print_backtrace pf kpt tab r pt exclude_rip ms =
     bind_ro (backtracer_new (fst ms) r pt) (\<lambda>bt.
     bind_ro
       (if bt_rsp bt \<noteq> bt_rbp bt \<and> round_up (bt_rsp bt) PAGESIZE = round_down (bt_rbp bt) PAGESIZE
        then bind_ro (pf (fst ms) (str ''  warning: possible stack overflow (rsp %p, rbp %p)'' @ [0x0A])
               [bt_rsp bt, bt_rbp bt] (snd ms)) (\<lambda>s. Some (Inr (fst ms, s)))
        else Some (Inr ms)) (\<lambda>ms.
     bind_ro
       (if \<not> exclude_rip \<and> bt_reg_rip r \<noteq> 0 then print_rip pf kpt tab (bt_reg_rip r) ms
        else Some (Inr ms)) (\<lambda>ms.
     print_frames pf kpt tab 1 bt ms)))"

section \<open>Copying from user memory\<close>

text \<open>
  \<open>strlcpy_from_user\<close> into a buffer of the kernel; \<open>n\<close> counts the characters that may still be
  copied.
\<close>

primrec copy_user :: "nat \<Rightarrow> mem \<Rightarrow> vmiter \<Rightarrow> (byte list) result" where
  "copy_user 0 m it = Inr []"
| "copy_user (Suc n) m it =
     (if \<not> vmiter_user m it then Inr []
      else bind_result (vmiter_find m it (vm_va it + 1)) (\<lambda>it'.
           bind_result (copy_user n m it') (\<lambda>bs. Inr (m (vmiter_kptr m it) # bs))))"

definition strlcpy_from_user :: "byte list \<Rightarrow> mem \<Rightarrow> vmiter \<Rightarrow> (byte list) result" where
  "strlcpy_from_user buf m it =
     bind_result (copy_user (length buf - 1) m it) (\<lambda>bs.
       Inr (if length bs < length buf then bs @ 0 # drop (length bs + 1) buf else buf))"

section \<open>The symbol search\<close>

definition strictly_sorted :: "elf_symbol list \<Rightarrow> bool" where
  "strictly_sorted syms \<longleftrightarrow> (\<forall>i j. i < j \<and> j < length syms \<longrightarrow> st_value (syms ! i) < st_value (syms ! j))"

lemma covers_before:
  assumes "strictly_sorted syms" "symbol_covers syms addr i" "i < length syms" "m < length syms"
    and "st_value (syms ! m) < addr" "\<not> symbol_covers syms addr m"
  shows "m < i"
proof (rule ccontr)
  assume "\<not> m < i"
  then have "i < m" using assms(2,6) by (cases "i = m") auto
  then have "addr < st_value (syms ! (i + 1))" using assms(2,4) by (simp add: symbol_covers_def)
  moreover have "st_value (syms ! (i + 1)) \<le> st_value (syms ! m)"
    using assms(1,4) \<open>i < m\<close> unfolding strictly_sorted_def
    by (cases "i + 1 = m") (auto intro: less_imp_le)
  ultimately show False using assms(5) by (meson le_less_trans less_asym less_le_trans)
qed

lemma covers_after:
  assumes "strictly_sorted syms" "symbol_covers syms addr i" "i < length syms" "m < length syms"
    and "\<not> st_value (syms ! m) < addr" "\<not> symbol_covers syms addr m"
  shows "i < m"
proof (rule ccontr)
  assume "\<not> i < m"
  then have "m < i" using assms(2,6) by (cases "i = m") auto
  then have "st_value (syms ! m) < st_value (syms ! i)" using assms(1,3) by (simp add: strictly_sorted_def)
  moreover have "st_value (syms ! i) \<le> addr" using assms(2) by (simp add: symbol_covers_def)
  ultimately show False using assms(5) by (meson less_le_trans)
qed

lemma covers_unique:
  assumes "strictly_sorted syms" "symbol_covers syms addr i" "symbol_covers syms addr j"
    and "i < length syms" "j < length syms"
  shows "i = j"
proof -
  have "\<not> i < j" if "symbol_covers syms addr i" "symbol_covers syms addr j" "j < length syms" for i j
  proof
    assume "i < j"
    then have "addr < st_value (syms ! (i + 1))" using that(1,3) by (simp add: symbol_covers_def)
    moreover have "st_value (syms ! (i + 1)) \<le> st_value (syms ! j)"
      using assms(1) that(3) \<open>i < j\<close> unfolding strictly_sorted_def
      by (cases "i + 1 = j") (auto intro: less_imp_le)
    moreover have "st_value (syms ! j) \<le> addr" using that(2) by (simp add: symbol_covers_def)
    ultimately show False by (meson less_le_trans less_irrefl)
  qed
  then show ?thesis using assms(2-5) by (meson linorder_neqE_nat)
qed

lemma symbol_search_correct:
  assumes "strictly_sorted syms" "r \<le> length syms"
    and "\<And>i. symbol_covers syms addr i \<Longrightarrow> i < length syms \<Longrightarrow> l \<le> i \<and> i < r"
  shows "symbol_search syms addr l r = Some s \<longleftrightarrow>
    (\<exists>i < length syms. symbol_covers syms addr i \<and> s = syms ! i \<and> st_value s \<noteq> 0)"
  using assms
proof (induction syms addr l r rule: symbol_search.induct)
  case (1 syms addr l r)
  show ?case
  proof (cases "l < r")
    case False
    then show ?thesis using 1(5) by (subst symbol_search.simps) (auto, metis not_le order.strict_trans1)
  next
    case True
    define m where "m = l + (r - l) div 2"
    have m: "l \<le> m" "m < r" "m < length syms" using True 1(4) by (auto simp: m_def)
    show ?thesis
    proof (cases "symbol_covers syms addr m")
      case c: True
      then have "(\<exists>i < length syms. symbol_covers syms addr i \<and> s = syms ! i \<and> st_value s \<noteq> 0)
          \<longleftrightarrow> s = syms ! m \<and> st_value s \<noteq> 0"
        using covers_unique [OF 1(3) _ c] m(3) by blast
      then show ?thesis
        using c True by (subst symbol_search.simps) (auto simp: Let_def m_def [symmetric])
    next
      case c: False
      show ?thesis
      proof (cases "st_value (syms ! m) < addr")
        case v: True
        have "m + 1 \<le> i \<and> i < r" if "symbol_covers syms addr i" "i < length syms" for i
          using covers_before [OF 1(3) that m(3) v c] 1(5) [OF that] by simp
        then have "symbol_search syms addr (m + 1) r = Some s \<longleftrightarrow>
            (\<exists>i < length syms. symbol_covers syms addr i \<and> s = syms ! i \<and> st_value s \<noteq> 0)"
          using 1(1) [OF True m_def refl] c v 1(3,4) by blast
        then show ?thesis
          using c v True by (subst symbol_search.simps) (simp add: Let_def m_def [symmetric])
      next
        case v: False
        have "l \<le> i \<and> i < m" if "symbol_covers syms addr i" "i < length syms" for i
          using covers_after [OF 1(3) that m(3) v c] 1(5) [OF that] by simp
        then have "symbol_search syms addr l m = Some s \<longleftrightarrow>
            (\<exists>i < length syms. symbol_covers syms addr i \<and> s = syms ! i \<and> st_value s \<noteq> 0)"
          using 1(2) [OF True m_def refl c v 1(3) less_imp_le [OF m(3)]] by blast
        then show ?thesis
          using c v True by (subst symbol_search.simps) (simp add: Let_def m_def [symmetric])
      qed
    qed
  qed
qed

section \<open>The stack walk ends\<close>

lemma bind_ro_some:
  assumes "\<exists>r. x = Some r" "\<And>a. x = Some (Inr a) \<Longrightarrow> \<exists>r. f a = Some r"
  shows "\<exists>r. bind_ro x f = Some r"
proof -
  obtain r where r: "x = Some r" using assms(1) by blast
  with assms(2) show ?thesis by (cases r) auto
qed

lemma has_range_ends: "page_aligned pt \<Longrightarrow> \<exists>r. has_range m pt va sz perm = Some r"
  unfolding has_range_def
  by (rule bind_ro_some) (auto simp: vmiter_range_has_perm_def dest: vmiter_range_perm_ends)

lemma bt_check_ends: "page_aligned (bt_pt bt) \<Longrightarrow> \<exists>r. bt_check m bt = Some r"
  by (auto simp: bt_check_def Let_def intro!: bind_ro_some has_range_ends)

text \<open>A frame that passed the check lies below the top of its stack.\<close>

definition bt_on_stack :: "backtracer \<Rightarrow> bool" where
  "bt_on_stack bt \<longleftrightarrow> unat (bt_rbp bt) + 16 \<le> unat (bt_stack_top bt)"

definition bt_measure :: "backtracer \<Rightarrow> nat" where
  "bt_measure bt =
     (if bt_leaf bt then 2 ^ 66 else 0) + (if bt_stack_top bt \<ge> VA_HIGHMIN then 2 ^ 65 else 0)
     + (unat (bt_stack_top bt) - unat (bt_rbp bt))"

lemma stack_room:
  "a \<ge> b \<and> a - b \<ge> (16 :: u64) \<longleftrightarrow> unat b + 16 \<le> unat a"
proof -
  have "a - b \<ge> 16 \<longleftrightarrow> unat b + 16 \<le> unat a" if "a \<ge> b"
    using that by (auto simp: word_le_nat_alt unat_sub)
  then show ?thesis by (auto simp: word_le_nat_alt)
qed

lemma bt_check_true:
  assumes "bt_check m bt = Some (Inr (True, bt'))"
  shows "bt_on_stack bt' \<and> bt_leaf bt' = bt_leaf bt \<and> bt_pt bt' = bt_pt bt \<and> bt_rsp bt' = bt_rsp bt
    \<and> bt_rbp bt' = bt_rbp bt
    \<and> (bt_stack_top bt \<ge> VA_HIGHMIN \<and> bt_stack_top bt' < VA_HIGHMIN
       \<or> bt_stack_top bt' = bt_stack_top bt \<and> bt_rsp bt \<le> bt_rbp bt)"
proof -
  have checked: "\<exists>ok. has_range m (bt_pt bt) (bt_rbp bt) 16 PTE_P = Some (Inr ok) \<and> ok"
    and res: "(if bt_stack_top bt \<ge> VA_HIGHMIN \<and> bt_rbp bt < VA_LOWMAX
        then bt' = bt\<lparr>bt_stack_top := round_up (bt_rbp bt) PAGESIZE\<rparr>
        else bt' = bt \<and> bt_rsp bt \<le> bt_rbp bt) \<and> bt_on_stack bt'"
    using assms unfolding bt_check_def Let_def
    by (auto simp: bind_ro_def bt_on_stack_def stack_room not_less split: if_splits bind_splits sum.splits)
  have "bt_stack_top bt' < VA_HIGHMIN" if "bt_rbp bt < VA_LOWMAX" "bt' = bt\<lparr>bt_stack_top := round_up (bt_rbp bt) PAGESIZE\<rparr>"
  proof -
    have "unat (bt_rbp bt) < 140737488355327" using that(1) by (simp add: word_less_nat_alt)
    then have "unat (round_up (bt_rbp bt) PAGESIZE) \<le> 140737488355328"
      by (intro round_up_multiple(3)) simp_all
    then show ?thesis using that(2) by (simp add: word_less_nat_alt)
  qed
  with res show ?thesis by (auto split: if_splits)
qed

lemma bt_step_ends:
  assumes "page_aligned (bt_pt bt)"
  shows "\<exists>r. bt_step m bt = Some r"
  using assms unfolding bt_step_def
  by (intro bind_ro_some) (auto intro!: bt_check_ends bind_ro_some simp: bind_ro_def split: sum.splits if_splits)

lemma bt_step_progress:
  assumes "bt_step m bt = Some (Inr bt')" "bt_ok bt'" "bt_leaf bt \<or> bt_on_stack bt"
  shows "bt_pt bt' = bt_pt bt \<and> \<not> bt_leaf bt' \<and> bt_on_stack bt' \<and> bt_measure bt' < bt_measure bt"
proof -
  obtain bt1 b bt2 where c: "bt_check m bt1 = Some (Inr (b, bt2))" "bt' = bt_stop_unless (b, bt2)"
    and bt1: "bt_pt bt1 = bt_pt bt" "\<not> bt_leaf bt1" "bt_stack_top bt1 = bt_stack_top bt"
      "\<not> bt_leaf bt \<Longrightarrow> bt_rsp bt1 = bt_rbp bt + 16"
    using assms(1) unfolding bt_step_def
    by (auto simp: bind_ro_def split: if_splits bind_splits sum.splits)
  have b: "b" using assms(2) c(2) by (cases b) (simp_all add: bt_stop_unless_def bt_ok_def)
  then have bt': "bt' = bt2" using c(2) by (simp add: bt_stop_unless_def)
  have t: "bt_on_stack bt'" "\<not> bt_leaf bt'" "bt_pt bt' = bt_pt bt" "bt_rbp bt' = bt_rbp bt1"
    and sw: "bt_stack_top bt \<ge> VA_HIGHMIN \<and> bt_stack_top bt' < VA_HIGHMIN
       \<or> bt_stack_top bt' = bt_stack_top bt \<and> bt_rsp bt1 \<le> bt_rbp bt'"
    using bt_check_true [of m bt1 bt'] c(1) b bt' bt1 by auto
  have room: "unat (bt_stack_top x) - unat (bt_rbp x) < 2 ^ 64" for x :: backtracer
    using unsigned_less [of "bt_stack_top x", where 'a = nat] by simp
  have "bt_measure bt' < bt_measure bt"
  proof (cases "bt_leaf bt")
    case True
    then show ?thesis using room [of bt'] t(2) by (auto simp: bt_measure_def)
  next
    case False
    then have on: "bt_on_stack bt" using assms(3) by simp
    from sw show ?thesis
    proof
      assume "bt_stack_top bt \<ge> VA_HIGHMIN \<and> bt_stack_top bt' < VA_HIGHMIN"
      then have "bt_stack_top bt \<ge> VA_HIGHMIN" "\<not> VA_HIGHMIN \<le> bt_stack_top bt'" by (simp_all only: not_le)
      then show ?thesis using room [of bt'] t(2) False by (simp add: bt_measure_def)
    next
      assume st: "bt_stack_top bt' = bt_stack_top bt \<and> bt_rsp bt1 \<le> bt_rbp bt'"
      have "unat (bt_rbp bt + 16) = unat (bt_rbp bt) + 16"
        using on unsigned_less [of "bt_stack_top bt", where 'a = nat]
        by (subst unat_add_lem [THEN iffD1]) (simp_all add: bt_on_stack_def)
      then have "unat (bt_rbp bt) + 16 \<le> unat (bt_rbp bt')"
        using st bt1(4) [OF False] by (simp add: word_le_nat_alt)
      then show ?thesis using st t(1,2) False by (simp add: bt_measure_def bt_on_stack_def)
    qed
  qed
  with t show ?thesis by simp
qed

lemma print_frame_ends:
  assumes "\<And>m fmt args s. \<exists>r. pf m fmt args s = Some r"
  shows "\<exists>r. print_frame pf kpt tab frame rip addr ms = Some r"
  unfolding print_frame_def
  by (cases ms) (auto simp: lookup_symbol_def assms intro!: bind_ro_some split: option.splits)

lemma print_rip_ends:
  assumes "\<And>m fmt args s. \<exists>r. pf m fmt args s = Some r"
  shows "\<exists>r. print_rip pf kpt tab rip ms = Some r"
  unfolding print_rip_def
  by (cases ms) (auto simp: lookup_symbol_def assms intro!: bind_ro_some split: option.splits)

lemma print_frames_ends:
  assumes pf: "\<And>m fmt args s. \<exists>r. pf m fmt args s = Some r"
    and "page_aligned (bt_pt bt)" "bt_ok bt \<Longrightarrow> bt_leaf bt \<or> bt_on_stack bt"
  shows "\<exists>r. print_frames pf kpt tab frame bt ms = Some r"
  using assms(2,3)
proof (induction "bt_measure bt" arbitrary: bt frame ms rule: less_induct)
  case less
  show ?case
  proof (cases "bt_ok bt")
    case False
    then show ?thesis by (subst print_frames.simps) simp
  next
    case True
    have "\<exists>r. print_frames pf kpt tab (frame + 1) bt' ms' = Some r"
      if "bt_step m bt = Some (Inr bt')" for m bt' and ms' :: "mem \<times> 'a"
    proof (cases "bt_ok bt'")
      case ok: True
      with bt_step_progress [OF that ok less.prems(2) [OF True]] less.prems(1) less.hyps
      show ?thesis by simp
    next
      case False
      then show ?thesis by (subst print_frames.simps) simp
    qed
    then show ?thesis
      using True less.prems(1)
      by (subst print_frames.simps) (auto intro!: bind_ro_some print_frame_ends pf bt_step_ends)
  qed
qed

lemma bt_check_leaf_cases:
  assumes "bt_check_leaf m bt rip = Some (Inr bt1)"
  shows "bt1 = bt \<or> bt1 = bt\<lparr>bt_leaf := True\<rparr>"
  using assms unfolding bt_check_leaf_def
  by (auto simp: bind_ro_def split: if_splits bind_splits sum.splits)

lemma bt_check_leaf_ends: "page_aligned (bt_pt bt) \<Longrightarrow> \<exists>r. bt_check_leaf m bt rip = Some r"
  by (auto simp: bt_check_leaf_def intro!: bind_ro_some has_range_ends)

lemma backtracer_new_ends:
  assumes "page_aligned pt"
  shows "\<exists>r. backtracer_new m rg pt = Some r"
  unfolding backtracer_new_def Let_def
proof (rule bind_ro_some)
  fix bt1
  assume "bt_check_leaf m \<lparr>bt_rbp = bt_reg_rbp rg, bt_rsp = bt_reg_rsp rg,
    bt_stack_top = round_up (bt_reg_rsp rg) PAGESIZE, bt_leaf = False, bt_pt = pt\<rparr> (bt_reg_rip rg)
    = Some (Inr bt1)"
  from bt_check_leaf_cases [OF this] have "page_aligned (bt_pt bt1)" using assms by auto
  then show "\<exists>r. (if bt_leaf bt1 then Some (Inr bt1)
      else bind_ro (bt_check m bt1) (\<lambda>res. Some (Inr (bt_stop_unless res)))) = Some r"
    by (auto intro!: bind_ro_some bt_check_ends)
qed (simp add: bt_check_leaf_ends assms)

lemma backtracer_new_valid:
  assumes "backtracer_new m rg pt = Some (Inr bt)"
  shows "bt_pt bt = pt" "bt_ok bt \<Longrightarrow> bt_leaf bt \<or> bt_on_stack bt"
proof -
  obtain bt1 where bt1: "bt_pt bt1 = pt"
    "(if bt_leaf bt1 then bt = bt1 else (\<exists>b bt2. bt_check m bt1 = Some (Inr (b, bt2)) \<and> bt = bt_stop_unless (b, bt2)))"
  proof -
    let ?bt = "\<lparr>bt_rbp = bt_reg_rbp rg, bt_rsp = bt_reg_rsp rg,
      bt_stack_top = round_up (bt_reg_rsp rg) PAGESIZE, bt_leaf = False, bt_pt = pt\<rparr>"
    obtain bt1 where l: "bt_check_leaf m ?bt (bt_reg_rip rg) = Some (Inr bt1)"
      "(if bt_leaf bt1 then Some (Inr bt1)
        else bind_ro (bt_check m bt1) (\<lambda>res. Some (Inr (bt_stop_unless res)))) = Some (Inr bt)"
      using assms unfolding backtracer_new_def Let_def
      by (auto simp: bind_ro_def split: bind_splits sum.splits)
    have "bt_pt bt1 = pt" using bt_check_leaf_cases [OF l(1)] by auto
    moreover have "\<exists>b bt2. bt_check m bt1 = Some (Inr (b, bt2)) \<and> bt = bt_stop_unless (b, bt2)" if "\<not> bt_leaf bt1"
      using l(2) that by (auto simp: bind_ro_def split: bind_splits sum.splits)
    ultimately show ?thesis using that [of bt1] l(2) by (cases "bt_leaf bt1") auto
  qed
  show "bt_pt bt = pt"
    using bt1 unfolding bt_check_def Let_def
    by (auto simp: bind_ro_def bt_stop_unless_def split: if_splits bind_splits sum.splits)
  assume ok: "bt_ok bt"
  show "bt_leaf bt \<or> bt_on_stack bt"
  proof (cases "bt_leaf bt1")
    case False
    then obtain b bt2 where c: "bt_check m bt1 = Some (Inr (b, bt2))" "bt = bt_stop_unless (b, bt2)"
      using bt1(2) by auto
    have "b" using ok c(2) by (cases b) (simp_all add: bt_stop_unless_def bt_ok_def)
    then show ?thesis using bt_check_true [of m bt1 bt2] c by (simp add: bt_stop_unless_def)
  qed (use bt1(2) in simp)
qed

section \<open>Copies from user memory\<close>

text \<open>What a user process can read at an address: the byte there, if it is user-accessible.\<close>

definition user_byte :: "mem \<Rightarrow> addr \<Rightarrow> u64 \<Rightarrow> byte option" where
  "user_byte m pt va =
     (if va_is_canonical va
      then case translate (load64 m) pt va of Some (pa, w, True) \<Rightarrow> Some (m pa) | _ \<Rightarrow> None
      else None)"

lemma vmiter_user_present: "vmiter_user m it \<Longrightarrow> vmiter_present m it"
  unfolding vmiter_user_def vmiter_present_def vmiter_has_perm_def and_eq_self_iff or_5
  by (auto simp: bit_5 bit_1_iff)

lemma vmiter_user_byte:
  assumes "vmiter_new m pt va = Inr it"
  shows "user_byte m pt va = (if vmiter_user m it then Some (m (vmiter_kptr m it)) else None)"
proof (cases "va_is_canonical va")
  case True
  have "vmiter_kptr m it = vmiter_pa m it" if "vmiter_user m it"
    using vmiter_present_entry [OF vmiter_user_present [OF that]] by (simp add: vmiter_kptr_def)
  then show ?thesis
    using True vmiter_new_answers(1) [OF assms True] vmiter_user_present [of m it]
    by (auto simp: user_byte_def)
next
  case False
  then have "vmiter_perm m it = 0" by (rule vmiter_new_noncanonical(2) [OF assms])
  then have "\<not> vmiter_user m it" using vmiter_present_perm vmiter_user_present by blast
  then show ?thesis using False by (simp add: user_byte_def)
qed

lemma copy_user_bytes:
  assumes "page_aligned pt" "vmiter_new m pt va = Inr it" "copy_user n m it = Inr bs"
  shows "length bs \<le> n \<and> (\<forall>i < length bs. user_byte m pt (va + of_nat i) = Some (bs ! i))
    \<and> (length bs < n \<longrightarrow> user_byte m pt (va + of_nat (length bs)) = None)"
  using assms(2,3)
proof (induction n arbitrary: va it bs)
  case (Suc n)
  note byte = vmiter_user_byte [OF Suc.prems(1)]
  show ?case
  proof (cases "vmiter_user m it")
    case False
    then show ?thesis using Suc.prems(2) byte by simp
  next
    case True
    have "vmiter_find m it (vm_va it + 1) = vmiter_new m pt (va + 1)"
      using vmiter_find_impl_new [OF Suc.prems(1) assms(1)] vmiter_new_va [OF Suc.prems(1)]
      by (simp add: vmiter_find_def)
    then obtain it' bs' where n: "vmiter_new m pt (va + 1) = Inr it'" "copy_user n m it' = Inr bs'"
      and bs: "bs = m (vmiter_kptr m it) # bs'"
      using Suc.prems(2) True by (auto simp: bind_result_Inr_iff)
    have "user_byte m pt (va + of_nat i) = Some (bs ! i)" if "i < length bs" for i
      using Suc.IH [OF n] that byte True bs by (cases i) (auto simp: ac_simps)
    then show ?thesis using Suc.IH [OF n] bs by (auto simp: ac_simps)
  qed
qed simp

section \<open>Properties\<close>

text \<open>
  \<open>C33\<close>: on a symbol table sorted by address without duplicates, \<open>lookup_symbol\<close> finds exactly
  the symbol that covers the address, if there is one, and reports its name and start; on such
  tables the binary search agrees with a search through all symbols.
\<close>

theorem lookup_symbol_correct:
  assumes "strictly_sorted (sym tab)"
  shows "snd (lookup_symbol kpt tab addr m) = Some (name, start) \<longleftrightarrow>
    (\<exists>i < length (sym tab). symbol_covers (sym tab) addr i \<and> start = st_value (sym tab ! i) \<and> start \<noteq> 0
       \<and> name = strtab tab + ucast (st_name (sym tab ! i)))"
proof -
  have "symbol_search (sym tab) addr 0 (length (sym tab)) = Some s \<longleftrightarrow>
      (\<exists>i < length (sym tab). symbol_covers (sym tab) addr i \<and> s = sym tab ! i \<and> st_value s \<noteq> 0)" for s
    by (rule symbol_search_correct [OF assms]) auto
  then show ?thesis by (fastforce simp: lookup_symbol_def)
qed

theorem lookup_symbol_correct_witness:
  "snd (lookup_symbol 0x51000
      \<lparr>sym = [\<lparr>st_name = 1, st_info = 0, st_other = 0, st_shndx = 0, st_value = 0x40000, st_size = 0\<rparr>,
              \<lparr>st_name = 7, st_info = 0, st_other = 0, st_shndx = 0, st_value = 0x40100, st_size = 0x20\<rparr>],
       strtab = 0x1002000\<rparr> 0x40110 (\<lambda>_. 0)) = Some (0x1002007, 0x40100)"
proof -
  let ?tab = "\<lparr>sym = [\<lparr>st_name = 1, st_info = 0, st_other = 0, st_shndx = 0, st_value = 0x40000, st_size = 0\<rparr>,
              \<lparr>st_name = 7, st_info = 0, st_other = 0, st_shndx = 0, st_value = 0x40100, st_size = 0x20\<rparr>],
       strtab = 0x1002000\<rparr> :: elf_symtabref"
  have "strictly_sorted (sym ?tab)" by (auto simp: strictly_sorted_def less_Suc_eq)
  moreover have "symbol_covers (sym ?tab) 0x40110 1" by (simp add: symbol_covers_def)
  ultimately show ?thesis
    using lookup_symbol_correct [of ?tab "0x51000" "0x40110" "\<lambda>_. 0" "0x1002007" "0x40100"] by force
qed





end
