(* ===== verification/Keyboard.thy ===== *)
theory Keyboard
  imports PortIO
begin

text \<open>
  The keyboard driver of \<open>pset3/k-hardware.cc\<close>: the scan code tables, the static variables
  of \<open>keyboard_readc\<close> as the record \<open>kbd\<close>, and \<open>keyboard_readc\<close> itself. The table entries
  are the values of the source's key macros.
\<close>

section \<open>Key codes\<close>

abbreviation KEY_SHIFT :: int where "KEY_SHIFT \<equiv> 0xFA"
abbreviation KEY_CAPSLOCK :: int where "KEY_CAPSLOCK \<equiv> 0xFD"
abbreviation MOD_SHIFT :: byte where "MOD_SHIFT \<equiv> 0x1"
abbreviation MOD_CONTROL :: byte where "MOD_CONTROL \<equiv> 0x2"
abbreviation MOD_CAPSLOCK :: byte where "MOD_CAPSLOCK \<equiv> 0x8"

definition CKEY :: "int \<Rightarrow> int" where
  "CKEY cn = 0x80 + cn"

definition keymap :: "byte list" where
  "keymap = [
    0, 0x1B, 0x80, 0x81, 0x82, 0x83, 0x84, 0x85, 0x86, 0x87, 0x88, 0x89, 0x8A, 0x8B, 8, 9,
    0x71, 0x77, 0x65, 0x72, 0x74, 0x79, 0x75, 0x69, 0x6F, 0x70, 0x8C, 0x8D, 0x8E, 0xFB, 0x61, 0x73,
    0x64, 0x66, 0x67, 0x68, 0x6A, 0x6B, 0x6C, 0x8F, 0x90, 0x91, 0xFA, 0x92, 0x7A, 0x78, 0x63, 0x76,
    0x62, 0x6E, 0x6D, 0x93, 0x94, 0x95, 0xFA, 0x2A, 0xFC, 0x20, 0xFD, 0, 0, 0, 0, 0,
    0, 0, 0, 0, 0, 0xFE, 0xFF, 0x37, 0x38, 0x39, 0x2D, 0x34, 0x35, 0x36, 0x2B, 0x31,
    0x32, 0x33, 0x30, 0x2E, 0, 0, 0, 0, 0, 0, 0, 0, 0, 0, 0, 0,
    0, 0, 0, 0, 0, 0, 0, 0, 0, 0, 0, 0, 0, 0, 0, 0,
    0, 0, 0, 0, 0, 0, 0, 0, 0, 0, 0, 0, 0, 0, 0, 0,
    0, 0, 0, 0, 0, 0, 0, 0, 0, 0, 0, 0, 0, 0, 0, 0,
    0, 0, 0, 0, 0, 0, 0, 0, 0, 0, 0, 0, 0x8E, 0xFB, 0, 0,
    0, 0, 0, 0, 0, 0, 0, 0, 0, 0, 0, 0, 0, 0, 0, 0,
    0, 0, 0, 0, 0, 0x2F, 0, 0, 0xFC, 0, 0, 0, 0, 0, 0, 0,
    0, 0, 0, 0, 0, 0, 0, 0xC4, 0xC0, 0xC6, 0, 0xC3, 0, 0xC1, 0, 0xC5,
    0xC2, 0xC7, 0xC8, 0xC9, 0, 0, 0, 0, 0, 0, 0, 0, 0, 0, 0, 0,
    0, 0, 0, 0, 0, 0, 0, 0, 0, 0, 0, 0, 0, 0, 0, 0,
    0, 0, 0, 0, 0, 0, 0, 0, 0, 0, 0, 0, 0, 0, 0, 0]"

definition complex_keymap :: "byte list list" where
  "complex_keymap = [
    [0x31, 0x21, 0, 0], [0x32, 0x40, 0, 0],
    [0x33, 0x23, 0, 0], [0x34, 0x24, 0, 0],
    [0x35, 0x25, 0, 0], [0x36, 0x5E, 0, 0x1E],
    [0x37, 0x26, 0, 0], [0x38, 0x2A, 0, 0],
    [0x39, 0x28, 0, 0], [0x30, 0x29, 0, 0],
    [0x2D, 0x5F, 0, 0x1F], [0x3D, 0x2B, 0, 0],
    [0x5B, 0x7B, 0x1B, 0], [0x5D, 0x7D, 0x1D, 0],
    [0x0A, 0x0A, 0x0D, 0x0D], [0x3B, 0x3A, 0, 0],
    [0x27, 0x22, 0, 0], [0x60, 0x7E, 0, 0],
    [0x5C, 0x7C, 0x1C, 0], [0x2C, 0x3C, 0, 0],
    [0x2E, 0x3E, 0, 0], [0x2F, 0x3F, 0, 0]]"

section \<open>Reading a key\<close>

record kbd =
  modifiers :: byte
  last_escape :: byte

text \<open>What \<open>keyboard_readc\<close> does with the byte \<open>data\<close> read from the data register.\<close>

definition key_release :: "kbd \<Rightarrow> byte \<Rightarrow> byte \<Rightarrow> kbd" where
  "key_release kb data escape =
     (let ch = uint (keymap ! unat (data AND 0x7F OR escape)) in
      if ch \<ge> KEY_SHIFT \<and> ch < KEY_CAPSLOCK
      then kb\<lparr>modifiers := modifiers kb AND NOT (push_bit (nat (ch - KEY_SHIFT)) 1)\<rparr> else kb)"

definition key_press :: "kbd \<Rightarrow> byte \<Rightarrow> byte \<Rightarrow> int \<times> kbd" where
  "key_press kb data escape =
     (let ch = uint (keymap ! unat (data OR escape)); m = modifiers kb in
      if ch \<ge> 0x61 \<and> ch \<le> 0x7A then
        (if m AND MOD_CONTROL \<noteq> 0 then (ch - 0x60, kb)
         else if (m AND MOD_SHIFT = 0) \<noteq> (m AND MOD_CAPSLOCK = 0) then (ch - 0x20, kb)
         else (ch, kb))
      else if ch \<ge> KEY_CAPSLOCK then
        (0, kb\<lparr>modifiers := m XOR push_bit (nat (ch - KEY_SHIFT)) 1\<rparr>)
      else if ch \<ge> KEY_SHIFT then
        (0, kb\<lparr>modifiers := m OR push_bit (nat (ch - KEY_SHIFT)) 1\<rparr>)
      else if ch \<ge> CKEY 0 \<and> ch \<le> CKEY 21 then
        (uint (complex_keymap ! nat (ch - CKEY 0) ! unat (m AND 3)), kb)
      else if ch < 0x80 \<and> m AND MOD_CONTROL \<noteq> 0 then (0, kb)
      else (ch, kb))"

definition key_event :: "kbd \<Rightarrow> byte \<Rightarrow> int \<times> kbd" where
  "key_event kb data =
     (let escape = last_escape kb; kb = kb\<lparr>last_escape := 0\<rparr> in
      if data = 0xE0 then (0, kb\<lparr>last_escape := 0x80\<rparr>)
      else if data AND 0x80 \<noteq> 0 then (0, key_release kb data escape)
      else key_press kb data escape)"

definition keyboard_readc :: "device \<Rightarrow> kbd \<Rightarrow> trace \<Rightarrow> int \<times> kbd \<times> trace" where
  "keyboard_readc dev kb tr =
     (case inb dev 0x64 tr of (status, tr) \<Rightarrow>
      if status AND 0x01 = 0 then (- 1, kb, tr)
      else case inb dev 0x60 tr of (data, tr) \<Rightarrow>
           case key_event kb data of (ch, kb) \<Rightarrow> (ch, kb, tr))"

section \<open>The tables\<close>

lemma length_keymap: "length keymap = 256"
  by (simp add: keymap_def)

lemma keymap_values: "list_all (\<lambda>e. e < 0x80 \<or> (0x80 \<le> e \<and> e \<le> 0x95) \<or> (0xC0 \<le> e \<and> e \<le> 0xC9) \<or> 0xFA \<le> e) keymap"
  unfolding keymap_def by (simp del: upt_rec_numeral)

definition entry_ok :: "int \<Rightarrow> byte \<Rightarrow> bool" where
  "entry_ok i e \<longleftrightarrow>
     (if e < 0xFA then i \<noteq> 0x1D \<and> i \<noteq> 0x2A \<and> i \<noteq> 0x36 \<and> i \<noteq> 0x38 \<and> i \<noteq> 0x3A \<and> i \<noteq> 0x45
        \<and> i \<noteq> 0x46 \<and> i \<noteq> 0x9D \<and> i \<noteq> 0xB8
      else (i, e) \<in> {(0x1D, 0xFB), (0x2A, 0xFA), (0x36, 0xFA), (0x38, 0xFC), (0x3A, 0xFD),
        (0x45, 0xFE), (0x46, 0xFF), (0x9D, 0xFB), (0xB8, 0xFC)})"

primrec entries_ok :: "int \<Rightarrow> byte list \<Rightarrow> bool" where
  "entries_ok i [] = True"
| "entries_ok i (e # es) \<longleftrightarrow> entry_ok i e \<and> entries_ok (i + 1) es"

lemma keymap_modifier_keys: "entries_ok 0 keymap"
  unfolding keymap_def by (simp add: entry_ok_def)

lemma complex_keymap_values:
  "length complex_keymap = 22 \<and> list_all (\<lambda>r. length r = 4 \<and> list_all (\<lambda>e. e < 0x80) r) complex_keymap"
  by (simp add: complex_keymap_def)

lemma keymap_cases:
  assumes "i < 256"
  shows "keymap ! i < 0x80 \<or> (0x80 \<le> keymap ! i \<and> keymap ! i \<le> 0x95)
    \<or> (0xC0 \<le> keymap ! i \<and> keymap ! i \<le> 0xC9) \<or> 0xFA \<le> keymap ! i"
  using keymap_values assms by (auto simp: list_all_length length_keymap)

lemma entries_ok_nth:
  "entries_ok i es \<Longrightarrow> k < length es \<Longrightarrow> entry_ok (i + int k) (es ! k)"
proof (induction es arbitrary: i k)
  case (Cons e es)
  show ?case
  proof (cases k)
    case (Suc k')
    then show ?thesis using Cons.IH [of "i + 1" k'] Cons.prems by (simp add: ac_simps)
  qed (use Cons.prems in simp)
qed simp

text \<open>The modifier key, if any, that the table gives for an index.\<close>

lemma keymap_modifier:
  assumes "i < 256"
  shows "keymap ! i = 0xFA \<longleftrightarrow> i = 0x2A \<or> i = 0x36"
    and "keymap ! i = 0xFB \<longleftrightarrow> i = 0x1D \<or> i = 0x9D"
    and "keymap ! i = 0xFD \<longleftrightarrow> i = 0x3A"
  using entries_ok_nth [OF keymap_modifier_keys, of i] assms
  by (auto simp: length_keymap entry_ok_def split: if_splits)

section \<open>Modifier keys\<close>

text \<open>
  The keys held down after a sequence of scan codes: shift (either key), control (either
  key) and the caps lock toggle. The prefix \<open>0xE0\<close> selects the extended keys, of which only
  control counts.
\<close>

record held =
  extended :: bool
  shift :: bool
  control :: bool
  caps :: bool

definition track :: "held \<Rightarrow> byte \<Rightarrow> held" where
  "track h d =
     (if d = 0xE0 then h\<lparr>extended := True\<rparr>
      else \<lparr>extended = False,
            shift = (if extended h then shift h
                     else if d = 0x2A \<or> d = 0x36 then True
                     else if d = 0xAA \<or> d = 0xB6 then False else shift h),
            control = (if d = 0x1D then True else if d = 0x9D then False else control h),
            caps = (if \<not> extended h \<and> d = 0x3A then \<not> caps h else caps h)\<rparr>)"

definition kbd_rel :: "kbd \<Rightarrow> held \<Rightarrow> bool" where
  "kbd_rel kb h \<longleftrightarrow>
     last_escape kb = (if extended h then 0x80 else 0)
     \<and> bit (modifiers kb) 0 = shift h \<and> bit (modifiers kb) 1 = control h
     \<and> bit (modifiers kb) 3 = caps h"

lemma high_bit: "d AND 0x80 = 0 \<longleftrightarrow> unat d < 128" for d :: byte
proof -
  have "d AND 0x80 = 0 \<longleftrightarrow> \<not> bit d 7"
    using and_exp_eq_0_iff_not_bit [of d 7] by simp
  also have "\<dots> \<longleftrightarrow> \<not> bit (unat d) 7" by (simp add: bit_unsigned_iff)
  also have "\<dots> \<longleftrightarrow> unat d < 128"
  proof -
    have "unat d div 128 < 2" using unsigned_less [of d, where 'a = nat] by simp
    then have "unat d div 128 = 0 \<or> unat d div 128 = 1" by linarith
    then show ?thesis by (auto simp: bit_iff_odd div_eq_0_iff)
  qed
  finally show ?thesis .
qed

lemma index_press:
  fixes d :: byte
  assumes "unat d < 128"
  shows "unat (d OR (if x then 0x80 else 0)) = unat d + (if x then 128 else 0)"
proof -
  have "d AND 0x80 = 0" using assms by (simp add: high_bit)
  then have "d OR 0x80 = d + 0x80" by (rule disjunctive_add_eq_or [symmetric])
  then show ?thesis using assms by (simp add: unat_word_ariths)
qed

lemma index_release:
  fixes d :: byte
  assumes "\<not> unat d < 128"
  shows "unat (d AND 0x7F OR (if x then 0x80 else 0)) = unat d - (if x then 0 else 128)"
proof -
  have "d AND 0x7F = take_bit 7 d" by (simp add: take_bit_eq_mask mask_eq_exp_minus_1)
  then have "unat (d AND 0x7F) = unat d mod 128" by (simp add: take_bit_eq_mod unat_mod)
  also have "\<dots> = unat d - 128"
    using assms unsigned_less [of d, where 'a = nat] by (simp add: mod_if)
  finally have u: "unat (d AND 0x7F) = unat d - 128" .
  moreover have "unat (d AND 0x7F) < 128"
    using u assms unsigned_less [of d, where 'a = nat] by simp
  ultimately show ?thesis using index_press [of "d AND 0x7F" x] assms by auto
qed

lemma uint_byte_cases:
  "uint (ch :: byte) \<ge> 0xFA \<Longrightarrow>
   ch = 0xFA \<or> ch = 0xFB \<or> ch = 0xFC \<or> ch = 0xFD \<or> ch = 0xFE \<or> ch = 0xFF"
proof -
  assume "uint ch \<ge> 0xFA"
  moreover have "uint ch < 256" using unsigned_less [of ch] by simp
  ultimately have "uint ch \<in> {0xFA, 0xFB, 0xFC, 0xFD, 0xFE, 0xFF}" by auto
  then show ?thesis by (auto simp: word_uint_eq_iff)
qed

lemma key_release_modifiers:
  "modifiers (key_release kb data escape) =
     (let ch = uint (keymap ! unat (data AND 0x7F OR escape)) in
      if ch \<ge> 0xFA \<and> ch < 0xFD then modifiers kb AND NOT (push_bit (nat (ch - 0xFA)) 1)
      else modifiers kb)"
  "last_escape (key_release kb data escape) = last_escape kb"
  by (simp_all add: key_release_def Let_def)

lemma key_press_modifiers:
  "modifiers (snd (key_press kb data escape)) =
     (let ch = uint (keymap ! unat (data OR escape)) in
      if ch \<ge> 0xFD then modifiers kb XOR push_bit (nat (ch - 0xFA)) 1
      else if ch \<ge> 0xFA then modifiers kb OR push_bit (nat (ch - 0xFA)) 1 else modifiers kb)"
  "last_escape (snd (key_press kb data escape)) = last_escape kb"
  by (simp_all add: key_press_def Let_def)

lemma modifier_bits:
  fixes m ch :: byte
  shows "bit (if uint ch \<ge> 0xFA \<and> uint ch < 0xFD then m AND NOT (push_bit (nat (uint ch - 0xFA)) 1) else m) n
      = (bit m n \<and> \<not> (n < 3 \<and> uint ch = 0xFA + int n))"
    and "bit (if uint ch \<ge> 0xFD then m XOR push_bit (nat (uint ch - 0xFA)) 1
          else if uint ch \<ge> 0xFA then m OR push_bit (nat (uint ch - 0xFA)) 1 else m) n
      = (if uint ch = 0xFA + int n then n < 3 \<or> \<not> bit m n else bit m n)"
proof -
  have "uint ch < 256" using unsigned_less [of ch] by simp
  then show "bit (if uint ch \<ge> 0xFA \<and> uint ch < 0xFD then m AND NOT (push_bit (nat (uint ch - 0xFA)) 1) else m) n
      = (bit m n \<and> \<not> (n < 3 \<and> uint ch = 0xFA + int n))"
    "bit (if uint ch \<ge> 0xFD then m XOR push_bit (nat (uint ch - 0xFA)) 1
          else if uint ch \<ge> 0xFA then m OR push_bit (nat (uint ch - 0xFA)) 1 else m) n
      = (if uint ch = 0xFA + int n then n < 3 \<or> \<not> bit m n else bit m n)"
    using byte_bit_high [of n m] by (cases "n < 8"; auto simp: bit_simps)+
qed

lemma uint_eq_byte:
  "uint (ch :: byte) = 0xFA \<longleftrightarrow> ch = 0xFA" "uint (ch :: byte) = 0xFB \<longleftrightarrow> ch = 0xFB"
  "uint (ch :: byte) = 0xFD \<longleftrightarrow> ch = 0xFD"
  by (simp_all add: word_uint_eq_iff)

lemma scan_code_unat:
  "d = (0x2A :: byte) \<longleftrightarrow> unat d = 42" "d = (0x36 :: byte) \<longleftrightarrow> unat d = 54"
  "d = (0xAA :: byte) \<longleftrightarrow> unat d = 170" "d = (0xB6 :: byte) \<longleftrightarrow> unat d = 182"
  "d = (0x1D :: byte) \<longleftrightarrow> unat d = 29" "d = (0x9D :: byte) \<longleftrightarrow> unat d = 157"
  "d = (0x3A :: byte) \<longleftrightarrow> unat d = 58"
  by (simp_all add: word_unat_eq_iff)

lemma key_press_track:
  assumes "kbd_rel kb h" "unat d < 128"
  shows "kbd_rel (snd (key_press (kb\<lparr>last_escape := 0\<rparr>) d (last_escape kb))) (track h d)"
proof -
  define i where "i = unat d + (if extended h then 128 else 0)"
  have i: "unat (d OR last_escape kb) = i" "i < 256"
    using assms index_press [of d "extended h"] by (simp_all add: kbd_rel_def i_def)
  have "d \<noteq> 0xE0" using assms(2) by auto
  then show ?thesis
    using assms keymap_modifier [OF i(2)]
    unfolding kbd_rel_def key_press_modifiers Let_def modifier_bits i(1) track_def
    by (cases "extended h") (simp_all add: uint_eq_byte scan_code_unat i_def)
qed

lemma key_release_track:
  assumes "kbd_rel kb h" "\<not> unat d < 128" "d \<noteq> 0xE0"
  shows "kbd_rel (key_release (kb\<lparr>last_escape := 0\<rparr>) d (last_escape kb)) (track h d)"
proof -
  define i where "i = unat d - (if extended h then 0 else 128)"
  have i: "unat (d AND 0x7F OR last_escape kb) = i" "i < 256"
    using assms index_release [of d "extended h"] unsigned_less [of d, where 'a = nat]
    by (auto simp: kbd_rel_def i_def)
  have u: "unat d < 256" using unsigned_less [of d, where 'a = nat] by simp
  have "i = 42 \<or> i = 54 \<longleftrightarrow> \<not> extended h \<and> (unat d = 170 \<or> unat d = 182)"
    using assms(2) by (auto simp: i_def)
  moreover have "i = 29 \<or> i = 157 \<longleftrightarrow> unat d = 157"
    using assms(2) u by (auto simp: i_def)
  moreover have "unat d \<noteq> 42" "unat d \<noteq> 54" "unat d \<noteq> 29" "unat d \<noteq> 58" using assms(2) by auto
  ultimately show ?thesis
    using assms(1,3) keymap_modifier(1,2) [OF i(2)]
    unfolding kbd_rel_def key_release_modifiers Let_def modifier_bits i(1) track_def
    by (auto simp: uint_eq_byte scan_code_unat)
qed

lemma key_event_track:
  assumes "kbd_rel kb h"
  shows "kbd_rel (snd (key_event kb d)) (track h d)"
proof (cases "d = 0xE0")
  case True
  then show ?thesis using assms by (simp add: key_event_def track_def kbd_rel_def Let_def)
next
  case False
  then show ?thesis
    using key_press_track [OF assms, of d] key_release_track [OF assms, of d]
    by (cases "unat d < 128") (simp_all add: key_event_def high_bit Let_def)
qed

lemma complex_keymap_ascii:
  assumes "i < 22" "j < 4"
  shows "uint (complex_keymap ! i ! j) < 0x80"
proof -
  have "complex_keymap ! i ! j < 0x80"
    using complex_keymap_values assms by (auto simp: list_all_length)
  then show ?thesis by (simp add: word_less_def)
qed

lemma and_3_less: "unat (m AND 3 :: byte) < 4"
proof -
  have "m AND 3 = take_bit 2 m" by (simp add: take_bit_eq_mask mask_eq_exp_minus_1)
  then show ?thesis by (simp add: take_bit_eq_mod unat_mod)
qed

lemma keymap_uint_cases:
  assumes "i < 256"
  obtains "uint (keymap ! i) < 0x80" | "0x80 \<le> uint (keymap ! i)" "uint (keymap ! i) \<le> 0x95"
    | "0xC0 \<le> uint (keymap ! i)" "uint (keymap ! i) \<le> 0xC9" | "0xFA \<le> uint (keymap ! i)"
  using keymap_cases [OF assms] by (auto simp: word_less_def word_le_def)

lemma key_press_value:
  "let c = fst (key_press kb d e) in 0 \<le> c \<and> c < 0x80 \<or> 0xC0 \<le> c \<and> c \<le> 0xC9"
proof -
  define ch where "ch = uint (keymap ! unat (d OR e))"
  have "unat (d OR e) < 256" using unsigned_less [of "d OR e", where 'a = nat] by simp
  then show ?thesis
  proof (cases rule: keymap_uint_cases)
    case 2
    then have "nat (ch - CKEY 0) < 22" by (simp add: ch_def CKEY_def)
    from complex_keymap_ascii [OF this and_3_less, of "modifiers kb"] 2 show ?thesis
      by (simp add: key_press_def Let_def ch_def CKEY_def)
  qed (auto simp: key_press_def Let_def CKEY_def)
qed

section \<open>Properties\<close>

text \<open>
  the contract of \<open>keyboard_readc\<close>: it returns -1 exactly when the controller has no
  byte, and then changes nothing; otherwise it returns 0, an ASCII code or one of the ten
  special keys of \<open>kernel.hh\<close>, with every table access in range, for every scan code and
  every state of the driver.
\<close>

theorem keyboard_readc_range:
  "let (c, kb', tr') = keyboard_readc dev kb tr;
       ready = ucast (dev tr (InB 0x64)) AND (1 :: byte) \<noteq> 0
   in if ready then 0 \<le> c \<and> c < 0x80 \<or> 0xC0 \<le> c \<and> c \<le> 0xC9
      else c = - 1 \<and> kb' = kb"
proof -
  have "c \<noteq> - 1 \<and> (0 \<le> c \<and> c < 0x80 \<or> 0xC0 \<le> c \<and> c \<le> 0xC9)" if "key_event kb d = (c, kb')" for c d kb'
    using that key_press_value [of "kb\<lparr>last_escape := 0\<rparr>" d "last_escape kb"]
    by (auto simp: key_event_def Let_def split: if_splits)
  then show ?thesis
    by (simp add: keyboard_readc_def inb_def Let_def split: prod.split)
qed



text \<open>
  a letter key gives the control code when control is down, else the upper-case
  letter when exactly one of shift and caps lock is on, else the lower-case letter, and leaves
  the modifiers alone.
\<close>

theorem keyboard_letters:
  assumes "kbd_rel kb h" "\<not> extended h" "unat d < 128" "0x61 \<le> uint (keymap ! unat d)"
    "uint (keymap ! unat d) \<le> 0x7A"
  shows "key_event kb d =
    (uint (keymap ! unat d) - (if control h then 0x60 else if shift h \<noteq> caps h then 0x20 else 0), kb)"
proof -
  have "d \<noteq> 0xE0" using assms(3) by auto
  moreover have "last_escape kb = 0" using assms(1,2) by (simp add: kbd_rel_def)
  moreover from this have "kb\<lparr>last_escape := 0\<rparr> = kb" by (cases kb) simp
  moreover have "modifiers kb AND MOD_SHIFT \<noteq> 0 \<longleftrightarrow> shift h"
    "modifiers kb AND MOD_CONTROL \<noteq> 0 \<longleftrightarrow> control h" "modifiers kb AND MOD_CAPSLOCK \<noteq> 0 \<longleftrightarrow> caps h"
    using assms(1) and_exp_eq_0_iff_not_bit [of "modifiers kb" 0]
      and_exp_eq_0_iff_not_bit [of "modifiers kb" 1] and_exp_eq_0_iff_not_bit [of "modifiers kb" 3]
    by (simp_all add: kbd_rel_def)
  ultimately show ?thesis
    using assms(3-5) by (auto simp: key_event_def high_bit Let_def key_press_def)
qed

theorem keyboard_letters_witness:
  "key_event \<lparr>modifiers = 1, last_escape = 0\<rparr> 0x1E = (0x41, \<lparr>modifiers = 1, last_escape = 0\<rparr>)"
proof -
  have "keymap ! unat (0x1E :: byte) = 0x61" by (simp add: keymap_def)
  then show ?thesis
    using keyboard_letters [of "\<lparr>modifiers = 1, last_escape = 0\<rparr>"
      "\<lparr>extended = False, shift = True, control = False, caps = False\<rparr>" "0x1E"]
    by (simp add: kbd_rel_def)
qed

end
