(* ===== verification/Hardware.thy ===== *)
theory Hardware
  imports KernelMem Backtrace Keyboard
begin

text \<open>
  The parts of \<open>pset3/k-hardware.cc\<close> that tie the hardware together: initialization, power
  off, the soft reboot on a key press, panics and failed assertions. They act on the machine
  state: physical memory, the screen and its cursor, the log port with the trace of device
  accesses, the keyboard driver. Control that does not come back to the caller (a reboot, the
  end of \<open>poweroff\<close>, the return to a process) is an exit value.
\<close>

section \<open>Machine state and control flow\<close>

text \<open>What the kernel image and its environment fix.\<close>

record kenv =
  k_dev :: device
  k_syms :: symbols
  k_tab :: elf_symtabref
  k_lit :: "string \<Rightarrow> addr"
  k_buf :: addr
  k_regs :: backtrace_regs
  k_cr3 :: addr

record machine =
  phys :: physmem
  screen :: console
  cursorpos :: int
  kport :: port
  keyboard :: kbd
  panicking :: bool

datatype kexit = Restart u32 | PowerOff | ReturnTo nat

datatype 'a flow = Next 'a | Exit kexit

type_synonym ('a, 's) kres = "('a flow \<times> 's) result option"

definition bind_k :: "('a, 's) kres \<Rightarrow> ('a \<Rightarrow> 's \<Rightarrow> ('b, 's) kres) \<Rightarrow> ('b, 's) kres" where
  "bind_k r f = bind_ro r (\<lambda>(x, s). case x of Next a \<Rightarrow> f a s | Exit e \<Rightarrow> Some (Inr (Exit e, s)))"

definition return_k :: "'a \<Rightarrow> 's \<Rightarrow> ('a, 's) kres" where
  "return_k a s = Some (Inr (Next a, s))"

definition exit_k :: "kexit \<Rightarrow> 's \<Rightarrow> ('a, 's) kres" where
  "exit_k e s = Some (Inr (Exit e, s))"

definition assert_k :: "bool \<Rightarrow> string \<Rightarrow> 's \<Rightarrow> (unit, 's) kres" where
  "assert_k b msg s = (if b then return_k () s else Some (Inl (AssertFail msg)))"

lemma bind_k_mono [partial_function_mono]:
  assumes "monotone (fun_ord option_ord) option_ord B"
    and "\<And>a s. monotone (fun_ord option_ord) option_ord (\<lambda>f. C a s f)"
  shows "monotone (fun_ord option_ord) option_ord (\<lambda>f. bind_k (B f) (\<lambda>a s. C a s f))"
  unfolding bind_k_def
proof (rule bind_ro_mono [OF assms(1)])
  fix y
  show "monotone (fun_ord option_ord) option_ord
      (\<lambda>f. case y of (x, s) \<Rightarrow> (case x of Next a \<Rightarrow> C a s f | Exit e \<Rightarrow> Some (Inr (Exit e, s))))"
    using assms(2) by (cases y; cases "fst y") (auto simp: monotone_def option.leq_refl)
qed

lemma bind_k_simps [simp]:
  "bind_k None f = None"
  "bind_k (Some (Inl e)) f = Some (Inl e)"
  "bind_k (return_k a s) f = f a s"
  "bind_k (exit_k x s) f = exit_k x s"
  "bind_k (Some (Inr (Next a, s))) f = f a s"
  "bind_k (Some (Inr (Exit x, s))) f = exit_k x s"
  by (simp_all add: bind_k_def return_k_def exit_k_def)

abbreviation k_trace :: "'s machine_scheme \<Rightarrow> trace" where
  "k_trace s \<equiv> port_trace (kport s)"

definition set_trace :: "trace \<Rightarrow> 's machine_scheme \<Rightarrow> 's machine_scheme" where
  "set_trace tr s = s\<lparr>kport := (kport s)\<lparr>port_trace := tr\<rparr>\<rparr>"

definition set_mem :: "mem \<Rightarrow> 's machine_scheme \<Rightarrow> 's machine_scheme" where
  "set_mem m s = s\<lparr>phys := (phys s)\<lparr>memory := m\<rparr>\<rparr>"

section \<open>Definitions\<close>

subsection \<open>Printing\<close>

definition console_printf :: "int \<Rightarrow> byte list \<Rightarrow> args \<Rightarrow> 's machine_scheme \<Rightarrow> (unit, 's machine_scheme) kres" where
  "console_printf cpos fmt args s =
     bind_ro (console_vprintf (memory (phys s)) (screen s) (cursorpos s) cpos fmt args) (\<lambda>(cp, _).
       return_k () (s\<lparr>screen := cp_console cp, cursorpos := cp_cursorpos cp\<rparr>))"

definition log_printf :: "device \<Rightarrow> byte list \<Rightarrow> args \<Rightarrow> 's machine_scheme \<Rightarrow> (unit, 's machine_scheme) kres" where
  "log_printf dev fmt args s =
     bind_ro (log_vprintf dev (memory (phys s)) fmt args (kport s)) (\<lambda>p. return_k () (s\<lparr>kport := p\<rparr>))"

definition error_store :: "error_printer \<Rightarrow> 's machine_scheme \<Rightarrow> 's machine_scheme" where
  "error_store ep s =
     s\<lparr>screen := cp_console (ep_con ep), cursorpos := cp_cursorpos (ep_con ep), kport := lp_port (ep_log ep)\<rparr>"

definition error_report :: "device \<Rightarrow> byte list \<Rightarrow> args \<Rightarrow> 's machine_scheme \<Rightarrow> (unit, 's machine_scheme) kres" where
  "error_report dev fmt args s =
     bind_ro (error_vprintf dev (memory (phys s)) (screen s) (cursorpos s) (kport s) fmt args) (\<lambda>ep.
       return_k () (error_store ep s))"

definition console_show_cursor :: "'s machine_scheme \<Rightarrow> 's machine_scheme" where
  "console_show_cursor s =
     (let s = (if cursorpos s < 0 \<or> cursorpos s > END_CPOS then s\<lparr>cursorpos := 0\<rparr> else s);
          tr = outb 0x3D4 14 (k_trace s);
          tr = outb 0x3D5 (word_of_int (cursorpos s div 256)) tr;
          tr = outb 0x3D4 15 tr
      in set_trace (outb 0x3D5 (word_of_int (cursorpos s mod 256)) tr) s)"

subsection \<open>Initialization\<close>

text \<open>The processor's tables; the constructors of global objects are the argument \<open>ctors\<close>.\<close>

record cpu_tables =
  gdt :: "u64 list"
  idt :: "gatedescriptor list"
  kernel_taskstate :: taskstate

definition init_hardware :: "kenv \<Rightarrow> ('s machine_scheme \<Rightarrow> 's machine_scheme) list \<Rightarrow> cpu_tables
    \<Rightarrow> 's machine_scheme \<Rightarrow> (cpu_tables \<times> 's machine_scheme) result" where
  "init_hardware env ctors cpu s =
     bind_result (init_kernel_memory (k_syms env) (gdt cpu) (phys s) (k_trace s)) (\<lambda>(gdt', ph, tr).
     let s = set_trace tr (s\<lparr>phys := ph, cursorpos := 3 * CONSOLE_COLUMNS\<rparr>) in
     bind_result (init_interrupts (k_dev env) (idt cpu) (k_trace s)) (\<lambda>(idt', tr).
     let s = init_constructors ctors (set_trace tr s) in
     case init_cpu_hardware (k_dev env) (k_syms env) gdt' (k_trace s) of (gdt', ts, tr) \<Rightarrow>
     Inr (\<lparr>gdt = gdt', idt = idt', kernel_taskstate = ts\<rparr>, set_trace tr s)))"

subsection \<open>Power off and reboot\<close>

definition is_power_controller :: "u32 \<Rightarrow> bool" where
  "is_power_controller vd \<longleftrightarrow> vd = 0x71138086 \<or> vd = 0x29188086"

definition find_power_controller :: "device \<Rightarrow> trace \<Rightarrow> (int \<times> trace) result" where
  "find_power_controller dev tr =
     pci_find dev (\<lambda>a tr. bind_result (readl dev a tr) (\<lambda>(vd, tr). Inr (is_power_controller vd, tr))) 0 tr"

text \<open>Where \<open>poweroff\<close> is still running after the request, it spins: the exit \<open>PowerOff\<close>.\<close>

definition poweroff :: "device \<Rightarrow> 's machine_scheme \<Rightarrow> ('a, 's machine_scheme) kres" where
  "poweroff dev s =
     bind_ro (Some (find_power_controller dev (k_trace s))) (\<lambda>(addr, tr).
     bind_ro
       (if addr \<ge> 0
        then Some (bind_result (readl dev (addr + 0x40) tr) (\<lambda>(v, tr).
               Inr (outw (uint (v AND 0xFFC0) + 4) 0x2000 tr)))
        else Some (Inr tr)) (\<lambda>tr.
     bind_k (console_printf (24 * 80) (0x1B # str ''[41;1mCannot power off!'' @ [0x0A]) [] (set_trace tr s))
       (\<lambda>_ s. exit_k PowerOff s)))"

definition reboot :: "trace \<Rightarrow> trace" where
  "reboot tr = outb 0x92 3 tr"

subsection \<open>The keyboard check\<close>

text \<open>The temporary page table of the soft reboot, at \<open>0x1000\<close>.\<close>

definition reboot_tables :: "mem \<Rightarrow> mem" where
  "reboot_tables m =
     (let m = fst (memset m 0x1000 0 (2 * PAGESIZE));
          m = store64 m 0x1000 (0x2000 OR PTE_P OR PTE_W)
      in store64 m 0x2000 (PTE_P OR PTE_W OR PTE_PS))"

definition soft_reboot :: "kenv \<Rightarrow> string \<Rightarrow> 's machine_scheme \<Rightarrow> ('a, 's machine_scheme) kres" where
  "soft_reboot env argument s =
     (let s = set_trace (init_timer (- 1) (k_trace s)) s;
          s = set_mem (reboot_tables (memory (phys s))) s;
          s = set_trace (wrcr3 0x1000 (k_trace s)) s;
          argument_ptr = k_lit env argument in
      bind_k (assert_k (argument_ptr < 0x100000000) ''argument_ptr < 0x100000000L'' s) (\<lambda>_ s.
      let syms = k_syms env;
          m = stash_kernel_data syms True (memory (phys s));
          m = fst (memcpy m (data_start syms) (data_stash syms) (edata syms - data_start syms));
          m = fst (memset m (edata syms) 0 (kernel_end syms - edata syms))
      in exit_k (Restart (ucast argument_ptr)) (set_mem m s)))"

definition check_keyboard :: "kenv \<Rightarrow> 's machine_scheme \<Rightarrow> (int, 's machine_scheme) kres" where
  "check_keyboard env s =
     (case keyboard_readc (k_dev env) (keyboard s) (k_trace s) of (c, kb, tr) \<Rightarrow>
      let s = set_trace tr (s\<lparr>keyboard := kb\<rparr>) in
      if c = 0x61 \<or> c = 0x66 \<or> c = 0x65
      then soft_reboot env (if c = 0x61 then ''allocators'' else if c = 0x65 then ''exit'' else ''fork'') s
      else if c = 0x03 \<or> c = 0x71 then poweroff (k_dev env) s
      else return_k c s)"

text \<open>\<open>fail\<close> polls the keyboard for ever.\<close>

partial_function (option) fail :: "kenv \<Rightarrow> 's machine_scheme \<Rightarrow> ('a, 's machine_scheme) kres" where
  "fail env s = bind_k (check_keyboard env s) (\<lambda>_ s. fail env s)"

subsection \<open>Backtraces and panics\<close>

definition log_printer_printf :: "device \<Rightarrow> log_printer printf_fun" where
  "log_printer_printf dev m fmt args lp =
     vprintf (log_putc_lifted dev) log_set_color m fmt args (Inr lp)"

definition log_backtrace :: "kenv \<Rightarrow> backtrace_regs \<Rightarrow> addr \<Rightarrow> bool \<Rightarrow> 's machine_scheme
    \<Rightarrow> (unit, 's machine_scheme) kres" where
  "log_backtrace env rg pt exclude_rip s =
     bind_ro (print_backtrace (log_printer_printf (k_dev env)) (kernel_pagetable (k_syms env)) (k_tab env) rg pt
         exclude_rip (memory (phys s), log_printer_new (kport s))) (\<lambda>(m, lp).
       return_k () (set_mem m (s\<lparr>kport := lp_port lp\<rparr>)))"

definition log_print_backtrace_current :: "kenv \<Rightarrow> 's machine_scheme \<Rightarrow> (unit, 's machine_scheme) kres" where
  "log_print_backtrace_current env s = log_backtrace env (k_regs env) (k_cr3 env) True s"

definition log_print_backtrace :: "kenv \<Rightarrow> proc \<Rightarrow> 's machine_scheme \<Rightarrow> (unit, 's machine_scheme) kres" where
  "log_print_backtrace env p s = log_backtrace env (backtrace_regs_of (regs p)) (pagetable p) False s"

text \<open>The printer of the code, as a step of the machine: what is printed through it is stored at the end.\<close>

definition with_error_printer :: "device \<Rightarrow> (mem \<times> error_printer \<Rightarrow> (mem \<times> error_printer) result option)
    \<Rightarrow> 's machine_scheme \<Rightarrow> (unit, 's machine_scheme) kres" where
  "with_error_printer dev body s =
     bind_ro (body (memory (phys s), error_printer_new (screen s) (cursorpos s) (kport s))) (\<lambda>(m, ep).
     bind_ro (Some (error_move_cursor dev ep)) (\<lambda>ep.
       return_k () (error_store ep (set_mem m s))))"

definition print_ep :: "device \<Rightarrow> byte list \<Rightarrow> args \<Rightarrow> mem \<times> error_printer \<Rightarrow> (mem \<times> error_printer) result option" where
  "print_ep dev fmt args mep =
     (case mep of (m, ep) \<Rightarrow> bind_ro (error_printf dev m fmt args ep) (\<lambda>ep. Some (Inr (m, ep))))"

definition backtrace_ep :: "kenv \<Rightarrow> backtrace_regs \<Rightarrow> addr \<Rightarrow> bool \<Rightarrow> mem \<times> error_printer
    \<Rightarrow> (mem \<times> error_printer) result option" where
  "backtrace_ep env rg pt exclude_rip mep =
     print_backtrace (error_printf (k_dev env)) (kernel_pagetable (k_syms env)) (k_tab env) rg pt exclude_rip mep"

definition error_print_backtrace :: "kenv \<Rightarrow> regstate \<Rightarrow> addr \<Rightarrow> bool \<Rightarrow> 's machine_scheme
    \<Rightarrow> (unit, 's machine_scheme) kres" where
  "error_print_backtrace env rg pt exclude_rip s =
     with_error_printer (k_dev env) (\<lambda>mep.
       bind_ro (if cursorpos s mod 80 \<noteq> 0 then print_ep (k_dev env) [0x0A] [] mep else Some (Inr mep))
         (backtrace_ep env (backtrace_regs_of rg) pt exclude_rip)) s"

text \<open>\<open>strstr\<close> on the bytes of a format and of a literal.\<close>

definition contains :: "byte list \<Rightarrow> byte list \<Rightarrow> bool" where
  "contains needle xs \<longleftrightarrow> (\<exists>i \<in> set [0..<Suc (length xs)]. take (length needle) (drop i xs) = needle)"

definition vpanic :: "kenv \<Rightarrow> backtrace_regs \<Rightarrow> addr \<Rightarrow> byte list option \<Rightarrow> args \<Rightarrow> 's machine_scheme
    \<Rightarrow> (unit, 's machine_scheme) kres" where
  "vpanic env rg pt format args s =
     (let dev = k_dev env;
          s = set_trace (Cli # k_trace s) (s\<lparr>panicking := True\<rparr>);
          fmt = (case format of None \<Rightarrow> str ''PANIC'' | Some f \<Rightarrow> f)
      in with_error_printer dev (\<lambda>mep.
           bind_ro (if \<not> contains (str ''PANIC'') fmt then print_ep dev (str ''PANIC: '') [] mep
                    else Some (Inr mep)) (\<lambda>mep.
           bind_ro (print_ep dev fmt args mep) (\<lambda>mep.
           bind_ro (if cp_cell (ep_con (snd mep)) mod 80 \<noteq> 0 then print_ep dev [0x0A] [] mep
                    else Some (Inr mep))
             (backtrace_ep env rg pt False)))) s)"

definition panic :: "kenv \<Rightarrow> byte list option \<Rightarrow> args \<Rightarrow> 's machine_scheme \<Rightarrow> ('a, 's machine_scheme) kres" where
  "panic env format args s =
     bind_k (vpanic env (k_regs env) (k_cr3 env) format args s) (\<lambda>_ s. fail env s)"

definition panic_at :: "kenv \<Rightarrow> regstate \<Rightarrow> byte list option \<Rightarrow> args \<Rightarrow> 's machine_scheme
    \<Rightarrow> ('a, 's machine_scheme) kres" where
  "panic_at env rg format args s =
     bind_k (vpanic env (backtrace_regs_of rg) (k_cr3 env) format args s) (\<lambda>_ s. fail env s)"

definition proc_panic :: "kenv \<Rightarrow> proc \<Rightarrow> byte list option \<Rightarrow> args \<Rightarrow> 's machine_scheme
    \<Rightarrow> ('a, 's machine_scheme) kres" where
  "proc_panic env p format args s =
     (let pt = (if reg_cs (regs p) AND 3 = 0 then k_cr3 env else pagetable p) in
      bind_k (vpanic env (backtrace_regs_of (regs p)) pt format args s) (\<lambda>_ s. fail env s))"

primrec write_bytes :: "mem \<Rightarrow> addr \<Rightarrow> byte list \<Rightarrow> mem" where
  "write_bytes m a [] = m"
| "write_bytes m a (b # bs) = write_bytes (m(a := b)) (a + 1) bs"

text \<open>The buffer of \<open>user_panic\<close> is on the kernel stack, at \<open>k_buf\<close>.\<close>

definition user_panic :: "kenv \<Rightarrow> proc \<Rightarrow> 's machine_scheme \<Rightarrow> ('a, 's machine_scheme) kres" where
  "user_panic env p s =
     (let buf = replicate 256 0 in
      if reg_rdi (regs p) = 0
      then proc_panic env p (Some (str ''USER PANIC'')) [k_buf env]
             (set_mem (write_bytes (memory (phys s)) (k_buf env) buf) s)
      else bind_ro (Some (bind_result (vmiter_new (memory (phys s)) (pagetable p) (reg_rdi (regs p)))
                            (strlcpy_from_user buf (memory (phys s))))) (\<lambda>buf.
           proc_panic env p (Some (str ''USER PANIC: %s'')) [k_buf env]
             (set_mem (write_bytes (memory (phys s)) (k_buf env) buf) s)))"

definition assert_fail :: "kenv \<Rightarrow> addr \<Rightarrow> int \<Rightarrow> addr \<Rightarrow> addr \<Rightarrow> 's machine_scheme
    \<Rightarrow> ('a, 's machine_scheme) kres" where
  "assert_fail env file line msg description s =
     (let dev = k_dev env in
      bind_k (with_error_printer dev (\<lambda>mep.
        bind_ro (if description \<noteq> 0
                 then print_ep dev (str ''%s:%d: %s'' @ [0x0A]) [file, word_of_int line, description] mep
                 else Some (Inr mep)) (\<lambda>mep.
        bind_ro (print_ep dev (str ''%s:%d: kernel assertion '' @ [0x27] @ str ''%s'' @ [0x27] @ str '' failed'' @ [0x0A])
                   [file, word_of_int line, msg] mep)
          (backtrace_ep env (k_regs env) (k_cr3 env) True))) s) (\<lambda>_ s. fail env s))"

subsection \<open>Static initialization guards\<close>

text \<open>The guard byte is 0 at the start, 1 while the statics are initialized and 2 afterwards.\<close>

partial_function (option) cxa_guard_loop :: "byte \<Rightarrow> (int \<times> byte) option" where
  "cxa_guard_loop guard =
     (let old_value = guard; guard = 1 in
      if old_value = 2 then Some (0, 2)
      else if old_value = 1 then cxa_guard_loop guard
      else Some (1, guard))"

definition cxa_guard_acquire :: "byte \<Rightarrow> (int \<times> byte) option" where
  "cxa_guard_acquire guard = (if guard = 2 then Some (0, guard) else cxa_guard_loop guard)"

definition cxa_guard_release :: "byte \<Rightarrow> byte" where
  "cxa_guard_release guard = 2"

definition cxa_pure_virtual :: "kenv \<Rightarrow> 's machine_scheme \<Rightarrow> ('a, 's machine_scheme) kres" where
  "cxa_pure_virtual env s = panic env (Some (str ''pure virtual function called in kernel!'' @ [0x0A])) [] s"

section \<open>Control that does not return\<close>

lemma bind_k_Next_iff:
  "bind_k r f = Some (Inr (Next b, s')) \<longleftrightarrow> (\<exists>a s. r = Some (Inr (Next a, s)) \<and> f a s = Some (Inr (Next b, s')))"
  by (auto simp: bind_k_def bind_ro_def split: sum.splits flow.splits bind_splits)

text \<open>The ends of code that does not return: power off or a soft reboot, never a process.\<close>

definition stops :: "(('a flow \<times> 's) result) option \<Rightarrow> bool" where
  "stops r \<longleftrightarrow> (\<forall>x s. r = Some (Inr (x, s)) \<longrightarrow> x = Exit PowerOff \<or> (\<exists>a. x = Exit (Restart a)))"

definition stops_or_returns :: "('a, 's) kres \<Rightarrow> bool" where
  "stops_or_returns r \<longleftrightarrow>
     (\<forall>x s. r = Some (Inr (x, s)) \<longrightarrow> (\<exists>a. x = Next a) \<or> x = Exit PowerOff \<or> (\<exists>a. x = Exit (Restart a)))"

lemma stops_simps [simp]:
  "stops None" "stops (Some (Inl e))" "stops (exit_k PowerOff s)" "stops (exit_k (Restart a) s)"
  by (simp_all add: stops_def exit_k_def)

lemma returns_simps [simp]:
  "stops_or_returns None" "stops_or_returns (Some (Inl e))" "stops_or_returns (return_k a s)"
  by (simp_all add: stops_or_returns_def return_k_def)

lemma stops_returns: "stops r \<Longrightarrow> stops_or_returns r"
  by (auto simp: stops_def stops_or_returns_def)

lemma stops_bind_ro: "(\<And>a. stops (f a)) \<Longrightarrow> stops (bind_ro r f)"
  by (cases r) (auto simp: bind_ro_def split: sum.splits)

lemma returns_bind_ro: "(\<And>a. stops_or_returns (f a)) \<Longrightarrow> stops_or_returns (bind_ro r f)"
  by (cases r) (auto simp: bind_ro_def split: sum.splits)

lemma bind_k_cases:
  obtains "r = None" | e where "r = Some (Inl e)" | a s where "r = return_k a s" | x s where "r = exit_k x s"
proof (cases r)
  case (Some y)
  show ?thesis
  proof (cases y)
    case (Inr p)
    show ?thesis
    proof (cases "fst p")
      case (Next a)
      with Some Inr show ?thesis using that(3) [of a "snd p"] by (simp add: return_k_def prod_eq_iff)
    next
      case (Exit x)
      with Some Inr show ?thesis using that(4) [of x "snd p"] by (simp add: exit_k_def prod_eq_iff)
    qed
  qed (use that(2) Some in simp)
qed (use that(1) in simp)

lemma stops_exit [simp]:
  "stops (exit_k x s) \<longleftrightarrow> x = PowerOff \<or> (\<exists>a. x = Restart a)"
  "stops_or_returns (exit_k x s) \<longleftrightarrow> x = PowerOff \<or> (\<exists>a. x = Restart a)"
  by (simp_all add: stops_def stops_or_returns_def exit_k_def)

lemma stops_bind_k:
  assumes "stops_or_returns r" "\<And>a s. stops (f a s)"
  shows "stops (bind_k r f)"
proof (cases r rule: bind_k_cases)
  case (3 a s)
  then show ?thesis using assms(2) by (simp only: bind_k_simps)
next
  case (4 x s)
  then show ?thesis using assms(1) by (simp only: bind_k_simps stops_exit)
qed (simp_all only: bind_k_simps stops_simps)

lemma returns_bind_k:
  assumes "stops_or_returns r" "\<And>a s. stops_or_returns (f a s)"
  shows "stops_or_returns (bind_k r f)"
proof (cases r rule: bind_k_cases)
  case (3 a s)
  then show ?thesis using assms(2) by (simp only: bind_k_simps)
next
  case (4 x s)
  then show ?thesis using assms(1) by (simp only: bind_k_simps stops_exit)
qed (simp_all only: bind_k_simps returns_simps)

lemmas stops_intros = stops_bind_ro stops_bind_k returns_bind_ro returns_bind_k

lemma console_printf_returns [simp]: "stops_or_returns (console_printf cpos fmt args s)"
  unfolding console_printf_def by (auto intro!: returns_bind_ro split: prod.split)

lemma log_printf_returns [simp]: "stops_or_returns (log_printf dev fmt args s)"
  unfolding log_printf_def by (intro returns_bind_ro) simp

lemma error_report_returns [simp]: "stops_or_returns (error_report dev fmt args s)"
  unfolding error_report_def by (intro returns_bind_ro) simp

lemma poweroff_stops [simp]: "stops (poweroff dev s)"
  unfolding poweroff_def by (auto intro!: stops_intros split: prod.split)

lemma soft_reboot_stops [simp]: "stops (soft_reboot env argument s)"
  unfolding soft_reboot_def Let_def by (auto intro!: stops_intros simp: assert_k_def)

lemma check_keyboard_returns [simp]: "stops_or_returns (check_keyboard env s)"
  unfolding check_keyboard_def Let_def by (auto intro: stops_returns split: prod.split)

lemma fail_stops [simp]: "stops (fail env s :: ('a, 's machine_scheme) kres)"
proof (cases "fail env s :: ('a, 's machine_scheme) kres")
  case (Some y)
  have "stops (Some y :: ('a, 's machine_scheme) kres)"
  proof (rule fail.raw_induct [OF _ Some])
    fix loop env s y
    assume loop: "\<And>env s y. loop env s = Some y \<Longrightarrow> stops (Some y)"
      and y: "bind_k (check_keyboard env s) (\<lambda>_. loop env) = Some y"
    have "stops (loop env s)" for env s using loop [of env s] by (cases "loop env s") simp_all
    then have "stops (bind_k (check_keyboard env s) (\<lambda>_. loop env))" by (intro stops_bind_k) simp_all
    then show "stops (Some y)" by (simp only: y)
  qed
  then show ?thesis using Some by simp
qed simp

lemma with_error_printer_returns [simp]: "stops_or_returns (with_error_printer dev body s)"
  unfolding with_error_printer_def by (auto intro!: returns_bind_ro split: prod.split)

lemma vpanic_returns [simp]: "stops_or_returns (vpanic env rg pt format args s)"
  unfolding vpanic_def Let_def by simp

lemma proc_panic_stops [simp]: "stops (proc_panic env p format args s)"
  unfolding proc_panic_def Let_def by (intro stops_intros) simp_all

lemma panic_stops [simp]: "stops (panic env format args s)" "stops (panic_at env rg format args s)"
  unfolding panic_def panic_at_def by (intro stops_intros; simp)+

lemma user_panic_stops [simp]: "stops (user_panic env p s)"
  unfolding user_panic_def Let_def by (auto intro!: stops_intros)

lemma assert_fail_stops [simp]: "stops (assert_fail env file line msg description s)"
  unfolding assert_fail_def Let_def by (intro stops_intros) simp_all

lemma log_backtrace_returns [simp]: "stops_or_returns (log_print_backtrace env p s)"
  unfolding log_print_backtrace_def log_backtrace_def by (auto intro!: returns_bind_ro split: prod.split)

section \<open>What the hardware functions leave alone\<close>

text \<open>
  These functions act on the machine part of a larger state. \<open>ends_in P r\<close> says that \<open>r\<close> can
  only end in states with \<open>P\<close>, and \<open>keeps s\<close> that the rest of the state is that of \<open>s\<close>.
\<close>

definition ends_in :: "('s \<Rightarrow> bool) \<Rightarrow> ('a, 's) kres \<Rightarrow> bool" where
  "ends_in P r \<longleftrightarrow> (\<forall>x s. r = Some (Inr (x, s)) \<longrightarrow> P s)"

abbreviation keeps :: "'s machine_scheme \<Rightarrow> 's machine_scheme \<Rightarrow> bool" where
  "keeps s s' \<equiv> machine.more s' = machine.more s"

lemma ends_in_simps [simp]:
  "ends_in P None" "ends_in P (Some (Inl e))"
  "ends_in P (return_k a s) \<longleftrightarrow> P s" "ends_in P (exit_k x s) \<longleftrightarrow> P s"
  by (simp_all add: ends_in_def return_k_def exit_k_def)

lemma ends_in_bind_ro: "(\<And>a. r = Some (Inr a) \<Longrightarrow> ends_in P (f a)) \<Longrightarrow> ends_in P (bind_ro r f)"
  by (cases r) (auto simp: bind_ro_def split: sum.splits)

lemma ends_in_bind_k:
  assumes "ends_in P r" "\<And>a s. P s \<Longrightarrow> ends_in Q (f a s)" "\<And>s. P s \<Longrightarrow> Q s"
  shows "ends_in Q (bind_k r f)"
proof (cases r rule: bind_k_cases)
  case (3 a s)
  then show ?thesis using assms by (simp only: bind_k_simps ends_in_simps)
next
  case (4 x s)
  then show ?thesis using assms by (simp only: bind_k_simps ends_in_simps)
qed (simp_all only: bind_k_simps ends_in_simps)

lemma ends_in_bind_same: "ends_in P r \<Longrightarrow> (\<And>a s. P s \<Longrightarrow> ends_in P (f a s)) \<Longrightarrow> ends_in P (bind_k r f)"
  by (rule ends_in_bind_k)

lemma ends_in_weaken: "ends_in P r \<Longrightarrow> (\<And>s. P s \<Longrightarrow> Q s) \<Longrightarrow> ends_in Q r"
  by (auto simp: ends_in_def)

lemma keeps_set [simp]:
  "machine.more (set_mem m s) = machine.more s" "machine.more (set_trace tr s) = machine.more s"
  "machine.more (error_store ep s) = machine.more s" "machine.more (console_show_cursor s) = machine.more s"
  by (simp_all add: set_mem_def set_trace_def error_store_def console_show_cursor_def Let_def)

lemma console_printf_keeps: "machine.more s = r \<Longrightarrow> ends_in (\<lambda>s'. machine.more s' = r) (console_printf cpos fmt args s)"
  unfolding console_printf_def by (intro ends_in_bind_ro) (simp split: prod.split)

lemma log_printf_keeps: "machine.more s = r \<Longrightarrow> ends_in (\<lambda>s'. machine.more s' = r) (log_printf dev fmt args s)"
  unfolding log_printf_def by (intro ends_in_bind_ro) simp

lemma error_report_keeps: "machine.more s = r \<Longrightarrow> ends_in (\<lambda>s'. machine.more s' = r) (error_report dev fmt args s)"
  unfolding error_report_def by (intro ends_in_bind_ro) simp

lemma poweroff_keeps: "machine.more s = r \<Longrightarrow> ends_in (\<lambda>s'. machine.more s' = r) (poweroff dev s)"
  unfolding poweroff_def
  by (auto intro!: ends_in_bind_ro ends_in_bind_same console_printf_keeps split: prod.split)

lemma check_keyboard_keeps: "machine.more s = r \<Longrightarrow> ends_in (\<lambda>s'. machine.more s' = r) (check_keyboard env s)"
  unfolding check_keyboard_def soft_reboot_def Let_def assert_k_def
  by (auto intro!: poweroff_keeps split: prod.split)

lemma log_backtrace_keeps: "machine.more s = r \<Longrightarrow> ends_in (\<lambda>s'. machine.more s' = r) (log_print_backtrace env p s)"
  unfolding log_print_backtrace_def log_backtrace_def by (intro ends_in_bind_ro) (simp split: prod.split)

lemmas machine_keeps =
  console_printf_keeps log_printf_keeps error_report_keeps poweroff_keeps check_keyboard_keeps log_backtrace_keeps

section \<open>Static initialization\<close>

text \<open>The first caller initializes, later callers do not; a recursive initialization deadlocks.\<close>

lemma cxa_guard_loop_ends:
  assumes "cxa_guard_loop guard = Some r"
  shows "guard \<noteq> 1"
proof (rule cxa_guard_loop.raw_induct [OF _ assms])
  fix loop and guard :: byte and r
  assume ih: "\<And>guard r. loop guard = Some r \<Longrightarrow> guard \<noteq> 1"
    and r: "(let old_value = guard; guard = 1 in if old_value = 2 then Some (0, 2)
          else if old_value = 1 then loop guard else Some (1, guard)) = Some r"
  show "guard \<noteq> 1"
  proof
    assume "guard = 1"
    with r have "loop 1 = Some r" by (simp add: Let_def)
    then show False using ih by blast
  qed
qed

lemma cxa_guard_once:
  "cxa_guard_acquire 0 = Some (1, 1)"
  "cxa_guard_acquire (cxa_guard_release guard) = Some (0, 2)"
  "cxa_guard_acquire 1 = None"
  using cxa_guard_loop_ends [of 1]
  by (auto simp: cxa_guard_acquire_def cxa_guard_release_def cxa_guard_loop.simps [of 0] not_Some_eq [symmetric])

section \<open>The soft reboot\<close>

lemma reboot_tables_outside:
  assumes "0x3000 \<le> x"
  shows "reboot_tables m x = m x"
proof -
  have x: "0x3000 \<le> unat x" using assms by (simp add: word_le_nat_alt)
  then have "\<not> x - 0x1000 < 0x2000" "\<not> x - 0x1000 < 8" "\<not> x - 0x2000 < 8"
    by (simp_all add: word_less_nat_alt unat_sub_if')
  then show ?thesis
    by (simp add: reboot_tables_def Let_def store64_outside memset_apply)
qed

lemma reboot_tables_entries:
  "load64 (reboot_tables m) 0x1000 = 0x2003" "load64 (reboot_tables m) 0x2000 = 0x83"
proof -
  have "aligned8 0x1000" "aligned8 0x2000" by (simp_all add: aligned8_def)
  then show "load64 (reboot_tables m) 0x1000 = 0x2003" "load64 (reboot_tables m) 0x2000 = 0x83"
    by (simp_all add: reboot_tables_def Let_def load64_store64_same load64_store64_other)
qed

lemma reboot_translate:
  assumes "\<And>x. x - 0x1000 < 0x2000 \<Longrightarrow> m' x = reboot_tables m x" "va < 0x40000000"
  shows "translate (load64 m') 0x1000 va = Some (va, True, False)"
proof -
  have "load64 m' 0x1000 = load64 (reboot_tables m) 0x1000" "load64 m' 0x2000 = load64 (reboot_tables m) 0x2000"
    by (rule load64_cong, rule assms(1), simp add: word_less_nat_alt unat_word_ariths)+
  then have e: "load64 m' 0x1000 = 0x2003" "load64 m' 0x2000 = 0x83" by (simp_all add: reboot_tables_entries)
  have u: "unat va < 0x40000000" using assms(2) by (simp add: word_less_nat_alt)
  then have idx: "pgidx 3 va = 0" "pgidx 2 va = 0" by (simp_all add: word_unat_eq_iff unat_pgidx)
  have "leaf_pa 2 0x83 va = va"
    using u by (intro leaf_pa_identity) simp
  then show ?thesis
    by (simp add: translate_def numeral_3_eq_3 slot_def idx [simplified numeral_3_eq_3 numeral_2_eq_2]
        numeral_2_eq_2 e Let_def restrict_flags_def next_table_def)
qed

text \<open>The memory a soft reboot leaves, when the stash still holds the boot data.\<close>

lemma reboot_memory:
  assumes fits: "stash_fits syms" and low: "0x3000 \<le> data_start syms"
    and stash: "\<forall>x. x - data_stash syms < data_size syms \<longrightarrow> now x = stash_kernel_data syms False boot x"
  shows "stash_kernel_data syms True (stash_kernel_data syms True (reboot_tables now)) x =
    (if data_start syms \<le> x \<and> x < edata syms then boot x
     else if edata syms \<le> x \<and> x < kernel_end syms then 0 else reboot_tables now x)"
proof -
  let ?m1 = "reboot_tables now" and ?m2 = "stash_kernel_data syms True (reboot_tables now)"
  note u = stash_fits_unat [OF fits]
  have high: "kernel_end syms \<le> x \<and> 0x3000 \<le> x" if "x - data_stash syms < data_size syms" for x
  proof -
    have "unat (data_stash syms) \<le> 0x1000000" using u by simp
    then have "unat (data_stash syms) \<le> unat x"
      using that u by (auto simp: word_less_nat_alt unat_sub_if' split: if_splits)
    moreover have "0x3000 \<le> unat (data_start syms)" using low by (simp add: word_le_nat_alt)
    ultimately show ?thesis using u by (simp add: word_le_nat_alt)
  qed
  have s1: "\<forall>x. x - data_stash syms < data_size syms \<longrightarrow> ?m1 x = stash_kernel_data syms False boot x"
    using stash high reboot_tables_outside by simp
  note m2 = stash_restore_boot [OF fits s1]
  have le: "edata syms \<le> kernel_end syms" using u by (simp add: word_le_nat_alt)
  have s2: "\<forall>x. x - data_stash syms < data_size syms \<longrightarrow> ?m2 x = stash_kernel_data syms False boot x"
  proof (intro allI impI)
    fix x assume x: "x - data_stash syms < data_size syms"
    have "\<not> x < edata syms" "\<not> x < kernel_end syms" using high [OF x] order_trans [OF le] by (simp_all add: not_less)
    then show "?m2 x = stash_kernel_data syms False boot x" using s1 x m2 [of x] by simp
  qed
  show ?thesis using stash_restore_boot [OF fits s2, of x] m2 [of x] by simp
qed

lemma soft_reboot_exit:
  assumes "k_lit env argument < 0x100000000"
  shows "soft_reboot env argument s = exit_k (Restart (ucast (k_lit env argument)))
    (set_mem (stash_kernel_data (k_syms env) True (stash_kernel_data (k_syms env) True (reboot_tables (memory (phys s)))))
       (set_trace (wrcr3 0x1000 (init_timer (- 1) (k_trace s))) s))"
  using assms
  by (simp add: soft_reboot_def assert_k_def Let_def set_mem_def set_trace_def)
    (simp add: stash_kernel_data_def Let_def)

section \<open>Power off\<close>

lemma console_printf_plain:
  assumes "0x25 \<notin> set fmt" "0 \<le> cursorpos s" "cursorpos s \<le> END_CPOS"
  obtains s' where "console_printf cpos fmt args s = return_k () s'" "kport s' = kport s"
proof -
  obtain cp pos where
    "console_vprintf (memory (phys s)) (screen s) (cursorpos s) cpos fmt args = Some (Inr (cp, pos))"
    using console_vprintf_ends [OF vprintf_calls_plain [OF assms(1)] assms(2,3)] by metis
  then show thesis
    using that [of "s\<lparr>screen := cp_console cp, cursorpos := cp_cursorpos cp\<rparr>"] by (simp add: console_printf_def)
qed

lemma find_power_controller_first:
  assumes "pci_config dev cfg"
  shows "\<exists>a tr'. find_power_controller dev tr = Inr (a, tr') \<and> first_match cfg (\<lambda>b. is_power_controller (cfg b)) 0 a"
  unfolding find_power_controller_def
proof (rule pci_find_first [OF assms])
  show "pci_reachable cfg 0" by (simp add: pci_reachable_def)
  fix b tr assume b: "pci_reachable cfg b"
  then have "256 dvd b" by (auto simp: pci_reachable_def)
  then have "4 dvd b" by (rule dvd_trans [rotated]) simp
  then have "b mod 4 = 0" by simp
  moreover have "0 \<le> b" "b < 0x1000000" using b by (simp_all add: pci_reachable_def)
  ultimately obtain tr' where "readl dev b tr = Inr (cfg b, tr')" using readl_config [OF assms] by metis
  then show "\<exists>tr'. bind_result (readl dev b tr) (\<lambda>(vd, tr). Inr (is_power_controller vd, tr)) = Inr (is_power_controller (cfg b), tr')"
    by simp
qed

section \<open>Properties\<close>

text \<open>
  \<open>C39\<close>: a panic, a failed kernel assertion and a user panic never return to their caller and
  never resume a process. Whatever the machine state, the message and the stacks they print,
  the only ways out of the keyboard loop that follows are power off and a soft reboot.
\<close>

theorem panics_do_not_return:
  "stops (panic env fmt args s) \<and> stops (panic_at env rg fmt args s) \<and> stops (proc_panic env p fmt args s)
    \<and> stops (user_panic env p s) \<and> stops (assert_fail env file line msg description s)"
  by simp

text \<open>
  \<open>C40\<close>: a soft reboot gives the new kernel the state a cold boot gives it. When the stash is
  intact, the data segment has its values at boot and the zero-initialized segment is clear,
  the command-line argument is passed on, the timer is off, and the processor runs on a
  temporary page table that maps the first gigabyte of memory at its own address for the kernel.
\<close>

theorem soft_reboot_restores:
  assumes "stash_fits (k_syms env)" "0x3000 \<le> data_start (k_syms env)" "k_lit env argument < 0x100000000"
    and "\<forall>x. x - data_stash (k_syms env) < data_size (k_syms env) \<longrightarrow>
      memory (phys s) x = stash_kernel_data (k_syms env) False boot x"
  shows "\<exists>s'. soft_reboot env argument s = exit_k (Restart (ucast (k_lit env argument))) s'
    \<and> k_trace s' = WrCr3 0x1000 # init_timer (- 1) (k_trace s)
    \<and> (\<forall>x. data_start (k_syms env) \<le> x \<and> x < edata (k_syms env) \<longrightarrow> memory (phys s') x = boot x)
    \<and> (\<forall>x. edata (k_syms env) \<le> x \<and> x < kernel_end (k_syms env) \<longrightarrow> memory (phys s') x = 0)
    \<and> (\<forall>va < 0x40000000. translate (load64 (memory (phys s'))) 0x1000 va = Some (va, True, False))"
proof -
  let ?syms = "k_syms env" and ?now = "memory (phys s)"
  let ?m = "stash_kernel_data ?syms True (stash_kernel_data ?syms True (reboot_tables ?now))"
  note m = reboot_memory [OF assms(1,2,4)]
  have "?m x = reboot_tables ?now x" if "x - 0x1000 < 0x2000" for x
  proof -
    have "unat x < 0x3000" using that by (auto simp: word_less_nat_alt unat_sub_if' split: if_splits)
    moreover have "0x3000 \<le> unat (data_start ?syms)" using assms(2) by (simp add: word_le_nat_alt)
    ultimately have "\<not> data_start ?syms \<le> x" "\<not> edata ?syms \<le> x"
      using stash_fits_unat(3) [OF assms(1)] by (simp_all add: word_le_nat_alt)
    then show ?thesis using m [of x] by simp
  qed
  then have "\<forall>va < 0x40000000. translate (load64 ?m) 0x1000 va = Some (va, True, False)"
    using reboot_translate by blast
  moreover have "\<forall>x. edata ?syms \<le> x \<and> x < kernel_end ?syms \<longrightarrow> ?m x = 0" using m by (auto simp: not_less)
  moreover have "\<forall>x. data_start ?syms \<le> x \<and> x < edata ?syms \<longrightarrow> ?m x = boot x" using m by simp
  ultimately show ?thesis
    by (intro exI [of _ "set_mem ?m (set_trace (wrcr3 0x1000 (init_timer (- 1) (k_trace s))) s)"])
      (simp add: soft_reboot_exit [OF assms(3)], simp add: set_mem_def set_trace_def wrcr3_def)
qed

text \<open>
  \<open>poweroff\<close> always ends in its final loop without a failed assertion. On a machine with
  PCI configuration space \<open>cfg\<close> it first finds the first function that is a PIIX4 or ICH9 power
  controller and writes the suspend command to the control register at the I/O base in that
  function's configuration space.
\<close>

theorem poweroff_requests:
  assumes "pci_config dev cfg" "0 \<le> cursorpos s" "cursorpos s \<le> END_CPOS"
  shows "\<exists>s' a. poweroff dev s = exit_k PowerOff s'
    \<and> first_match cfg (\<lambda>b. is_power_controller (cfg b)) 0 a
    \<and> (if a < 0 then a = - 1
       else hd (k_trace s') = OutW (word_of_int (uint (cfg (a + 0x40) AND 0xFFC0) + 4)) 0x2000)"
proof -
  obtain a tr1 where a: "find_power_controller dev (k_trace s) = Inr (a, tr1)"
    "first_match cfg (\<lambda>b. is_power_controller (cfg b)) 0 a"
    using find_power_controller_first [OF assms(1)] by blast
  have range: "a = - 1 \<or> 0 \<le> a \<and> a < addr_end \<and> a mod 4 = 0"
  proof -
    have "a mod 4 = 0" if "a mod 256 = 0" using that mod_mod_cancel [of 4 256 a] by simp
    then show ?thesis using a(2) by (auto simp: first_match_def pci_visible_def pci_reachable_def split: if_splits)
  qed
  let ?fmt = "0x1B # str ''[41;1mCannot power off!'' @ [0x0A]"
  have plain: "0x25 \<notin> set ?fmt" by (simp add: str_def)
  have cur: "0 \<le> cursorpos (set_trace tr s)" "cursorpos (set_trace tr s) \<le> END_CPOS" for tr
    using assms(2,3) by (simp_all add: set_trace_def)
  show ?thesis
  proof (cases "a < 0")
    case True
    then have "a = - 1" using range by simp
    obtain s' where "console_printf (24 * 80) ?fmt [] (set_trace tr1 s) = return_k () s'"
      using console_printf_plain [OF plain, of "set_trace tr1 s" "24 * 80" "[]"] cur by metis
    then show ?thesis
      using a True \<open>a = - 1\<close> by (intro exI [of _ s'] exI [of _ a]) (simp add: poweroff_def)
  next
    case False
    then have r: "0 \<le> a + 0x40" "a + 0x40 < 0x1000000" "(a + 0x40) mod 4 = 0" using range by auto
    then obtain tr2 where r2: "readl dev (a + 0x40) tr1 = Inr (cfg (a + 0x40), tr2)"
      using readl_config [OF assms(1)] by metis
    let ?tr = "outw (uint (cfg (a + 0x40) AND 0xFFC0) + 4) 0x2000 tr2"
    obtain s' where "console_printf (24 * 80) ?fmt [] (set_trace ?tr s) = return_k () s'" "kport s' = kport (set_trace ?tr s)"
      using console_printf_plain [OF plain, of "set_trace ?tr s" "24 * 80" "[]"] cur by metis
    moreover from this(2) have "hd (k_trace s') = OutW (word_of_int (uint (cfg (a + 0x40) AND 0xFFC0) + 4)) 0x2000"
      by (simp add: set_trace_def outw_def)
    ultimately show ?thesis using a False r2 by (intro exI [of _ s'] exI [of _ a]) (simp add: poweroff_def)
  qed
qed

definition example_env :: kenv where
  "example_env =
     \<lparr>k_dev = bridge two_devices, k_syms = example_symbols,
      k_tab = \<lparr>sym = [], strtab = 0\<rparr>, k_lit = (\<lambda>_. 0x48000), k_buf = 0x7F000,
      k_regs = \<lparr>bt_reg_rip = 0, bt_reg_rsp = 0x7F800, bt_reg_rbp = 0\<rparr>, k_cr3 = 0x51000\<rparr>"

definition example_machine :: machine where
  "example_machine =
     \<lparr>phys = \<lparr>memory = stash_kernel_data example_symbols False (\<lambda>x. ucast x), refcount = (\<lambda>_. 0)\<rparr>,
      screen = (\<lambda>_. 0), cursorpos = 0, kport = \<lparr>initialized = False, port_trace = []\<rparr>,
      keyboard = \<lparr>modifiers = 0, last_escape = 0\<rparr>, panicking = False\<rparr>"

lemma example_stash: "stash_fits example_symbols" "0x3000 \<le> data_start example_symbols"
  by (simp_all add: stash_fits_def example_symbols_def data_stash_def data_size_def)

theorem soft_reboot_restores_witness:
  "\<exists>s'. soft_reboot example_env ''fork'' example_machine = exit_k (Restart 0x48000) s'
    \<and> memory (phys s') 0x50123 = 0x23"
proof -
  have d: "data_start example_symbols \<le> 0x50123" "0x50123 < edata example_symbols"
    by (simp_all add: example_symbols_def)
  have "stash_fits (k_syms example_env)" "0x3000 \<le> data_start (k_syms example_env)"
    "k_lit example_env ''fork'' < 0x100000000"
    "\<forall>x. x - data_stash (k_syms example_env) < data_size (k_syms example_env) \<longrightarrow>
      memory (phys example_machine) x = stash_kernel_data (k_syms example_env) False (\<lambda>x. ucast x) x"
    using example_stash by (simp_all add: example_env_def example_machine_def)
  from soft_reboot_restores [OF this] d show ?thesis
    by (auto simp: example_env_def dest!: spec [of _ "0x50123"])
qed

theorem poweroff_requests_witness:
  "\<exists>s'. poweroff (bridge two_devices) example_machine = exit_k PowerOff s'"
  using poweroff_requests [OF bridge_config, of example_machine two_devices]
  by (auto simp: example_machine_def)

end
