(* ===== verification/ProgImage.thy ===== *)
theory ProgImage
  imports CString PhysPages
begin

text \<open>
  Program images: the ELF files of the processes that are linked into the kernel, and the
  iterator over their loadable segments (\<open>program_image\<close> and \<open>program_image_segment\<close> of
  \<open>pset3/k-hardware.cc\<close>, the structures of \<open>pset3/elf.h\<close>). Images are read from memory; the
  table of images is built by the linker and is a parameter. The theorems show that the
  iterator ends and visits exactly the loadable segments in order.
\<close>

section \<open>Definitions\<close>

definition load16 :: "mem \<Rightarrow> addr \<Rightarrow> u16" where
  "load16 m a = ucast (m a) OR push_bit 8 (ucast (m (a + 1)))"

definition load32 :: "mem \<Rightarrow> addr \<Rightarrow> u32" where
  "load32 m a = ucast (load16 m a) OR push_bit 16 (ucast (load16 m (a + 2)))"

definition store32 :: "mem \<Rightarrow> addr \<Rightarrow> u32 \<Rightarrow> mem" where
  "store32 m a v =
     m(a := ucast v, a + 1 := ucast (drop_bit 8 v), a + 2 := ucast (drop_bit 16 v),
       a + 3 := ucast (drop_bit 24 v))"

subsection \<open>ELF structures\<close>

text \<open>The fields of an executable header and of a program header, by their offsets.\<close>

record elf_header =
  e_magic :: u32
  e_entry :: u64
  e_phoff :: u64
  e_phnum :: u16

definition elf_header_at :: "mem \<Rightarrow> addr \<Rightarrow> elf_header" where
  "elf_header_at m elf =
     \<lparr>e_magic = load32 m elf, e_entry = load64 m (elf + 0x18), e_phoff = load64 m (elf + 0x20),
      e_phnum = load16 m (elf + 0x38)\<rparr>"

record elf_program =
  p_type :: u32
  p_flags :: u32
  p_offset :: u64
  p_va :: u64
  p_filesz :: u64
  p_memsz :: u64

definition elf_program_at :: "mem \<Rightarrow> addr \<Rightarrow> elf_program" where
  "elf_program_at m ph =
     \<lparr>p_type = load32 m ph, p_flags = load32 m (ph + 4), p_offset = load64 m (ph + 8),
      p_va = load64 m (ph + 0x10), p_filesz = load64 m (ph + 0x20), p_memsz = load64 m (ph + 0x28)\<rparr>"

abbreviation ELF_MAGIC :: u32 where "ELF_MAGIC \<equiv> 0x464C457F"
abbreviation ELF_PTYPE_LOAD :: u32 where "ELF_PTYPE_LOAD \<equiv> 1"
abbreviation ELF_PFLAG_WRITE :: u32 where "ELF_PFLAG_WRITE \<equiv> 2"

text \<open>\<open>sizeof(elf_program)\<close>.\<close>

abbreviation PH_SIZE :: u64 where "PH_SIZE \<equiv> 56"

subsection \<open>Images\<close>

record ramimage =
  im_name :: addr
  im_begin :: addr
  im_end :: addr

text \<open>A program image is the address of its header; the null pointer is the empty image.\<close>

type_synonym program_image = addr

definition program_image_new :: "ramimage list \<Rightarrow> mem \<Rightarrow> int \<Rightarrow> program_image result" where
  "program_image_new ramimages m program_number =
     (if program_number \<ge> 0 \<and> program_number < int (length ramimages)
      then let elf = im_begin (ramimages ! nat program_number) in
           if e_magic (elf_header_at m elf) = ELF_MAGIC then Inr elf
           else Inl (AssertFail ''elf_->e_magic == ELF_MAGIC'')
      else Inr 0)"

text \<open>The loop of \<open>program_number\<close> from image \<open>i\<close> on; a name without terminator is never compared.\<close>

fun program_number_loop :: "ramimage list \<Rightarrow> int \<Rightarrow> mem \<Rightarrow> addr \<Rightarrow> int option" where
  "program_number_loop [] i m program_name = Some (- 1)"
| "program_number_loop (im # ims) i m program_name =
     (case strcmp m program_name (im_name im) of
        None \<Rightarrow> None
      | Some c \<Rightarrow> if c = 0 then Some i else program_number_loop ims (i + 1) m program_name)"

definition program_number :: "ramimage list \<Rightarrow> mem \<Rightarrow> addr \<Rightarrow> int option" where
  "program_number ramimages m program_name = program_number_loop ramimages 0 m program_name"

definition program_image_named :: "ramimage list \<Rightarrow> mem \<Rightarrow> addr \<Rightarrow> program_image result option" where
  "program_image_named ramimages m program_name =
     map_option (program_image_new ramimages m) (program_number ramimages m program_name)"

definition image_entry :: "mem \<Rightarrow> program_image \<Rightarrow> u64" where
  "image_entry m elf = (if elf \<noteq> 0 then e_entry (elf_header_at m elf) else 0)"

definition image_empty :: "mem \<Rightarrow> program_image \<Rightarrow> bool" where
  "image_empty m elf \<longleftrightarrow> elf = 0 \<or> e_phnum (elf_header_at m elf) = 0"

definition elf_header_program :: "mem \<Rightarrow> program_image \<Rightarrow> bool \<Rightarrow> addr" where
  "elf_header_program m elf at_end =
     (if elf \<noteq> 0
      then elf + e_phoff (elf_header_at m elf)
           + PH_SIZE * (if at_end then ucast (e_phnum (elf_header_at m elf)) else 0)
      else 0)"

subsection \<open>Segments\<close>

record segment =
  seg_ph :: addr
  seg_elf :: program_image

partial_function (option) segment_fix :: "mem \<Rightarrow> segment \<Rightarrow> segment option" where
  "segment_fix m seg =
     (if seg_ph seg \<noteq> elf_header_program m (seg_elf seg) True
         \<and> p_type (elf_program_at m (seg_ph seg)) \<noteq> ELF_PTYPE_LOAD
      then segment_fix m (seg\<lparr>seg_ph := seg_ph seg + PH_SIZE\<rparr>)
      else Some seg)"

definition segment_new :: "mem \<Rightarrow> addr \<Rightarrow> program_image \<Rightarrow> segment option" where
  "segment_new m ph elf = segment_fix m \<lparr>seg_ph = ph, seg_elf = elf\<rparr>"

definition image_begin :: "mem \<Rightarrow> program_image \<Rightarrow> segment option" where
  "image_begin m elf = segment_new m (elf_header_program m elf False) elf"

definition image_end :: "mem \<Rightarrow> program_image \<Rightarrow> segment option" where
  "image_end m elf = segment_new m (elf_header_program m elf True) elf"

definition segment_va :: "mem \<Rightarrow> segment \<Rightarrow> u64" where
  "segment_va m seg = p_va (elf_program_at m (seg_ph seg))"

definition segment_size :: "mem \<Rightarrow> segment \<Rightarrow> u64" where
  "segment_size m seg = p_memsz (elf_program_at m (seg_ph seg))"

definition segment_data :: "mem \<Rightarrow> segment \<Rightarrow> addr" where
  "segment_data m seg = seg_elf seg + p_offset (elf_program_at m (seg_ph seg))"

definition segment_data_size :: "mem \<Rightarrow> segment \<Rightarrow> u64" where
  "segment_data_size m seg = p_filesz (elf_program_at m (seg_ph seg))"

definition segment_writable :: "mem \<Rightarrow> segment \<Rightarrow> bool" where
  "segment_writable m seg \<longleftrightarrow> p_flags (elf_program_at m (seg_ph seg)) AND ELF_PFLAG_WRITE \<noteq> 0"

definition segment_eq :: "segment \<Rightarrow> segment \<Rightarrow> bool" where
  "segment_eq a b \<longleftrightarrow> seg_ph a = seg_ph b"

definition segment_next :: "mem \<Rightarrow> segment \<Rightarrow> segment result option" where
  "segment_next m seg =
     (if seg_ph seg = elf_header_program m (seg_elf seg) True
      then Some (Inl (AssertFail ''ph_ != elf_header_program(elf_, true)''))
      else map_option Inr (segment_fix m (seg\<lparr>seg_ph := seg_ph seg + PH_SIZE\<rparr>)))"

section \<open>The segments in order\<close>

text \<open>The program headers of an image, and what a loop over its segments visits.\<close>

definition program_headers :: "mem \<Rightarrow> program_image \<Rightarrow> addr list" where
  "program_headers m elf =
     (if elf = 0 then []
      else map (\<lambda>i. elf_header_program m elf False + PH_SIZE * of_nat i)
             [0..<unat (e_phnum (elf_header_at m elf))])"

definition is_loadable :: "mem \<Rightarrow> addr \<Rightarrow> bool" where
  "is_loadable m ph \<longleftrightarrow> p_type (elf_program_at m ph) = ELF_PTYPE_LOAD"

partial_function (option) segments_from :: "mem \<Rightarrow> segment \<Rightarrow> addr list result option" where
  "segments_from m seg =
     bind_ro (map_option Inr (image_end m (seg_elf seg))) (\<lambda>e.
       if segment_eq seg e then Some (Inr [])
       else bind_ro (segment_next m seg) (\<lambda>seg'.
            bind_ro (segments_from m seg') (\<lambda>ss. Some (Inr (seg_ph seg # ss)))))"

definition header_at :: "mem \<Rightarrow> program_image \<Rightarrow> nat \<Rightarrow> addr" where
  "header_at m elf i = elf_header_program m elf False + PH_SIZE * of_nat i"

definition header_count :: "mem \<Rightarrow> program_image \<Rightarrow> nat" where
  "header_count m elf = (if elf = 0 then 0 else unat (e_phnum (elf_header_at m elf)))"

definition loadable_from :: "mem \<Rightarrow> program_image \<Rightarrow> nat \<Rightarrow> addr list" where
  "loadable_from m elf i = filter (is_loadable m) (map (header_at m elf) [i..<header_count m elf])"

lemma program_headers_loadable: "filter (is_loadable m) (program_headers m elf) = loadable_from m elf 0"
  by (simp add: program_headers_def loadable_from_def header_count_def header_at_def [abs_def])

lemma loadable_from_step:
  "i < header_count m elf \<Longrightarrow> loadable_from m elf i =
    (if is_loadable m (header_at m elf i) then header_at m elf i # loadable_from m elf (Suc i)
     else loadable_from m elf (Suc i))"
  by (simp add: loadable_from_def upt_conv_Cons)

lemma header_count_less: "header_count m elf < 65536"
  using unsigned_less [of "e_phnum (elf_header_at m elf)", where 'a = nat]
  by (simp add: header_count_def)

lemma header_at_end: "elf_header_program m elf True = header_at m elf (header_count m elf)"
  by (simp add: elf_header_program_def header_at_def header_count_def)

lemma header_at_eq_end:
  assumes "i \<le> header_count m elf"
  shows "header_at m elf i = elf_header_program m elf True \<longleftrightarrow> i = header_count m elf"
proof -
  have "unat (PH_SIZE * of_nat k :: u64) = 56 * k" if "k < 65536" for k
    using that unat_of_nat_small [of "56 * k"] by simp
  then have "PH_SIZE * of_nat i = (PH_SIZE * of_nat (header_count m elf) :: u64) \<longleftrightarrow> i = header_count m elf"
    using assms header_count_less [of m elf] by (auto simp: word_unat_eq_iff)
  then show ?thesis by (simp add: header_at_end header_at_def [of m elf])
qed

lemma header_at_next: "header_at m elf i + PH_SIZE = header_at m elf (Suc i)"
  by (simp add: header_at_def algebra_simps)

lemma segment_fix_at:
  assumes "i \<le> header_count m elf"
  shows "\<exists>j. i \<le> j \<and> j \<le> header_count m elf
    \<and> segment_fix m \<lparr>seg_ph = header_at m elf i, seg_elf = elf\<rparr> = Some \<lparr>seg_ph = header_at m elf j, seg_elf = elf\<rparr>
    \<and> loadable_from m elf i = loadable_from m elf j
    \<and> (j < header_count m elf \<longrightarrow> is_loadable m (header_at m elf j))"
  using assms
proof (induction "header_count m elf - i" arbitrary: i)
  case 0
  then have "i = header_count m elf" by simp
  then show ?case by (intro exI [of _ i]) (subst segment_fix.simps, simp add: header_at_end)
next
  case (Suc d)
  then have less: "i < header_count m elf" by simp
  show ?case
  proof (cases "is_loadable m (header_at m elf i)")
    case True
    then show ?thesis
      using less by (subst segment_fix.simps) (auto simp: is_loadable_def)
  next
    case False
    with less have "segment_fix m \<lparr>seg_ph = header_at m elf i, seg_elf = elf\<rparr> =
        segment_fix m \<lparr>seg_ph = header_at m elf (Suc i), seg_elf = elf\<rparr>"
      by (subst segment_fix.simps) (simp add: is_loadable_def header_at_eq_end header_at_next)
    moreover have "d = header_count m elf - Suc i" using Suc.hyps(2) by simp
    from Suc.hyps(1) [OF this] less obtain j where "Suc i \<le> j" "j \<le> header_count m elf"
      "segment_fix m \<lparr>seg_ph = header_at m elf (Suc i), seg_elf = elf\<rparr> = Some \<lparr>seg_ph = header_at m elf j, seg_elf = elf\<rparr>"
      "loadable_from m elf (Suc i) = loadable_from m elf j"
      "j < header_count m elf \<longrightarrow> is_loadable m (header_at m elf j)" by auto
    ultimately show ?thesis using less False by (intro exI [of _ j]) (simp add: loadable_from_step)
  qed
qed

lemma segments_from_at:
  assumes "i \<le> header_count m elf" "i < header_count m elf \<longrightarrow> is_loadable m (header_at m elf i)"
  shows "segments_from m \<lparr>seg_ph = header_at m elf i, seg_elf = elf\<rparr> = Some (Inr (loadable_from m elf i))"
  using assms
proof (induction "header_count m elf - i" arbitrary: i rule: less_induct)
  case less
  have e: "image_end m elf = Some \<lparr>seg_ph = elf_header_program m elf True, seg_elf = elf\<rparr>"
    by (simp add: image_end_def segment_new_def segment_fix.simps)
  show ?case
  proof (cases "i = header_count m elf")
    case True
    then show ?thesis
      by (subst segments_from.simps) (simp add: e segment_eq_def header_at_end loadable_from_def)
  next
    case False
    then have lt: "i < header_count m elf" using less.prems(1) by simp
    obtain j where j: "Suc i \<le> j" "j \<le> header_count m elf"
      "segment_fix m \<lparr>seg_ph = header_at m elf (Suc i), seg_elf = elf\<rparr> = Some \<lparr>seg_ph = header_at m elf j, seg_elf = elf\<rparr>"
      "loadable_from m elf (Suc i) = loadable_from m elf j"
      "j < header_count m elf \<longrightarrow> is_loadable m (header_at m elf j)"
      using segment_fix_at [of "Suc i" m elf] lt by auto
    have "segment_next m \<lparr>seg_ph = header_at m elf i, seg_elf = elf\<rparr> = Some (Inr \<lparr>seg_ph = header_at m elf j, seg_elf = elf\<rparr>)"
      using lt j(3) by (simp add: segment_next_def header_at_eq_end header_at_next)
    moreover have "segments_from m \<lparr>seg_ph = header_at m elf j, seg_elf = elf\<rparr> = Some (Inr (loadable_from m elf j))"
      using j lt by (intro less.hyps) simp_all
    ultimately show ?thesis
      using lt less.prems(2) j(4) header_at_eq_end [of i m elf]
      by (subst segments_from.simps) (simp add: e segment_eq_def loadable_from_step)
  qed
qed

section \<open>Properties\<close>

text \<open>
  \<open>C38\<close>: the loop \<open>for (auto seg = pgm.begin(); seg != pgm.end(); ++seg)\<close> ends for every image,
  whatever its header says, fails no assertion, and visits the loadable program headers of the
  image, all of them, once and in order; for the empty image it visits none.
\<close>

theorem segments_complete:
  "\<exists>seg. image_begin m elf = Some seg
    \<and> segments_from m seg = Some (Inr (filter (is_loadable m) (program_headers m elf)))"
proof -
  have start: "image_begin m elf = segment_fix m \<lparr>seg_ph = header_at m elf 0, seg_elf = elf\<rparr>"
    by (simp add: image_begin_def segment_new_def header_at_def)
  obtain j where "j \<le> header_count m elf"
    "image_begin m elf = Some \<lparr>seg_ph = header_at m elf j, seg_elf = elf\<rparr>"
    "loadable_from m elf 0 = loadable_from m elf j"
    "j < header_count m elf \<longrightarrow> is_loadable m (header_at m elf j)"
    using segment_fix_at [of 0 m elf] start by auto
  then show ?thesis using segments_from_at [of j m elf] by (simp add: program_headers_loadable)
qed

end
