(* ===== verification/MemViewer.thy ===== *)
theory MemViewer
  imports Hardware ProgImage
begin

text \<open>
  The memory viewer (\<open>pset3/k-memviewer.cc\<close>): \<open>memusage\<close> marks every physical page with the
  page tables that use it, \<open>symbol_at\<close> chooses the character that stands for a page and
  reports errors in the page tables, and \<open>console_memviewer\<close> draws the maps of physical and
  virtual memory. The kernel's global state, which the viewer reads, is defined here.
\<close>

section \<open>Kernel state\<close>

record memusage =
  mu_v :: addr
  nerrors :: u32
  separate_tables :: bool
  error_sympos :: int

record kernel = machine +
  ptable :: "proc list"
  current :: nat
  ticks :: u64
  mu :: memusage
  last_ticks :: u32
  showing :: nat

section \<open>Definitions\<close>

abbreviation maxpa :: u64 where "maxpa \<equiv> 1024 * PAGESIZE"
abbreviation f_kernel :: u32 where "f_kernel \<equiv> 1"
abbreviation f_user :: u32 where "f_user \<equiv> 2"
abbreviation f_nonidentity :: u32 where "f_nonidentity \<equiv> 4"

definition f_process :: "int \<Rightarrow> u32" where
  "f_process p = (if p \<ge> 29 then push_bit 31 4 else if p \<ge> 1 then push_bit (nat p) 4 else 0)"

definition sympos :: "int \<Rightarrow> int \<Rightarrow> int" where
  "sympos initial_row pn = (initial_row + pn div 64) * 80 + (12 + pn mod 64)"

definition set_error_sympos :: "int \<Rightarrow> memusage \<Rightarrow> memusage" where
  "set_error_sympos pos u = u\<lparr>error_sympos := pos\<rparr>"

definition mark :: "addr \<Rightarrow> u64 \<Rightarrow> u32 \<Rightarrow> mem \<Rightarrow> mem" where
  "mark v pa flags m =
     (if pa < maxpa
      then let a = v + 4 * (pa div PAGESIZE) in store32 m a (load32 m a OR flags) else m)"

definition marked_pid :: "u32 \<Rightarrow> nat" where
  "marked_pid v = lsb (drop_bit 3 v)"

subsection \<open>Marking\<close>

text \<open>The loops of \<open>refresh\<close>. They mark while they walk, so memory changes under the iterators.\<close>

partial_function (option) mark_tables :: "addr \<Rightarrow> u32 \<Rightarrow> ptiter \<Rightarrow> mem \<Rightarrow> mem option" where
  "mark_tables v flags it m =
     (if ptiter_done it then Some m
      else let m = mark v (ptiter_pa m it) flags m
           in Option.bind (ptiter_next m it) (\<lambda>it. mark_tables v flags it m))"

text \<open>
  The loop over the tables of a process compares \<open>it.va()\<close> even when the iterator is done; then
  \<open>va()\<close> shifts by 64, which C++ leaves undefined.
\<close>

partial_function (option) mark_low_tables :: "addr \<Rightarrow> u32 \<Rightarrow> ptiter \<Rightarrow> mem \<Rightarrow> mem result option" where
  "mark_low_tables v flags it m =
     (if ptiter_done it then Some (Inl (Undefined ''shift by 64''))
      else if ptiter_va it < VA_LOWEND
      then let m = mark v (ptiter_pa m it) flags m
           in bind_ro (map_option Inr (ptiter_next m it)) (\<lambda>it. mark_low_tables v flags it m)
      else Some (Inr m))"

partial_function (option) mark_user_pages :: "addr \<Rightarrow> u32 \<Rightarrow> vmiter \<Rightarrow> mem \<Rightarrow> mem result option" where
  "mark_user_pages v pidflag it m =
     (if vm_va it < VA_LOWEND
      then if vmiter_user m it
           then let m = (if vm_va it = vmiter_pa m it
                         then mark v (vmiter_pa m it) (f_user OR pidflag) m
                         else mark v (vmiter_pa m it) (f_user OR f_nonidentity OR pidflag) m)
                in bind_ro (Some (vmiter_next m it)) (\<lambda>it. mark_user_pages v pidflag it m)
           else bind_ro (Some (vmiter_next_range m it)) (\<lambda>it. mark_user_pages v pidflag it m)
      else Some (Inr m))"

text \<open>The process that owns a physical page in the handout's fixed layout.\<close>

definition page_owner :: "u64 \<Rightarrow> u32" where
  "page_owner pa = ucast ((pa - PROC_START_ADDR) div 0x40000)"

partial_function (option) mark_owners :: "addr \<Rightarrow> (nat \<Rightarrow> byte) \<Rightarrow> vmiter \<Rightarrow> mem \<Rightarrow> mem result option" where
  "mark_owners v rc it m =
     (if vm_va it < VA_LOWEND
      then if vmiter_user m it \<and> vmiter_pa m it < MEMSIZE_PHYSICAL
              \<and> physpage_used (rc (unat (vmiter_pa m it div PAGESIZE)))
           then let pa = vmiter_pa m it;
                    m = mark v pa (f_user OR f_process (sint (page_owner pa + 1))) m
                in bind_ro (Some (vmiter_next m it)) (\<lambda>it. mark_owners v rc it m)
           else bind_ro (Some (vmiter_next_range m it)) (\<lambda>it. mark_owners v rc it m)
      else Some (Inr m))"

definition mark_process :: "addr \<Rightarrow> addr \<Rightarrow> int \<Rightarrow> proc \<Rightarrow> mem \<Rightarrow> mem result option" where
  "mark_process v kpt p pr m =
     (let pidflag = f_process p; pt = pagetable pr in
      bind_ro (map_option Inr (ptiter_new m pt)) (\<lambda>it.
      bind_ro (mark_low_tables v (f_kernel OR pidflag) it m) (\<lambda>m.
      let m = mark v pt (f_kernel OR pidflag) m in
      bind_ro (Some (vmiter_new m pt 0)) (\<lambda>it.
      mark_user_pages v pidflag it m))))"

text \<open>The loop over the process table; the result also says whether a process has its own table.\<close>

fun mark_processes :: "addr \<Rightarrow> addr \<Rightarrow> int \<Rightarrow> proc list \<Rightarrow> bool \<Rightarrow> mem \<Rightarrow> (bool \<times> mem) result option" where
  "mark_processes v kpt p [] sep m = Some (Inr (sep, m))"
| "mark_processes v kpt p (pr # prs) sep m =
     (if state pr \<noteq> P_FREE \<and> pagetable pr \<noteq> 0 \<and> pagetable pr \<noteq> kpt
      then bind_ro (mark_process v kpt p pr m) (\<lambda>m. mark_processes v kpt (p + 1) prs True m)
      else mark_processes v kpt (p + 1) prs sep m)"

definition refresh_map :: "addr \<Rightarrow> addr \<Rightarrow> (nat \<Rightarrow> byte) \<Rightarrow> proc list \<Rightarrow> mem \<Rightarrow> (bool \<times> mem) result option" where
  "refresh_map v kpt rc procs m =
     (let m = fst (memset m v 0 0x1000) in
      bind_ro (map_option Inr (ptiter_new m kpt)) (\<lambda>it.
      bind_ro (map_option Inr (mark_tables v f_kernel it m)) (\<lambda>m.
      let m = mark v v f_kernel (mark v kpt f_kernel m) in
      bind_ro (mark_processes v kpt 1 (tl procs) False m) (\<lambda>(sep, m).
      if sep then Some (Inr (sep, m))
      else bind_ro (Some (vmiter_new m kpt 0)) (\<lambda>it.
           bind_ro (mark_owners v rc it m) (\<lambda>m. Some (Inr (sep, m))))))))"

definition refresh_page :: "kenv \<Rightarrow> 's kernel_scheme \<Rightarrow> 's kernel_scheme" where
  "refresh_page env s =
     (if mu_v (mu s) = 0
      then case kalloc (kernel_end (k_syms env)) PAGESIZE (phys s) of (ph, p) \<Rightarrow>
             s\<lparr>phys := ph, mu := (mu s)\<lparr>mu_v := p\<rparr>\<rparr>
      else s)"

definition refresh :: "kenv \<Rightarrow> 's kernel_scheme \<Rightarrow> (unit, 's kernel_scheme) kres" where
  "refresh env s =
     (let s = refresh_page env s
      in bind_k (assert_k (mu_v (mu s) \<noteq> 0) ''v_ != nullptr'' s) (\<lambda>_ s.
         bind_ro (refresh_map (mu_v (mu s)) (kernel_pagetable (k_syms env)) (refcount (phys s)) (ptable s)
                    (memory (phys s))) (\<lambda>(sep, m).
         return_k () (set_mem m (s\<lparr>mu := (mu s)\<lparr>separate_tables := sep\<rparr>\<rparr>)))))"

subsection \<open>Symbols\<close>

definition page_error :: "kenv \<Rightarrow> u64 \<Rightarrow> string \<Rightarrow> int \<Rightarrow> 's kernel_scheme \<Rightarrow> (unit, 's kernel_scheme) kres" where
  "page_error env pa desc p s =
     (let pos = error_sympos (mu s);
          s = (if pos \<ge> 0 \<and> pos < END_CPOS then s\<lparr>screen := (screen s)(pos := 0x2A OR 0xF400)\<rparr> else s);
          fmt = (if p \<ge> 0 then str ''PAGE TABLE ERROR: %lx: %s (pid %d)'' @ [0x0A]
                 else str ''PAGE TABLE ERROR: %lx: %s'' @ [0x0A])
      in bind_k (error_report (k_dev env) fmt [pa, k_lit env desc, word_of_int p] s) (\<lambda>_ s.
         return_k () (if nerrors (mu s) < 0xFFFFFFFF
                      then s\<lparr>mu := (mu s)\<lparr>nerrors := nerrors (mu s) + 1\<rparr>\<rparr> else s)))"

definition page_error_if :: "bool \<Rightarrow> kenv \<Rightarrow> u64 \<Rightarrow> string \<Rightarrow> int \<Rightarrow> 's kernel_scheme \<Rightarrow> (unit, 's kernel_scheme) kres" where
  "page_error_if b env pa desc p s = (if b then page_error env pa desc p s else return_k () s)"

definition colors :: "byte list" where
  "colors = [0xF, 0xC, 0xA, 0x9, 0xE]"

definition names :: "byte list" where
  "names = str ''K123456789ABCDEFGHIJKLMNOPQRST??'' @ [0]"

text \<open>The symbol of a page that processes use; \<open>used\<close> is the page's allocation status.\<close>

definition process_symbol :: "bool \<Rightarrow> u32 \<Rightarrow> nat \<Rightarrow> u16" where
  "process_symbol used v p =
     (let ch = push_bit 8 (ucast (colors ! (p mod 5)));
          ch = (if v AND f_kernel \<noteq> 0 then 0x4000 OR (if ch = 0x0C00 then 0x0F00 else ch) else ch);
          ch = (if \<not> used \<and> v AND f_nonidentity \<noteq> 0 then ch OR 0xF000 else ch)
      in if v > f_process (int p) OR f_kernel OR f_user OR f_nonidentity then 0x53 OR 0x0F00
         else ch OR ucast (names ! p))"

definition symbol_at :: "kenv \<Rightarrow> u64 \<Rightarrow> 's kernel_scheme \<Rightarrow> (u16, 's kernel_scheme) kres" where
  "symbol_at env pa s =
     (let is_reserved = reserved_physical_address pa;
          is_kernel = (\<not> is_reserved \<and> \<not> allocatable_physical_address (kernel_end (k_syms env)) pa);
          pn = unat (ucast (pa div PAGESIZE) :: u32);
          rc = refcount (phys s) pn
      in bind_k (page_error_if (pn < NPAGES \<and> \<not> physpage_valid rc) env pa ''invalid reference count'' (- 1) s) (\<lambda>_ s.
         if pa \<ge> maxpa
         then return_k (if is_kernel then 0x4B OR 0x4000 else if is_reserved then 0x3F OR 0x4000 else 0x3F OR 0xF000) s
         else
         let v = load32 (memory (phys s)) (mu_v (mu s) + 4 * of_nat pn);
             p = marked_pid v;
             sep = separate_tables (mu s)
         in if pa \<ge> 0xB8000 \<and> pa < 0xB8000 + PAGESIZE then return_k (0x43 OR 0x0700) s
            else if is_reserved \<and> p \<noteq> 0
            then bind_k (page_error env pa
                   (if pa = 0 then ''nullptr physical page mapped for user''
                    else ''reserved physical page mapped for user'') (int p) s) (\<lambda>_ s. return_k (0x52 OR 0x0C00) s)
            else if is_reserved then return_k (0x52 OR 0x0700) s
            else if is_kernel \<and> p \<noteq> 0 \<and> sep
            then bind_k (page_error env pa ''kernel data page mapped for user'' (int p) s) (\<lambda>_ s.
                   return_k (0x4B OR 0xCD00) s)
            else if is_kernel then return_k (0x4B OR 0x0D00) s
            else if pa \<ge> MEMSIZE_PHYSICAL then return_k (0x20 OR 0x0700) s
            else let vx = v AND NOT f_nonidentity in
            if vx = 0 then return_k (if physpage_used rc then 0x4C OR 0x0300 else 0x2E OR 0x0700) s
            else if vx = f_kernel then return_k (0x4B OR 0x0D00) s
            else if vx = f_user then return_k (0x2E OR 0x0700) s
            else if v AND f_kernel \<noteq> 0 \<and> v AND f_user \<noteq> 0 \<and> sep
            then bind_k (page_error env pa ''kernel allocated page mapped for user'' (int p) s) (\<lambda>_ s.
                   return_k (0x2A OR 0xF400) s)
            else bind_k (page_error_if (\<not> physpage_used rc \<and> v AND f_nonidentity \<noteq> 0) env pa
                   ''freed page mapped for user'' (int p) s) (\<lambda>_ s.
                 return_k (process_symbol (physpage_used rc) v p) s)))"

subsection \<open>Drawing\<close>

definition put_cell :: "int \<Rightarrow> u16 \<Rightarrow> 's machine_scheme \<Rightarrow> 's machine_scheme" where
  "put_cell pos ch s = s\<lparr>screen := (screen s)(pos := ch)\<rparr>"

definition CS_WHITE :: "byte list" where
  "CS_WHITE = 0x1B # str ''[1m''"

definition CS_NORMAL :: "byte list" where
  "CS_NORMAL = 0x1B # str ''[m''"

definition row_label :: "int \<Rightarrow> int \<Rightarrow> u64 \<Rightarrow> 's machine_scheme \<Rightarrow> (unit, 's machine_scheme) kres" where
  "row_label initial_row pn a s =
     (if pn mod 64 = 0
      then console_printf (sympos initial_row pn - 9) (CS_WHITE @ str ''0x%06X '') [a] s
      else return_k () s)"

definition reverse_colors :: "u16 \<Rightarrow> u16" where
  "reverse_colors ch =
     (if ch = 0x0F00 OR 0x53 then ch XOR 0xFE00
      else let z = (ch AND 0x0F00) XOR drop_bit 4 (ch AND 0xF000) in ch XOR (z OR push_bit 4 z))"

text \<open>The first argument of the loops counts the pages that are left of the map.\<close>

primrec draw_virtual :: "nat \<Rightarrow> kenv \<Rightarrow> vmiter \<Rightarrow> 's kernel_scheme \<Rightarrow> (unit, 's kernel_scheme) kres" where
  "draw_virtual 0 env it s = return_k () s"
| "draw_virtual (Suc n) env it s =
     (let pn = uint (vm_va it div PAGESIZE) in
      bind_k (row_label 11 pn (vm_va it) s) (\<lambda>_ s.
      bind_k
        (if \<not> vmiter_present (memory (phys s)) it then return_k 0x20 s
         else bind_k (symbol_at env (vmiter_pa (memory (phys s)) it) s) (\<lambda>ch s.
                return_k (if vmiter_user (memory (phys s)) it then reverse_colors ch else ch) s)) (\<lambda>ch s.
      let s = put_cell (sympos 11 pn) ch s in
      bind_ro (Some (vmiter_add (memory (phys s)) it PAGESIZE)) (\<lambda>it. draw_virtual n env it s))))"

definition console_memviewer_virtual :: "kenv \<Rightarrow> proc \<Rightarrow> 's kernel_scheme \<Rightarrow> (unit, 's kernel_scheme) kres" where
  "console_memviewer_virtual env vmp s =
     bind_k (assert_k (pagetable vmp \<noteq> 0) ''vmp->pagetable != nullptr'' s) (\<lambda>_ s.
     bind_k (console_printf (10 * 80 + 26) (CS_WHITE @ str ''VIRTUAL ADDRESS SPACE FOR %d'' @ CS_NORMAL @ str ''%s'' @ [0x0A])
       [of_nat (pid vmp), k_lit env (if state vmp = P_FAULTED then '' (faulted)'' else '''')] s) (\<lambda>_ s.
     bind_ro (Some (vmiter_new (memory (phys s)) (pagetable vmp) 0)) (\<lambda>it. draw_virtual 768 env it s)))"

primrec draw_physical :: "nat \<Rightarrow> kenv \<Rightarrow> nat \<Rightarrow> 's kernel_scheme \<Rightarrow> (unit, 's kernel_scheme) kres" where
  "draw_physical 0 env pn s = return_k () s"
| "draw_physical (Suc n) env pn s =
     bind_k (row_label 1 (int pn) (of_nat pn * 0x1000) s) (\<lambda>_ s.
     bind_k (symbol_at env (of_nat pn * PAGESIZE)
               (s\<lparr>mu := set_error_sympos (sympos 1 (int pn)) (mu s)\<rparr>)) (\<lambda>ch s.
     draw_physical n env (Suc pn) (put_cell (sympos 1 (int pn)) ch s)))"

definition console_memviewer :: "kenv \<Rightarrow> proc option \<Rightarrow> 's kernel_scheme \<Rightarrow> (unit, 's kernel_scheme) kres" where
  "console_memviewer env vmp s =
     bind_k (assert_k (state (ptable s ! 0) = P_FREE) ''ptable[0].state == P_FREE'' s) (\<lambda>_ s.
     bind_k (refresh env s) (\<lambda>_ s.
     bind_k (console_printf 32 (CS_WHITE @ str ''PHYSICAL MEMORY'' @ [0x0A]) [] s) (\<lambda>_ s.
     bind_k (draw_physical 512 env 0 s) (\<lambda>_ s.
     let s = s\<lparr>mu := set_error_sympos (- 1) (mu s)\<rparr> in
     case vmp of None \<Rightarrow> return_k () s | Some p \<Rightarrow> console_memviewer_virtual env p s))))"

section \<open>Marking writes to the map only\<close>

definition same_outside :: "addr \<Rightarrow> mem \<Rightarrow> mem \<Rightarrow> bool" where
  "same_outside v m m' \<longleftrightarrow> (\<forall>x. \<not> x - v < 0x1000 \<longrightarrow> m' x = m x)"

lemma same_outside_refl [simp]: "same_outside v m m"
  by (simp add: same_outside_def)

lemma same_outside_trans: "same_outside v m m' \<Longrightarrow> same_outside v m' m'' \<Longrightarrow> same_outside v m m''"
  by (simp add: same_outside_def)

lemma store32_outside:
  assumes "i < 1024" "\<not> x - v < 0x1000"
  shows "store32 m (v + 4 * of_nat i) w x = m x"
proof -
  have "x \<noteq> v + 4 * of_nat i + of_nat k" if "k < 4" for k
  proof
    assume "x = v + 4 * of_nat i + of_nat k"
    then have "x - v = of_nat (4 * i + k)" by simp
    moreover have "unat (of_nat (4 * i + k) :: u64) < 0x1000"
      using assms(1) that by (subst unat_of_nat_small) simp_all
    ultimately show False using assms(2) by (simp add: word_less_nat_alt)
  qed
  from this [of 0] this [of 1] this [of 2] this [of 3] show ?thesis by (simp add: store32_def)
qed

lemma mark_outside [simp]: "same_outside v m (mark v pa flags m)"
proof (cases "pa < maxpa")
  case True
  then have "unat (pa div PAGESIZE) < 1024" by (simp add: word_less_nat_alt unat_div)
  then show ?thesis
    using True store32_outside [of "unat (pa div PAGESIZE)" _ v m]
    by (simp add: same_outside_def mark_def Let_def)
qed (simp add: mark_def)

lemma mark_then: "same_outside v (mark v pa flags m) m' \<Longrightarrow> same_outside v m m'"
  by (rule same_outside_trans [OF mark_outside])

lemma mark_tables_outside:
  assumes "mark_tables v flags it m = Some m'"
  shows "same_outside v m m'"
proof (rule mark_tables.raw_induct [OF _ assms])
  fix loop v flags it m m'
  assume ih: "\<And>v flags it m m'. loop v flags it m = Some m' \<Longrightarrow> same_outside v m m'"
    and r: "(if ptiter_done it then Some m
      else let m = mark v (ptiter_pa m it) flags m
           in Option.bind (ptiter_next m it) (\<lambda>it. loop v flags it m)) = Some m'"
  show "same_outside v m m'"
  proof (cases "ptiter_done it")
    case False
    with r obtain it' where "loop v flags it' (mark v (ptiter_pa m it) flags m) = Some m'"
      by (auto simp: Let_def split: bind_splits)
    then show ?thesis by (intro mark_then [OF ih])
  qed (use r in simp)
qed

text \<open>For the loops with a result: the memory they end with, if they end without an error.\<close>

definition outside_result :: "addr \<Rightarrow> mem \<Rightarrow> mem result option \<Rightarrow> bool" where
  "outside_result v m r \<longleftrightarrow> (\<forall>m'. r = Some (Inr m') \<longrightarrow> same_outside v m m')"

lemma outside_result_bind: "(\<And>a. r = Some (Inr a) \<Longrightarrow> outside_result v m (f a)) \<Longrightarrow> outside_result v m (bind_ro r f)"
  by (cases r) (auto simp: bind_ro_def outside_result_def split: sum.splits)

lemma outside_result_simps [simp]:
  "outside_result v m (Some (Inl e))" "outside_result v m (Some (Inr m)) "
  by (simp_all add: outside_result_def)

lemma outside_result_mark: "outside_result v (mark v pa flags m) r \<Longrightarrow> outside_result v m r"
  by (auto simp: outside_result_def intro: mark_then)

lemma outside_result_loop:
  assumes "\<And>a b c r. loop a b c = Some r \<Longrightarrow> outside_result v c (Some r)"
  shows "outside_result v m (loop a b m)"
  using assms [of a b m] by (cases "loop a b m") (simp_all add: outside_result_def)

lemma mark_low_tables_outside: "outside_result v m (mark_low_tables v flags it m)"
proof (cases "mark_low_tables v flags it m")
  case (Some r)
  have "outside_result v m (Some r)"
  proof (rule mark_low_tables.raw_induct [OF _ Some])
    fix loop v flags it m r
    assume ih: "\<And>v flags it m r. loop v flags it m = Some r \<Longrightarrow> outside_result v m (Some r)"
      and r: "(if ptiter_done it then Some (Inl (Undefined ''shift by 64''))
        else if ptiter_va it < VA_LOWEND
        then let m = mark v (ptiter_pa m it) flags m
             in bind_ro (map_option Inr (ptiter_next m it)) (\<lambda>it. loop v flags it m)
        else Some (Inr m)) = Some r" (is "?body = _")
    have l: "outside_result v m (loop v flags it m)" for v flags it m
      by (rule outside_result_loop [of "loop v", OF ih])
    have "outside_result v m (loop v flags it (mark v pa f m))" for it pa f
      by (rule outside_result_mark [OF l])
    with l have "outside_result v m ?body" by (simp add: Let_def outside_result_bind)
    then show "outside_result v m (Some r)" by (simp only: r)
  qed
  then show ?thesis using Some by simp
qed (simp add: outside_result_def)

lemma mark_user_pages_outside: "outside_result v m (mark_user_pages v pidflag it m)"
proof (cases "mark_user_pages v pidflag it m")
  case (Some r)
  have "outside_result v m (Some r)"
  proof (rule mark_user_pages.raw_induct [OF _ Some])
    fix loop v pidflag it m r
    assume ih: "\<And>v pidflag it m r. loop v pidflag it m = Some r \<Longrightarrow> outside_result v m (Some r)"
      and r: "(if vm_va it < VA_LOWEND
        then if vmiter_user m it
             then let m = (if vm_va it = vmiter_pa m it
                           then mark v (vmiter_pa m it) (f_user OR pidflag) m
                           else mark v (vmiter_pa m it) (f_user OR f_nonidentity OR pidflag) m)
                  in bind_ro (Some (vmiter_next m it)) (\<lambda>it. loop v pidflag it m)
             else bind_ro (Some (vmiter_next_range m it)) (\<lambda>it. loop v pidflag it m)
        else Some (Inr m)) = Some r" (is "?body = _")
    have l: "outside_result v m (loop v pidflag it m)" for v pidflag it m
      by (rule outside_result_loop [of "loop v", OF ih])
    have "outside_result v m (loop v pidflag it (mark v pa f m))" for it pa f
      by (rule outside_result_mark [OF l])
    with l have "outside_result v m ?body" by (simp add: Let_def outside_result_bind)
    then show "outside_result v m (Some r)" by (simp only: r)
  qed
  then show ?thesis using Some by simp
qed (simp add: outside_result_def)

lemma mark_owners_outside: "outside_result v m (mark_owners v rc it m)"
proof (cases "mark_owners v rc it m")
  case (Some r)
  have "outside_result v m (Some r)"
  proof (rule mark_owners.raw_induct [OF _ Some])
    fix loop v rc it m r
    assume ih: "\<And>v rc it m r. loop v rc it m = Some r \<Longrightarrow> outside_result v m (Some r)"
      and r: "(if vm_va it < VA_LOWEND
        then if vmiter_user m it \<and> vmiter_pa m it < MEMSIZE_PHYSICAL
                \<and> physpage_used (rc (unat (vmiter_pa m it div PAGESIZE)))
             then let pa = vmiter_pa m it;
                      m = mark v pa (f_user OR f_process (sint (page_owner pa + 1))) m
                  in bind_ro (Some (vmiter_next m it)) (\<lambda>it. loop v rc it m)
             else bind_ro (Some (vmiter_next_range m it)) (\<lambda>it. loop v rc it m)
        else Some (Inr m)) = Some r" (is "?body = _")
    have l: "outside_result v m (loop v rc it m)" for v rc it m
      by (rule outside_result_loop [of "loop v", OF ih])
    have "outside_result v m (loop v rc it (mark v pa f m))" for it pa f
      by (rule outside_result_mark [OF l])
    with l have "outside_result v m ?body" by (simp add: Let_def outside_result_bind)
    then show "outside_result v m (Some r)" by (simp only: r)
  qed
  then show ?thesis using Some by simp
qed (simp add: outside_result_def)

lemma bind_ro_Some_Inr:
  "bind_ro r f = Some (Inr b) \<longleftrightarrow> (\<exists>a. r = Some (Inr a) \<and> f a = Some (Inr b))"
  by (cases r) (auto simp: bind_ro_def split: sum.splits)

lemma outside_resultD: "outside_result v m r \<Longrightarrow> r = Some (Inr m') \<Longrightarrow> same_outside v m m'"
  by (simp add: outside_result_def)

lemma mark_process_outside:
  assumes "mark_process v kpt p pr m = Some (Inr m')"
  shows "same_outside v m m'"
  using assms outside_resultD [OF mark_low_tables_outside] outside_resultD [OF mark_user_pages_outside]
  by (auto simp: mark_process_def Let_def bind_ro_Some_Inr) (metis mark_then same_outside_trans)

lemma mark_processes_outside:
  "mark_processes v kpt p prs sep m = Some (Inr (sep', m')) \<Longrightarrow> same_outside v m m'"
proof (induction v kpt p prs sep m rule: mark_processes.induct)
  case (2 v kpt p pr prs sep m)
  then show ?case
    using mark_process_outside same_outside_trans by (fastforce simp: bind_ro_Some_Inr split: if_splits)
qed simp

lemma memset_outside: "same_outside v m (fst (memset m v c 0x1000))"
  by (simp add: same_outside_def memset_apply)

lemma refresh_map_outside:
  assumes "refresh_map v kpt rc procs m = Some (Inr (sep, m'))"
  shows "same_outside v m m'"
proof -
  from assms obtain it m1 sep1 m2 where
    1: "mark_tables v f_kernel it (fst (memset m v 0 0x1000)) = Some m1" and
    2: "mark_processes v kpt 1 (tl procs) False (mark v v f_kernel (mark v kpt f_kernel m1)) = Some (Inr (sep1, m2))" and
    3: "m' = m2 \<or> (\<exists>it. mark_owners v rc it m2 = Some (Inr m'))"
    by (auto simp: refresh_map_def Let_def bind_ro_Some_Inr split: if_splits) blast+
  have "same_outside v m m1" using memset_outside mark_tables_outside [OF 1] same_outside_trans by blast
  moreover have "same_outside v m1 m2" using mark_processes_outside [OF 2] mark_then by blast
  moreover have "same_outside v m2 m'" using 3 outside_resultD [OF mark_owners_outside] by auto
  ultimately show ?thesis using same_outside_trans by blast
qed

section \<open>Drawing changes the screen only\<close>

definition on_screen :: "'s machine_scheme \<Rightarrow> bool" where
  "on_screen s \<longleftrightarrow> 0 \<le> cursorpos s \<and> cursorpos s \<le> END_CPOS"

text \<open>What drawing may change of the kernel state: cells of the screen, the cursor, the log port
  and the error state of the viewer.\<close>

definition drawn :: "'s kernel_scheme \<Rightarrow> 's kernel_scheme \<Rightarrow> bool" where
  "drawn s s' \<longleftrightarrow>
     on_screen s' \<and> (\<forall>i. \<not> (0 \<le> i \<and> i < END_CPOS) \<longrightarrow> screen s' i = screen s i)
     \<and> phys s' = phys s \<and> keyboard s' = keyboard s \<and> panicking s' = panicking s
     \<and> ptable s' = ptable s \<and> current s' = current s \<and> ticks s' = ticks s
     \<and> last_ticks s' = last_ticks s \<and> showing s' = showing s \<and> mu_v (mu s') = mu_v (mu s)"

lemma drawn_refl: "on_screen s \<Longrightarrow> drawn s s"
  by (simp add: drawn_def)

lemma drawn_trans: "drawn s s' \<Longrightarrow> drawn s' s'' \<Longrightarrow> drawn s s''"
  by (simp add: drawn_def)

lemma drawn_on_screen: "drawn s s' \<Longrightarrow> on_screen s'"
  by (simp add: drawn_def)

lemma console_printf_drawn:
  assumes "on_screen s"
  shows "ends_in (drawn s) (console_printf cpos fmt args s)"
  unfolding console_printf_def
proof (rule ends_in_bind_ro)
  fix a assume a: "console_vprintf (memory (phys s)) (screen s) (cursorpos s) cpos fmt args = Some (Inr a)"
  then obtain calls where calls: "vprintf_calls (memory (phys s)) fmt args = Some calls"
    by (auto simp: console_vprintf_def vprintf_def)
  obtain cp pos where "a = (cp, pos)" "0 \<le> pos" "pos \<le> END_CPOS" "0 \<le> cp_cursorpos cp" "cp_cursorpos cp \<le> END_CPOS"
    "\<forall>i. \<not> (0 \<le> i \<and> i < END_CPOS) \<longrightarrow> cp_console cp i = screen s i"
    using console_vprintf_ends [OF calls, of "cursorpos s" "screen s" cpos] assms a by (auto simp: on_screen_def)
  then show "ends_in (drawn s) (case a of (cp, _) \<Rightarrow>
      return_k () (s\<lparr>screen := cp_console cp, cursorpos := cp_cursorpos cp\<rparr>))"
    by (simp add: drawn_def on_screen_def)
qed

lemma error_report_drawn:
  assumes "on_screen s"
  shows "ends_in (drawn s) (error_report dev fmt args s)"
  unfolding error_report_def
proof (rule ends_in_bind_ro)
  fix ep assume a: "error_vprintf dev (memory (phys s)) (screen s) (cursorpos s) (kport s) fmt args = Some (Inr ep)"
  then obtain calls where calls: "vprintf_calls (memory (phys s)) fmt args = Some calls"
    by (auto simp: error_vprintf_def error_printf_def vprintf_def)
  have "(\<forall>i. \<not> (0 \<le> i \<and> i < END_CPOS) \<longrightarrow> cp_console (ep_con ep) i = screen s i)
      \<and> 0 \<le> cp_cursorpos (ep_con ep) \<and> cp_cursorpos (ep_con ep) \<le> END_CPOS"
    using error_vprintf_ends [OF calls, of "cursorpos s" dev "screen s" "kport s"] assms a by (auto simp: on_screen_def)
  then show "ends_in (drawn s) (return_k () (error_store ep s))"
    by (simp add: drawn_def on_screen_def error_store_def)
qed

lemma page_error_drawn:
  assumes "on_screen s"
  shows "ends_in (drawn s) (page_error env pa desc p s)"
proof -
  let ?s = "if error_sympos (mu s) \<ge> 0 \<and> error_sympos (mu s) < END_CPOS
    then s\<lparr>screen := (screen s)(error_sympos (mu s) := 0x2A OR 0xF400)\<rparr> else s"
  have s: "drawn s ?s" using assms by (auto simp: drawn_def on_screen_def)
  have "ends_in (drawn ?s) (error_report dev fmt args ?s)" for dev fmt args
    using error_report_drawn [OF drawn_on_screen [OF s]] .
  then have "ends_in (drawn s) (error_report dev fmt args ?s)" for dev fmt args
    by (rule ends_in_weaken) (rule drawn_trans [OF s])
  then show ?thesis
    unfolding page_error_def Let_def
    by (rule ends_in_bind_same) (simp add: drawn_def on_screen_def)
qed

lemma page_error_if_drawn: "on_screen s \<Longrightarrow> ends_in (drawn s) (page_error_if b env pa desc p s)"
  by (simp add: page_error_if_def page_error_drawn drawn_refl)

text \<open>Sequencing steps that only draw.\<close>

lemma ends_in_drawn_bind:
  assumes "ends_in (drawn s) r" "\<And>a s'. drawn s s' \<Longrightarrow> ends_in (drawn s') (f a s')"
  shows "ends_in (drawn s) (bind_k r f)"
  using assms(1)
proof (rule ends_in_bind_same)
  fix a s' assume s': "drawn s s'"
  show "ends_in (drawn s) (f a s')"
    using assms(2) [OF s'] by (rule ends_in_weaken) (rule drawn_trans [OF s'])
qed

lemma ends_in_if: "ends_in P r \<Longrightarrow> ends_in P r' \<Longrightarrow> ends_in P (if b then r else r')"
  by simp

lemma drawn_return: "on_screen s \<Longrightarrow> ends_in (drawn s) (return_k a s)"
  by (simp add: drawn_refl)

lemma symbol_at_drawn: "on_screen s \<Longrightarrow> ends_in (drawn s) (symbol_at env pa s)"
  unfolding symbol_at_def Let_def
  by (intro ends_in_drawn_bind [OF page_error_if_drawn] ends_in_if drawn_return
      ends_in_drawn_bind [OF page_error_drawn]; (erule drawn_on_screen | assumption))

lemma put_cell_drawn: "on_screen s \<Longrightarrow> 0 \<le> pos \<Longrightarrow> pos < END_CPOS \<Longrightarrow> drawn s (put_cell pos ch s)"
  by (simp add: drawn_def put_cell_def on_screen_def)

lemma row_label_drawn: "on_screen s \<Longrightarrow> ends_in (drawn s) (row_label r pn a s)"
  by (simp add: row_label_def console_printf_drawn drawn_refl)

lemma draw_physical_drawn:
  "on_screen s \<Longrightarrow> pn + n \<le> 512 \<Longrightarrow> ends_in (drawn s) (draw_physical n env pn s)"
proof (induction n arbitrary: pn s)
  case 0
  then show ?case by (simp add: drawn_refl)
next
  case (Suc n)
  have "int pn div 64 < 8" using Suc.prems(2) by linarith
  then have pos: "0 \<le> sympos 1 (int pn)" "sympos 1 (int pn) < END_CPOS"
    using pos_mod_bound [of 64 "int pn"] pos_mod_sign [of 64 "int pn"] by (auto simp: sympos_def)
  show ?case
    unfolding draw_physical.simps
  proof (intro ends_in_drawn_bind row_label_drawn Suc.prems(1))
    fix a :: unit and s' assume "drawn s s'"
    let ?s = "s'\<lparr>mu := set_error_sympos (sympos 1 (int pn)) (mu s')\<rparr>"
    have s: "drawn s' ?s" using \<open>drawn s s'\<close> by (simp add: drawn_def set_error_sympos_def on_screen_def)
    show "ends_in (drawn s') (symbol_at env (word_of_nat pn * PAGESIZE) ?s)"
      using symbol_at_drawn [OF drawn_on_screen [OF s]] by (rule ends_in_weaken) (rule drawn_trans [OF s])
    fix ch s'' assume s'': "drawn s' s''"
    let ?s2 = "put_cell (sympos 1 (int pn)) ch s''"
    have s2: "drawn s'' ?s2" using drawn_on_screen [OF s''] pos by (rule put_cell_drawn)
    have "ends_in (drawn ?s2) (draw_physical n env (Suc pn) ?s2)"
      using drawn_on_screen [OF s2] Suc.prems(2) by (intro Suc.IH) simp_all
    then show "ends_in (drawn s'') (draw_physical n env (Suc pn) ?s2)"
      by (rule ends_in_weaken) (rule drawn_trans [OF s2])
  qed
qed

lemma vmiter_add_va: "vmiter_add m it d = Inr it' \<Longrightarrow> vm_va it' = vm_va it + d"
  by (auto simp: vmiter_add_def dest: vmiter_find_va)

lemma draw_virtual_drawn:
  "on_screen s \<Longrightarrow> unat (vm_va it) = 4096 * pn \<Longrightarrow> pn + n \<le> 768 \<Longrightarrow> ends_in (drawn s) (draw_virtual n env it s)"
proof (induction n arbitrary: it pn s)
  case 0
  then show ?case by (simp add: drawn_refl)
next
  case (Suc n)
  have pn: "uint (vm_va it div PAGESIZE) = int pn"
    using Suc.prems(2) by (simp add: uint_nat unat_div)
  have "int pn div 64 < 12" using Suc.prems(3) by linarith
  then have pos: "0 \<le> sympos 11 (int pn)" "sympos 11 (int pn) < END_CPOS"
    using pos_mod_bound [of 64 "int pn"] pos_mod_sign [of 64 "int pn"] by (auto simp: sympos_def)
  show ?case
    unfolding draw_virtual.simps Let_def pn
  proof (intro ends_in_drawn_bind row_label_drawn Suc.prems(1), goal_cases)
    case (1 a s')
    then show ?case
      by (auto intro!: ends_in_drawn_bind symbol_at_drawn drawn_refl dest: drawn_on_screen)
  next
    case (2 a s' ch s'')
    let ?s = "put_cell (sympos 11 (int pn)) ch s''"
    have s: "drawn s'' ?s" using drawn_on_screen [OF 2(2)] pos by (rule put_cell_drawn)
    show ?case
    proof (rule ends_in_bind_ro)
      fix it' assume "Some (vmiter_add (memory (phys ?s)) it PAGESIZE) = Some (Inr it')"
      then have "vm_va it' = vm_va it + PAGESIZE" using vmiter_add_va by blast
      moreover have "unat (vm_va it + PAGESIZE) = 4096 * Suc pn"
        using Suc.prems(2,3) by (subst unat_add_lem [THEN iffD1]) simp_all
      ultimately have "ends_in (drawn ?s) (draw_virtual n env it' ?s)"
        using drawn_on_screen [OF s] Suc.prems(3) by (intro Suc.IH [where pn = "Suc pn"]) simp_all
      then show "ends_in (drawn s'') (draw_virtual n env it' ?s)"
        by (rule ends_in_weaken) (rule drawn_trans [OF s])
    qed
  qed
qed

section \<open>What the viewer changes\<close>

text \<open>Memory changes in the page of the map only; the page is allocated at the first use.\<close>

definition viewer_memory :: "addr \<Rightarrow> 's kernel_scheme \<Rightarrow> 's kernel_scheme \<Rightarrow> bool" where
  "viewer_memory kend s s' \<longleftrightarrow>
     (\<forall>x. \<not> x - mu_v (mu s') < PAGESIZE \<longrightarrow> memory (phys s') x = memory (phys s) x)
     \<and> (if mu_v (mu s) \<noteq> 0 then mu_v (mu s') = mu_v (mu s) \<and> refcount (phys s') = refcount (phys s)
        else page_available kend (phys s) (mu_v (mu s'))
             \<and> refcount (phys s') = (refcount (phys s))(unat (mu_v (mu s')) div 4096 := 1))"

definition viewer_frame :: "addr \<Rightarrow> 's kernel_scheme \<Rightarrow> 's kernel_scheme \<Rightarrow> bool" where
  "viewer_frame kend s s' \<longleftrightarrow>
     on_screen s' \<and> (\<forall>i. \<not> (0 \<le> i \<and> i < END_CPOS) \<longrightarrow> screen s' i = screen s i)
     \<and> keyboard s' = keyboard s \<and> panicking s' = panicking s
     \<and> ptable s' = ptable s \<and> current s' = current s \<and> ticks s' = ticks s
     \<and> last_ticks s' = last_ticks s \<and> showing s' = showing s \<and> viewer_memory kend s s'"

lemma viewer_frame_drawn: "viewer_frame kend s s' \<Longrightarrow> drawn s' s'' \<Longrightarrow> viewer_frame kend s s''"
  by (simp add: viewer_frame_def drawn_def viewer_memory_def)

lemma viewer_frame_bind:
  assumes "ends_in (viewer_frame kend s) r" "\<And>a s'. on_screen s' \<Longrightarrow> ends_in (drawn s') (f a s')"
  shows "ends_in (viewer_frame kend s) (bind_k r f)"
  using assms(1)
proof (rule ends_in_bind_same)
  fix a s' assume s': "viewer_frame kend s s'"
  then have "on_screen s'" by (simp add: viewer_frame_def)
  then show "ends_in (viewer_frame kend s) (f a s')"
    by (rule ends_in_weaken [OF assms(2)]) (rule viewer_frame_drawn [OF s'])
qed

lemma kalloc_viewer:
  assumes "kalloc kend PAGESIZE ph = (ph', p)" "p \<noteq> 0"
  shows "page_available kend ph p" "refcount ph' = (refcount ph)(unat p div 4096 := 1)"
    "\<not> x - p < PAGESIZE \<Longrightarrow> memory ph' x = memory ph x"
proof -
  show "page_available kend ph p" using assms by (rule kalloc_page.alloc_avail)
  from assms obtain n where n: "n < NPAGES" "free_page kend ph n" "ph' = take_page n ph" "p = of_nat n * PAGESIZE"
    by (rule kalloc_cases)
  have "unat p div 4096 = n" using unat_page_addr [OF n(1)] by (simp only: n(4))
  then show "refcount ph' = (refcount ph)(unat p div 4096 := 1)"
    using n(2,3) by (simp add: take_page_def free_page_def)
  show "\<not> x - p < PAGESIZE \<Longrightarrow> memory ph' x = memory ph x"
    using kalloc_page.alloc_frame [OF assms, of x] page_aligned_offset [OF kalloc_page.alloc_page [OF assms], of x]
    by simp
qed

lemma refresh_page_frame:
  assumes "on_screen s" "mu_v (mu (refresh_page env s)) \<noteq> 0"
  shows "viewer_frame (kernel_end (k_syms env)) s (refresh_page env s)"
proof (cases "mu_v (mu s) = 0")
  case True
  obtain ph p where k: "kalloc (kernel_end (k_syms env)) PAGESIZE (phys s) = (ph, p)" by (rule prod.exhaust)
  with True assms(2) have "p \<noteq> 0" by (simp add: refresh_page_def)
  from kalloc_viewer [OF k this] show ?thesis
    using True k assms(1) by (simp add: refresh_page_def viewer_frame_def viewer_memory_def on_screen_def)
next
  case False
  then show ?thesis using assms(1) by (simp add: refresh_page_def viewer_frame_def viewer_memory_def)
qed

lemma viewer_frame_mark:
  assumes "viewer_frame kend s s'" "same_outside (mu_v (mu s')) (memory (phys s')) m"
  shows "viewer_frame kend s (set_mem m (s'\<lparr>mu := (mu s')\<lparr>separate_tables := sep\<rparr>\<rparr>))"
  using assms by (simp add: viewer_frame_def viewer_memory_def same_outside_def set_mem_def on_screen_def)

lemma refresh_frame:
  assumes "on_screen s"
  shows "ends_in (viewer_frame (kernel_end (k_syms env)) s) (refresh env s)"
proof (cases "mu_v (mu (refresh_page env s)) = 0")
  case False
  then show ?thesis
    unfolding refresh_def Let_def assert_k_def
    by (auto intro!: ends_in_bind_ro viewer_frame_mark refresh_page_frame assms dest!: refresh_map_outside)
qed (simp add: refresh_def assert_k_def)

lemma console_memviewer_virtual_drawn:
  assumes "on_screen s"
  shows "ends_in (drawn s) (console_memviewer_virtual env vmp s)"
  unfolding console_memviewer_virtual_def assert_k_def
proof (intro ends_in_drawn_bind)
  show "ends_in (drawn s) (if pagetable vmp \<noteq> 0 then return_k () s
      else Some (Inl (AssertFail ''vmp->pagetable != nullptr'')))"
    using assms by (simp add: drawn_refl)
next
  fix a :: unit and s' fix fmt args assume "drawn s s'"
  then show "ends_in (drawn s') (console_printf (10 * 80 + 26) fmt args s')"
    by (intro console_printf_drawn drawn_on_screen)
next
  fix a :: unit and s' b s'' assume "drawn s s'" "drawn s' s''"
  show "ends_in (drawn s'')
      (bind_ro (Some (vmiter_new (memory (phys s'')) (pagetable vmp) 0)) (\<lambda>it. draw_virtual 768 env it s''))"
  proof (rule ends_in_bind_ro)
    fix it assume "Some (vmiter_new (memory (phys s'')) (pagetable vmp) 0) = Some (Inr it)"
    then have "vm_va it = 0" using vmiter_new_va by blast
    then show "ends_in (drawn s'') (draw_virtual 768 env it s'')"
      using drawn_on_screen [OF \<open>drawn s' s''\<close>] by (intro draw_virtual_drawn [where pn = 0]) simp_all
  qed
qed

lemma console_memviewer_frame:
  fixes s :: "'a kernel_scheme"
  assumes "on_screen s"
  shows "ends_in (viewer_frame (kernel_end (k_syms env)) s) (console_memviewer env vmp s)"
proof -
  let ?F = "viewer_frame (kernel_end (k_syms env))"
  have rest: "ends_in (drawn s') (bind_k (draw_physical 512 env 0 s') (\<lambda>_ s.
      let s = s\<lparr>mu := set_error_sympos (- 1) (mu s)\<rparr> in
      case vmp of None \<Rightarrow> return_k () s | Some p \<Rightarrow> console_memviewer_virtual env p s))" if "on_screen s'" for s'
  proof (rule ends_in_drawn_bind [OF draw_physical_drawn])
    fix a :: unit and s'' assume "drawn s' s''"
    let ?s = "s''\<lparr>mu := set_error_sympos (- 1) (mu s'')\<rparr>"
    have s: "drawn s'' ?s" using drawn_on_screen [OF \<open>drawn s' s''\<close>] by (simp add: drawn_def set_error_sympos_def on_screen_def)
    have "ends_in (drawn ?s) (case vmp of None \<Rightarrow> return_k () ?s | Some p \<Rightarrow> console_memviewer_virtual env p ?s)"
      using drawn_on_screen [OF s]
      by (auto intro: drawn_refl console_memviewer_virtual_drawn split: option.split)
    then show "ends_in (drawn s'') (let s = ?s in
        case vmp of None \<Rightarrow> return_k () s | Some p \<Rightarrow> console_memviewer_virtual env p s)"
      unfolding Let_def by (rule ends_in_weaken) (rule drawn_trans [OF s])
  qed (use that in simp_all)
  have "ends_in (?F s) (bind_k (refresh env s) (\<lambda>_ s.
     bind_k (console_printf 32 (CS_WHITE @ str ''PHYSICAL MEMORY'' @ [0x0A]) [] s) (\<lambda>_ s.
     bind_k (draw_physical 512 env 0 s) (\<lambda>_ s.
     let s = s\<lparr>mu := set_error_sympos (- 1) (mu s)\<rparr> in
     case vmp of None \<Rightarrow> return_k () s | Some p \<Rightarrow> console_memviewer_virtual env p s))))"
  proof (rule viewer_frame_bind [OF refresh_frame [OF assms]])
    fix a :: unit and s' :: "'a kernel_scheme" assume "on_screen s'"
    then show "ends_in (drawn s') (bind_k (console_printf 32 (CS_WHITE @ str ''PHYSICAL MEMORY'' @ [0x0A]) [] s') (\<lambda>_ s.
       bind_k (draw_physical 512 env 0 s) (\<lambda>_ s.
       let s = s\<lparr>mu := set_error_sympos (- 1) (mu s)\<rparr> in
       case vmp of None \<Rightarrow> return_k () s | Some p \<Rightarrow> console_memviewer_virtual env p s)))"
      by (rule ends_in_drawn_bind [OF console_printf_drawn]) (rule rest, erule drawn_on_screen)
  qed
  then show ?thesis by (simp add: console_memviewer_def assert_k_def)
qed

end
