(* ===== verification/Messages.thy ===== *)
theory Messages
  imports Printf
begin

text \<open>
  The messages of the kernel and of the user library: which of them are printed completely, and
  the text of those whose only conversions are \<open>%s\<close> and \<open>%d\<close>.
\<close>

section \<open>Messages are printed completely\<close>

definition printable :: "mem \<Rightarrow> byte list \<Rightarrow> args \<Rightarrow> bool" where
  "printable m fmt args \<longleftrightarrow> vprintf_calls m fmt args \<noteq> None"

lemma printable_Nil [simp]: "printable m [] args"
  by (simp add: printable_def)

lemma printable_char [simp]: "c \<noteq> 0x25 \<Longrightarrow> printable m (c # cs) args \<longleftrightarrow> printable m cs args"
  by (simp add: printable_def)

lemma printable_conversion:
  assumes "\<exists>calls. vprintf_conversion m cs args = Some (calls, cs', args')"
  shows "printable m (0x25 # cs) args \<longleftrightarrow> printable m cs' args'"
  using assms by (auto simp: printable_def)

lemma emit_number: "\<exists>calls. emit_conversion m flags width precision (ConvNum base num) = Some calls"
  by (simp add: emit_conversion_def conversion_data_def Let_def split: prod.split)

lemma emit_text:
  "strlen m a \<noteq> None \<Longrightarrow> \<exists>calls. emit_conversion m flags width precision (ConvString a) = Some calls"
  by (auto simp: emit_conversion_def conversion_data_def)

lemma parse_flags_none:
  "parse_flags 0 (0x64 # cs) = (0, 0x64 # cs)" "parse_flags 0 (0x73 # cs) = (0, 0x73 # cs)"
  "parse_flags 0 (0x6C # cs) = (0, 0x6C # cs)" "parse_flags 0 (0x30 # 0x36 # cs) = (push_bit 1 1, 0x36 # cs)"
  by (simp_all add: flag_chars_def Let_def)

lemma no_width:
  "peek fmt < 0x31 \<or> 0x39 < peek fmt \<Longrightarrow> peek fmt \<noteq> 0x2A \<Longrightarrow> parse_width fmt args = Some (- 1, fmt, args)"
  by (auto simp: parse_width_def not_le)

lemma no_precision: "peek fmt \<noteq> 0x2E \<Longrightarrow> parse_precision fmt args = Some (- 1, fmt, args)"
  by (simp add: parse_precision_def)

lemma peek_Cons: "peek (c # cs) = c" by (simp add: peek_def)

lemma parse_lengths:
  "parse_length (0x64 # cs) = (False, 0x64 # cs)" "parse_length (0x73 # cs) = (False, 0x73 # cs)"
  "parse_length (0x58 # cs) = (False, 0x58 # cs)" "parse_length (0x6C # cs) = (True, cs)"
  by (simp_all add: parse_length_def peek_Cons)

lemma number_width: "parse_width (0x36 # 0x58 # cs) args = Some (6, 0x58 # cs, args)"
  by (simp add: parse_width_def peek_Cons decimal_char_def Let_def)

lemma number_conversions:
  "\<exists>fl' n. parse_conversion 0x64 l fl (a # args) = Some ((fl', ConvNum 10 n), args)"
  "\<exists>fl' n. parse_conversion 0x78 l fl (a # args) = Some ((fl', ConvNum (- 16) n), args)"
  "\<exists>fl' n. parse_conversion 0x58 l fl (a # args) = Some ((fl', ConvNum 16 n), args)"
  "parse_conversion 0x73 l fl (a # args) = Some ((fl, ConvString a), args)"
  by (simp_all add: parse_conversion_def convert_signed_def convert_unsigned_def Let_def)

lemma conversion_d: "\<exists>calls. vprintf_conversion m (0x64 # cs) (a # args) = Some (calls, cs, args)"
  using number_conversions(1) [of False 0 a args] emit_number
  by (auto simp: vprintf_conversion_def parse_flags_none no_width no_precision parse_lengths peek_Cons simp del: parse_flags.simps)

lemma conversion_s: "strlen m a \<noteq> None \<Longrightarrow> \<exists>calls. vprintf_conversion m (0x73 # cs) (a # args) = Some (calls, cs, args)"
  using emit_text
  by (auto simp: vprintf_conversion_def parse_flags_none no_width no_precision parse_lengths peek_Cons number_conversions simp del: parse_flags.simps)

lemma conversion_lx: "\<exists>calls. vprintf_conversion m (0x6C # 0x78 # cs) (a # args) = Some (calls, cs, args)"
  using number_conversions(2) [of True 0 a args] emit_number
  by (auto simp: vprintf_conversion_def parse_flags_none no_width no_precision parse_lengths peek_Cons simp del: parse_flags.simps)

lemma conversion_06X: "\<exists>calls. vprintf_conversion m (0x30 # 0x36 # 0x58 # cs) (a # args) = Some (calls, cs, args)"
  using number_conversions(3) [of False "push_bit 1 1" a args] emit_number
  by (auto simp: vprintf_conversion_def parse_flags_none number_width no_precision parse_lengths peek_Cons simp del: parse_flags.simps)

text \<open>The conversions the kernel uses: \<open>%d\<close>, \<open>%s\<close>, \<open>%lx\<close> and \<open>%06X\<close>.\<close>

lemma printable_d [simp]: "printable m (0x25 # 0x64 # cs) (a # args) \<longleftrightarrow> printable m cs args"
  by (rule printable_conversion) (rule conversion_d)

lemma printable_s [simp]:
  "strlen m a \<noteq> None \<Longrightarrow> printable m (0x25 # 0x73 # cs) (a # args) \<longleftrightarrow> printable m cs args"
  by (rule printable_conversion) (rule conversion_s)

lemma printable_lx [simp]: "printable m (0x25 # 0x6C # 0x78 # cs) (a # args) \<longleftrightarrow> printable m cs args"
  by (rule printable_conversion) (rule conversion_lx)

lemma printable_06X [simp]: "printable m (0x25 # 0x30 # 0x36 # 0x58 # cs) (a # args) \<longleftrightarrow> printable m cs args"
  by (rule printable_conversion) (rule conversion_06X)

lemma printable_plain: "0x25 \<notin> set fmt \<Longrightarrow> printable m fmt args"
  by (simp add: printable_def vprintf_calls_plain)
section \<open>Their text\<close>

definition prints :: "mem \<Rightarrow> byte list \<Rightarrow> args \<Rightarrow> byte list \<Rightarrow> bool" where
  "prints m fmt args out \<longleftrightarrow> vprintf_calls m fmt args = Some (map Putc out)"

lemma prints_printable: "prints m fmt args out \<Longrightarrow> printable m fmt args"
  by (simp add: prints_def printable_def)

lemma prints_Nil: "prints m [] args []"
  by (simp add: prints_def)

lemma prints_char: "c \<noteq> 0x25 \<Longrightarrow> prints m cs args out \<Longrightarrow> prints m (c # cs) args (c # out)"
  by (simp add: prints_def)

lemma prints_conversion:
  assumes "vprintf_conversion m cs args = Some (map Putc text, cs', args')" "prints m cs' args' out"
  shows "prints m (0x25 # cs) args (text @ out)"
  using assms by (simp add: prints_def)

text \<open>A conversion without flags, width and precision prints its prefix and data.\<close>

lemma emit_plain:
  assumes "\<not> flag_set flags FLAG_ZERO" "length data < 2 ^ 29" "length prefix < 2 ^ 29"
  shows "emit_field flags (- 1) (- 1) prefix data (int (length data)) = prefix @ data"
  using emit_field_layout [of "- 1" "- 1" data prefix flags] assms
  by (simp add: conversion_zeros_def field_layout_def)

lemma conversion_string:
  assumes "cstr m a xs" "length xs < 2 ^ 29"
  shows "vprintf_conversion m (0x73 # cs) (a # args) = Some (map Putc xs, cs, args)"
proof -
  have "uint (of_nat (length xs) :: u64) = int (length xs)"
    using cstr_unat_length [OF assms(1)] by (metis uint_nat)
  moreover have "to_int (int (length xs)) = int (length xs)" using assms(2) by (intro to_int_id) simp_all
  ultimately have "conversion_data m 0 (- 1) (ConvString a) = Some (xs, int (length xs))"
    using assms(1) by (simp add: conversion_data_def strlen_cstr cstr_bytes)
  then have "emit_conversion m 0 (- 1) (- 1) (ConvString a) = Some (map Putc xs)"
    using emit_plain [of 0 xs "[]"] assms(2) by (simp add: emit_conversion_def)
  then show ?thesis
    by (simp add: vprintf_conversion_def parse_flags_none no_width no_precision parse_lengths peek_Cons
        number_conversions del: parse_flags.simps)
qed

definition decimal :: "int \<Rightarrow> byte list" where
  "decimal x = (if x < 0 then [0x2D] else []) @ number_text 0 10 (word_of_int \<bar>x\<bar>)"

lemma conversion_decimal:
  assumes "- (2 ^ 31) \<le> x" "x < 2 ^ 31"
  shows "vprintf_conversion m (0x64 # cs) (word_of_int x # args) = Some (map Putc (decimal x), cs, args)"
proof -
  let ?f = "FLAG_NUMERIC OR FLAG_SIGNED OR (if x < 0 then FLAG_NEGATIVE else 0) :: u32"
  let ?n = "word_of_int \<bar>x\<bar> :: u64"
  have "sint (word_of_int x :: u32) = x"
    using assms by (simp add: sint_sbintrunc' signed_take_bit_int_eq_self)
  moreover have "ucast (word_of_int x :: u64) = (word_of_int x :: u32)"
    by (rule bit_word_eqI) (simp add: bit_simps)
  ultimately have "scast (ucast (word_of_int x :: u64) :: u32) = (word_of_int x :: u64)"
    by (simp only: scast_eq)
  moreover have "sint (word_of_int x :: u64) = x"
    using assms by (simp add: sint_sbintrunc' signed_take_bit_int_eq_self)
  ultimately have conv: "parse_conversion 0x64 False 0 (word_of_int x # args) = Some ((?f, ConvNum 10 ?n), args)"
    by (simp add: parse_conversion_def convert_signed_def Let_def)
  have flags: "\<not> flag_set ?f FLAG_ZERO" "\<not> flag_set ?f FLAG_THOUSANDS" "flag_set ?f FLAG_NUMERIC"
    "flag_set ?f FLAG_SIGNED" "flag_set ?f FLAG_NEGATIVE \<longleftrightarrow> x < 0"
    "\<not> flag_set ?f FLAG_PLUSPOSITIVE" "\<not> flag_set ?f FLAG_SPACEPOSITIVE"
    by (simp_all split: if_split)
  obtain buf pos where pn: "print_number (replicate NUMBUFSIZ 0) ?n 10 ?f = (buf, pos)"
    by (cases "print_number (replicate NUMBUFSIZ 0) ?n 10 ?f")
  have same: "number_text ?f 10 ?n = number_text 0 10 ?n"
    using flags(2) by (simp add: number_text_def)
  have "conversion_data m ?f (- 1) (ConvNum 10 ?n)
      = Some (number_text 0 10 ?n, int (length (number_text 0 10 ?n)))"
    using print_number_spec(1) [OF _ _ pn] same by (simp add: conversion_data_def pn Let_def)
  then have "emit_conversion m ?f (- 1) (- 1) (ConvNum 10 ?n) = Some (map Putc (decimal x))"
    using emit_plain [of ?f "number_text 0 10 ?n" "number_prefix ?f 10 ?n"] flags
      number_text_length [of 10 0 ?n]
    by (simp add: emit_conversion_def number_prefix_def decimal_def)
  then show ?thesis
    by (simp add: vprintf_conversion_def parse_flags_none no_width no_precision parse_lengths peek_Cons conv
        del: parse_flags.simps)
qed

lemmas prints_string = prints_conversion [OF conversion_string]
lemmas prints_decimal = prints_conversion [OF conversion_decimal]

lemma prints_plain:
  "0x25 \<notin> set pre \<Longrightarrow> prints m fmt args out \<Longrightarrow> prints m (pre @ fmt) args (pre @ out)"
  by (induction pre) (simp_all add: prints_char)

end
