(* ===== verification/ViewerEnds.thy ===== *)
theory ViewerEnds
  imports MemViewer Messages
begin

text \<open>
  The memory viewer always ends: the loops of \<open>memusage::refresh\<close> move up the address space
  even though the marks they write may lie in the page tables they walk, and every message is
  printed completely when the kernel's string literals are terminated.
\<close>

section \<open>The marking loops end\<close>

definition ptiter_stands :: "ptiter \<Rightarrow> bool" where
  "ptiter_stands it \<longleftrightarrow> ptiter_done it \<or> (\<exists>m n t. ptiter_at False m it n t)"

lemma ptiter_stands_new: "\<exists>it. ptiter_new m pt = Some it \<and> ptiter_stands it"
  using ptiter_new_ends [of m pt False] by (auto simp: ptiter_stands_def ptiter_result_def)

definition ptiter_left :: "ptiter \<Rightarrow> nat" where
  "ptiter_left it = (2 ^ 64 - unat (pi_va it)) * 64 + (64 - pi_lbits it)"

lemma ptiter_stands_next:
  assumes "ptiter_stands it" "\<not> ptiter_done it"
  obtains it' where "ptiter_next m it = Some it'" "ptiter_stands it'" "ptiter_left it' < ptiter_left it"
proof -
  from assms obtain n t where at: "ptiter_at False m it n t"
    by (auto simp: ptiter_stands_def dest: ptiter_at_changed)
  obtain it' where it': "ptiter_next m it = Some it'" "ptiter_result False m (pi_pt it) it'"
    "pi_va it < pi_va it' \<or> pi_va it = pi_va it' \<and> pi_lbits it < pi_lbits it'"
    using ptiter_next_ends [OF at] by blast
  have "unat (pi_va it') < 2 ^ 64" using unsigned_less [of "pi_va it'", where 'a = nat] by simp
  moreover have "pi_lbits it < 64" using at by (simp add: ptiter_at_def)
  ultimately have "ptiter_left it' < ptiter_left it"
    using it'(3) by (auto simp: ptiter_left_def word_less_nat_alt)
  then show thesis using it' by (intro that) (auto simp: ptiter_stands_def ptiter_result_def)
qed

lemma mark_tables_ends: "ptiter_stands it \<Longrightarrow> \<exists>m'. mark_tables v flags it m = Some m'"
proof (induction "ptiter_left it" arbitrary: it m rule: less_induct)
  case less
  show ?case
  proof (cases "ptiter_done it")
    case False
    obtain it' where "ptiter_next (mark v (ptiter_pa m it) flags m) it = Some it'" "ptiter_stands it'"
      "ptiter_left it' < ptiter_left it"
      using ptiter_stands_next [OF less.prems False] .
    then show ?thesis using less.hyps False by (subst mark_tables.simps) simp
  qed (subst mark_tables.simps, simp)
qed

lemma mark_low_tables_ends: "ptiter_stands it \<Longrightarrow> \<exists>r. mark_low_tables v flags it m = Some r"
proof (induction "ptiter_left it" arbitrary: it m rule: less_induct)
  case less
  show ?case
  proof (cases "ptiter_done it")
    case False
    obtain it' where "ptiter_next (mark v (ptiter_pa m it) flags m) it = Some it'" "ptiter_stands it'"
      "ptiter_left it' < ptiter_left it"
      using ptiter_stands_next [OF less.prems False] .
    then show ?thesis using less.hyps False by (subst mark_low_tables.simps) simp
  qed (subst mark_low_tables.simps, simp)
qed

text \<open>A \<open>vmiter\<close> in the lower half moves up, whatever memory holds.\<close>

lemma vmiter_descend_lbits: "vm_lbits (vmiter_descend m it) \<le> vm_lbits it"
proof (induction m it rule: vmiter_descend.induct)
  case (1 m it)
  then show ?case by (subst vmiter_descend.simps) (force simp: Let_def)
qed

lemma vmiter_down_lbits: "vmiter_down m it = Inr it' \<Longrightarrow> vm_lbits it' \<le> vm_lbits it"
  using vmiter_descend_lbits by (auto simp: vmiter_down_def Let_def split: if_splits)

lemma vmiter_step_va: "vmiter_find_impl m it va b = Inr it' \<Longrightarrow> vm_va it' = va"
  by (auto simp: vmiter_find_impl_def Let_def vmiter_down_def vmiter_descend_va split: if_splits)

lemma canonical_low: "va < VA_LOWEND \<Longrightarrow> va_is_canonical va"
  by (auto simp: va_is_canonical_def word_le_nat_alt word_less_nat_alt)

lemma vmiter_find_lbits:
  assumes "vmiter_find_impl m it va b = Inr it'" "va < VA_LOWEND" "va \<noteq> 0 \<or> \<not> b"
  shows "vm_lbits it' \<le> 39"
  using assms canonical_low [OF assms(2)]
  by (auto simp: vmiter_find_impl_def Let_def dest!: vmiter_down_lbits split: if_splits)

lemma low_step:
  assumes "va < VA_LOWEND" "l \<le> 39"
  shows "(va OR lbits_mask l) + 1 \<noteq> 0" "unat va < unat ((va OR lbits_mask l) + 1)"
proof -
  have va: "unat va < 2 ^ 47" using assms(1) by (simp add: word_less_nat_alt)
  have l: "l < 64" using assms(2) by simp
  show nz: "(va OR lbits_mask l) + 1 \<noteq> 0"
  proof
    assume "(va OR lbits_mask l) + 1 = 0"
    then have "(unat va div 2 ^ l + 1) * 2 ^ l = 2 ^ 64"
      using unat_after(2) [OF l] by (simp add: lbits_mask_mask after_def)
    moreover have "unat va div 2 ^ l * 2 ^ l \<le> unat va" by (simp add: div_mult2_eq)
    moreover have "(2::nat) ^ l \<le> 2 ^ 39" using assms(2) by (intro power_increasing) simp_all
    ultimately have "(2::nat) ^ 64 < 2 ^ 47 + 2 ^ 39" using va by (simp only: distrib_right)
    then show False by simp
  qed
  then show "unat va < unat ((va OR lbits_mask l) + 1)"
    using after_greater [OF l] by (simp add: lbits_mask_mask after_def)
qed

lemma low_next:
  assumes "vm_va it < VA_LOWEND" "vm_lbits it \<le> 39" "vmiter_next m it = Inr it' \<or> vmiter_next_range m it = Inr it'"
  shows "unat (vm_va it) < unat (vm_va it')" "vm_va it' < VA_LOWEND \<Longrightarrow> vm_lbits it' \<le> 39"
proof -
  let ?l = "if vm_lbits it > PAGEOFFBITS \<and> vmiter_perm m it = 0 then vm_lbits it else PAGEOFFBITS"
  have "vmiter_find_impl m it ((vm_va it OR lbits_mask ?l) + 1) True = Inr it'
      \<or> vmiter_find_impl m it ((vm_va it OR lbits_mask (vm_lbits it)) + 1) True = Inr it'"
    using assms(2,3) by (auto simp: vmiter_next_def vmiter_next_range_def vmiter_last_va_def)
  moreover have "?l \<le> 39" using assms(2) by simp
  ultimately obtain l where l: "l \<le> 39" "vmiter_find_impl m it ((vm_va it OR lbits_mask l) + 1) True = Inr it'"
    using assms(2) by metis
  note step = low_step [OF assms(1) l(1)]
  show "unat (vm_va it) < unat (vm_va it')" using step(2) vmiter_step_va [OF l(2)] by simp
  show "vm_va it' < VA_LOWEND \<Longrightarrow> vm_lbits it' \<le> 39"
    using vmiter_find_lbits [OF l(2)] step(1) vmiter_step_va [OF l(2)] by simp
qed

text \<open>The step both loops over a \<open>vmiter\<close> take.\<close>

lemma low_loop_step:
  assumes it: "vm_va it < VA_LOWEND" "vm_lbits it \<le> 39" and x: "x = vmiter_next m it \<or> x = vmiter_next_range m it"
    and ih: "\<And>it'. 2 ^ 64 - unat (vm_va it') < 2 ^ 64 - unat (vm_va it) \<Longrightarrow> vm_lbits it' \<le> 39 \<Longrightarrow> \<exists>r. loop it' = Some r"
    and stop: "\<And>it'. \<not> vm_va it' < VA_LOWEND \<Longrightarrow> \<exists>r. loop it' = Some r"
  shows "\<exists>r. bind_ro (Some x) loop = Some r"
proof (rule bind_ro_some)
  fix it' assume "Some x = Some (Inr it')"
  with x have "vmiter_next m it = Inr it' \<or> vmiter_next_range m it = Inr it'" by auto
  note step = low_next [OF it this]
  show "\<exists>r. loop it' = Some r"
  proof (cases "vm_va it' < VA_LOWEND")
    case True
    have "unat (vm_va it') < 2 ^ 64" using unsigned_less [of "vm_va it'", where 'a = nat] by simp
    then show ?thesis using step True by (intro ih) simp_all
  qed (rule stop)
qed simp

lemma mark_user_pages_ends: "vm_lbits it \<le> 39 \<Longrightarrow> \<exists>r. mark_user_pages v pidflag it m = Some r"
proof (induction "2 ^ 64 - unat (vm_va it)" arbitrary: it m rule: less_induct)
  case less
  have stop: "\<exists>r. mark_user_pages v pidflag it m = Some r" if "\<not> vm_va it < VA_LOWEND" for it m
    using that by (subst mark_user_pages.simps) simp
  show ?case
  proof (cases "vm_va it < VA_LOWEND")
    case True
    have "\<exists>r. bind_ro (Some x) (\<lambda>it. mark_user_pages v pidflag it m') = Some r"
      if "x = vmiter_next m' it \<or> x = vmiter_next_range m' it" for x m'
      using True less.prems that less.hyps stop by (rule low_loop_step)
    then show ?thesis using True by (subst mark_user_pages.simps) (auto simp: Let_def)
  qed (rule stop)
qed

lemma mark_owners_ends: "vm_lbits it \<le> 39 \<Longrightarrow> \<exists>r. mark_owners v rc it m = Some r"
proof (induction "2 ^ 64 - unat (vm_va it)" arbitrary: it m rule: less_induct)
  case less
  have stop: "\<exists>r. mark_owners v rc it m = Some r" if "\<not> vm_va it < VA_LOWEND" for it m
    using that by (subst mark_owners.simps) simp
  show ?case
  proof (cases "vm_va it < VA_LOWEND")
    case True
    have "\<exists>r. bind_ro (Some x) (\<lambda>it. mark_owners v rc it m') = Some r"
      if "x = vmiter_next m' it \<or> x = vmiter_next_range m' it" for x m'
      using True less.prems that less.hyps stop by (rule low_loop_step)
    then show ?thesis using True by (subst mark_owners.simps) (auto simp: Let_def)
  qed (rule stop)
qed

lemma vmiter_new_lbits: "vmiter_new m pt 0 = Inr it \<Longrightarrow> vm_lbits it \<le> 39"
  unfolding vmiter_new_def by (erule vmiter_find_lbits) simp_all

lemma mark_process_ends: "\<exists>r. mark_process v kpt p pr m = Some r"
  using ptiter_stands_new [of m "pagetable pr"]
  by (auto simp: mark_process_def Let_def
      intro!: bind_ro_some mark_low_tables_ends mark_user_pages_ends dest: vmiter_new_lbits)

lemma mark_processes_ends: "\<exists>r. mark_processes v kpt p prs sep m = Some r"
proof (induction prs arbitrary: p sep m)
  case (Cons pr prs)
  then show ?case by (auto intro!: bind_ro_some mark_process_ends)
qed simp

lemma refresh_map_ends: "\<exists>r. refresh_map v kpt rc procs m = Some r"
proof -
  obtain it where it: "ptiter_new (fst (memset m v 0 0x1000)) kpt = Some it" "ptiter_stands it"
    using ptiter_stands_new by blast
  obtain m1 where "mark_tables v f_kernel it (fst (memset m v 0 0x1000)) = Some m1"
    using mark_tables_ends [OF it(2)] by blast
  then show ?thesis
    using it by (auto simp: refresh_map_def Let_def split: prod.split
        intro!: bind_ro_some mark_processes_ends mark_owners_ends dest: vmiter_new_lbits)
qed

section \<open>The messages of the viewer are printed completely\<close>

lemma printable_row_label: "printable m (CS_WHITE @ str ''0x%06X '') [a]"
  by (simp add: CS_WHITE_def str_def)

lemma printable_page_error:
  assumes "strlen m a \<noteq> None"
  shows "printable m (str ''PAGE TABLE ERROR: %lx: %s (pid %d)'' @ [0x0A]) [pa, a, p]"
    "printable m (str ''PAGE TABLE ERROR: %lx: %s'' @ [0x0A]) [pa, a, p]"
  using assms by (simp_all add: str_def)

lemma printable_title:
  assumes "strlen m a \<noteq> None"
  shows "printable m (CS_WHITE @ str ''VIRTUAL ADDRESS SPACE FOR %d'' @ CS_NORMAL @ str ''%s'' @ [0x0A]) [p, a]"
  using assms by (simp add: CS_WHITE_def CS_NORMAL_def str_def)

section \<open>Drawing ends\<close>

text \<open>The string literals of the kernel lie in its image, with their terminators.\<close>

definition literals_in_image :: "kenv \<Rightarrow> mem \<Rightarrow> bool" where
  "literals_in_image env m \<longleftrightarrow>
     (\<forall>l. \<exists>n. let a = k_lit env l + of_nat n in KERNEL_START_ADDR \<le> a \<and> a < kernel_end (k_syms env) \<and> m a = 0)"

lemma strlen_loop_ends: "m (a + of_nat n) = 0 \<Longrightarrow> \<exists>r. strlen_loop m a k = Some r"
proof (induction n arbitrary: a k)
  case 0
  then show ?case by (subst strlen_loop.simps) simp
next
  case (Suc n)
  then have "\<exists>r. strlen_loop m (a + 1) (k + 1) = Some r" by (intro Suc.IH) (simp add: add.assoc)
  then show ?case by (subst strlen_loop.simps) simp
qed

lemma literal_strlen: "literals_in_image env m \<Longrightarrow> strlen m (k_lit env l) \<noteq> None"
  using strlen_loop_ends unfolding literals_in_image_def strlen_def Let_def by (metis option.distinct(1))

lemma bind_k_some:
  assumes "\<exists>r. x = Some r" "\<And>a s. x = Some (Inr (Next a, s)) \<Longrightarrow> \<exists>r. f a s = Some r"
  shows "\<exists>r. bind_k x f = Some r"
  using assms by (cases x rule: bind_k_cases) (auto simp: return_k_def exit_k_def)

text \<open>For a sequence of steps whose states satisfy \<open>P\<close>.\<close>

lemma bind_k_ends:
  assumes "\<exists>r. x = Some r" "ends_in P x" "\<And>a s. P s \<Longrightarrow> \<exists>r. f a s = Some r"
  shows "\<exists>r. bind_k x f = Some r"
  using assms by (intro bind_k_some) (auto simp: ends_in_def)

lemma console_printf_ends:
  assumes "printable (memory (phys s)) fmt args" "on_screen s"
  shows "\<exists>r. console_printf cpos fmt args s = Some r"
proof -
  obtain calls where calls: "vprintf_calls (memory (phys s)) fmt args = Some calls"
    using assms(1) by (auto simp: printable_def)
  show ?thesis
    using console_vprintf_ends [OF calls, of "cursorpos s" "screen s" cpos] assms(2)
    by (auto simp: console_printf_def on_screen_def return_k_def)
qed

lemma error_report_ends:
  assumes "printable (memory (phys s)) fmt args" "on_screen s"
  shows "\<exists>r. error_report dev fmt args s = Some r"
proof -
  obtain calls where calls: "vprintf_calls (memory (phys s)) fmt args = Some calls"
    using assms(1) by (auto simp: printable_def)
  show ?thesis
    using error_vprintf_ends [OF calls, of "cursorpos s" dev "screen s" "kport s"] assms(2)
    by (auto simp: error_report_def on_screen_def return_k_def)
qed

text \<open>A state in which the viewer can draw.\<close>

definition drawable :: "kenv \<Rightarrow> 's kernel_scheme \<Rightarrow> bool" where
  "drawable env s \<longleftrightarrow> on_screen s \<and> literals_in_image env (memory (phys s))"

lemma drawn_drawable: "drawn s s' \<Longrightarrow> drawable env s \<Longrightarrow> drawable env s'"
  by (simp add: drawable_def drawn_def)

text \<open>What the steps of drawing have in common: they end, and change what drawing may change.\<close>

definition draws :: "'s kernel_scheme \<Rightarrow> ('a, 's kernel_scheme) kres \<Rightarrow> bool" where
  "draws s r \<longleftrightarrow> r \<noteq> None \<and> ends_in (drawn s) r"

lemma drawsI: "\<exists>x. r = Some x \<Longrightarrow> ends_in (drawn s) r \<Longrightarrow> draws s r"
  by (auto simp: draws_def)

lemma draws_bind:
  assumes "draws s r" "drawable env s" "\<And>a s'. drawn s s' \<Longrightarrow> drawable env s' \<Longrightarrow> draws s' (f a s')"
  shows "draws s (bind_k r f)"
proof (rule drawsI)
  have f: "draws s' (f a s')" if "drawn s s'" for a s'
    using assms(3) [OF that drawn_drawable [OF that assms(2)]] .
  show "\<exists>x. bind_k r f = Some x"
    using assms(1) f by (intro bind_k_ends [where P = "drawn s"]) (auto simp: draws_def)
  show "ends_in (drawn s) (bind_k r f)"
    using assms(1) f by (intro ends_in_drawn_bind) (auto simp: draws_def)
qed

lemma draws_return: "drawable env s \<Longrightarrow> draws s (return_k a s)"
  by (rule drawsI) (simp add: return_k_def, simp add: drawable_def drawn_refl)

lemma draws_weaken: "drawn s s' \<Longrightarrow> draws s' r \<Longrightarrow> draws s r"
  by (auto simp: draws_def elim: ends_in_weaken intro: drawn_trans)

lemma draws_if: "draws s r \<Longrightarrow> draws s r' \<Longrightarrow> draws s (if b then r else r')"
  by simp

lemma draws_console_printf:
  "printable (memory (phys s)) fmt args \<Longrightarrow> drawable env s \<Longrightarrow> draws s (console_printf cpos fmt args s)"
  by (intro drawsI console_printf_ends console_printf_drawn) (simp_all add: drawable_def)

lemma draws_page_error:
  assumes "drawable env s"
  shows "draws s (page_error env pa desc p s)"
proof (rule drawsI)
  have "\<exists>r. error_report (k_dev env) fmt [pa, k_lit env desc, word_of_int p]
      (if b then s\<lparr>screen := c\<rparr> else s) = Some r"
    if "fmt = str ''PAGE TABLE ERROR: %lx: %s (pid %d)'' @ [0x0A] \<or> fmt = str ''PAGE TABLE ERROR: %lx: %s'' @ [0x0A]"
    for fmt b c
    using that assms literal_strlen [of env "memory (phys s)" desc]
    by (intro error_report_ends) (auto simp: drawable_def on_screen_def printable_page_error)
  then show "\<exists>r. page_error env pa desc p s = Some r"
    unfolding page_error_def Let_def by (intro bind_k_some) (simp_all add: return_k_def)
  show "ends_in (drawn s) (page_error env pa desc p s)"
    using assms by (simp add: page_error_drawn drawable_def)
qed

lemma draws_page_error_if: "drawable env s \<Longrightarrow> draws s (page_error_if b env pa desc p s)"
  unfolding page_error_if_def by (intro draws_if draws_page_error draws_return)

lemma draws_symbol_at: "drawable env s \<Longrightarrow> draws s (symbol_at env pa s)"
  unfolding symbol_at_def Let_def
  by (intro draws_bind [OF draws_page_error_if] draws_if draws_bind [OF draws_page_error] draws_return; assumption)

lemma draws_row_label: "drawable env s \<Longrightarrow> draws s (row_label r pn a s)"
  unfolding row_label_def by (intro draws_if draws_console_printf printable_row_label draws_return)

text \<open>When only the end matters.\<close>

lemma draws_then:
  assumes "draws s r" "drawable env s" "\<And>a s'. drawn s s' \<Longrightarrow> drawable env s' \<Longrightarrow> \<exists>x. f a s' = Some x"
  shows "\<exists>x. bind_k r f = Some x"
proof (rule bind_k_ends)
  show "\<exists>x. r = Some x" "ends_in (drawn s) r" using assms(1) by (auto simp: draws_def)
  fix a s' assume "drawn s s'"
  then show "\<exists>x. f a s' = Some x" using assms(3) drawn_drawable [OF _ assms(2)] by blast
qed

lemma drawable_update:
  "drawable env s \<Longrightarrow> drawable env (s\<lparr>mu := u\<rparr>)" "drawable env s \<Longrightarrow> drawable env (put_cell pos ch s)"
  by (simp_all add: drawable_def on_screen_def put_cell_def)

lemma draw_physical_ends: "drawable env s \<Longrightarrow> \<exists>r. draw_physical n env pn s = Some r"
proof (induction n arbitrary: pn s)
  case (Suc n)
  note label = draws_row_label [OF Suc.prems] and symbol = draws_symbol_at [OF drawable_update(1)]
  show ?case
    unfolding draw_physical.simps
    by (rule draws_then [OF label Suc.prems], rule draws_then [OF symbol drawable_update(1)])
      (auto intro: Suc.IH drawable_update)
qed (simp add: return_k_def)

lemma draw_virtual_ends: "drawable env s \<Longrightarrow> \<exists>r. draw_virtual n env it s = Some r"
proof (induction n arbitrary: it s)
  case (Suc n)
  note label = draws_row_label [OF Suc.prems]
  have ch: "draws s (if \<not> vmiter_present (memory (phys s)) it then return_k 0x20 s
      else bind_k (symbol_at env (vmiter_pa (memory (phys s)) it) s) (\<lambda>ch s.
             return_k (if vmiter_user (memory (phys s)) it then reverse_colors ch else ch) s))"
    if s: "drawable env s" for s :: "'a kernel_scheme"
    by (intro draws_if draws_return [OF s] draws_bind [OF draws_symbol_at [OF s] s]) (rule draws_return)
  show ?case
    unfolding draw_virtual.simps Let_def
    by (rule draws_then [OF label Suc.prems], rule draws_then [OF ch], assumption, assumption, rule bind_ro_some)
      (auto intro: Suc.IH drawable_update)
qed (simp add: return_k_def)

section \<open>The viewer ends\<close>

text \<open>The page of the map is one that \<open>kalloc\<close> may hand out, outside the kernel image.\<close>

definition viewer_page :: "kenv \<Rightarrow> 's kernel_scheme \<Rightarrow> bool" where
  "viewer_page env s \<longleftrightarrow>
     mu_v (mu s) = 0 \<or> page_aligned (mu_v (mu s)) \<and> allocatable_physical_address (kernel_end (k_syms env)) (mu_v (mu s))"

lemma page_outside_image:
  assumes "page_aligned v" "allocatable_physical_address kend v" "KERNEL_START_ADDR \<le> a" "a < kend" "kend < MEMSIZE_PHYSICAL"
  shows "\<not> a - v < PAGESIZE"
proof (cases "v < KERNEL_START_ADDR")
  case True
  have "unat v + 4096 \<le> unat (KERNEL_START_ADDR :: u64)"
  proof -
    have "4096 dvd unat v" using assms(1) by (auto simp: page_aligned_def)
    then obtain k where "unat v = 4096 * k" ..
    moreover have "unat v < 0x40000" using True by (simp add: word_less_nat_alt)
    ultimately show ?thesis by simp
  qed
  then show ?thesis using assms(3) by (simp add: word_le_nat_alt word_less_nat_alt unat_sub_if')
next
  case False
  then have v: "round_up kend PAGESIZE \<le> v" "v < MEMSIZE_PHYSICAL"
    using assms(2) by (auto simp: allocatable_physical_address_def)
  have "unat kend \<le> unat (round_up kend PAGESIZE)"
    using assms(5) by (intro round_up_multiple) (simp_all add: word_less_nat_alt)
  then have "kend \<le> round_up kend PAGESIZE" by (simp only: word_le_nat_alt)
  then have "a < v" using assms(4) v by simp
  then show ?thesis using v by (simp add: word_le_nat_alt word_less_nat_alt unat_sub_if')
qed

definition viewer_ready :: "kenv \<Rightarrow> 's kernel_scheme \<Rightarrow> bool" where
  "viewer_ready env s \<longleftrightarrow>
     drawable env s \<and> viewer_page env s \<and> kernel_end (k_syms env) < MEMSIZE_PHYSICAL"

lemma viewer_frame_ready:
  assumes "viewer_frame (kernel_end (k_syms env)) s s'" "viewer_ready env s"
  shows "viewer_ready env s'"
proof -
  let ?kend = "kernel_end (k_syms env)" and ?v = "mu_v (mu s')"
  have f: "on_screen s'" "viewer_memory ?kend s s'" using assms(1) by (simp_all add: viewer_frame_def)
  have kend: "?kend < MEMSIZE_PHYSICAL" using assms(2) by (simp add: viewer_ready_def)
  have v: "?v = 0 \<or> page_aligned ?v \<and> allocatable_physical_address ?kend ?v"
    using f(2) assms(2) by (auto simp: viewer_memory_def viewer_ready_def viewer_page_def page_available_def split: if_splits)
  have out: "\<not> a - ?v < PAGESIZE" if "KERNEL_START_ADDR \<le> a" "a < ?kend" for a
  proof (cases "?v = 0")
    case True
    then show ?thesis using that(1) by (simp add: word_le_nat_alt word_less_nat_alt)
  qed (use v that kend page_outside_image in blast)
  have "literals_in_image env (memory (phys s))" using assms(2) by (simp add: viewer_ready_def drawable_def)
  then have "literals_in_image env (memory (phys s'))"
    using f(2) out unfolding literals_in_image_def viewer_memory_def Let_def by metis
  then show ?thesis using f(1) v kend by (simp add: viewer_ready_def drawable_def viewer_page_def)
qed

lemma refresh_ends: "\<exists>r. refresh env s = Some r"
  unfolding refresh_def Let_def assert_k_def
  by (auto intro!: bind_k_some bind_ro_some refresh_map_ends simp: return_k_def split: prod.split)

lemma console_memviewer_virtual_ends:
  assumes "drawable env s"
  shows "\<exists>r. console_memviewer_virtual env vmp s = Some r"
proof (cases "pagetable vmp = 0")
  case False
  have title: "draws s (console_printf (10 * 80 + 26) (CS_WHITE @ str ''VIRTUAL ADDRESS SPACE FOR %d'' @ CS_NORMAL @ str ''%s'' @ [0x0A])
      [p, k_lit env l] s)" for p l
    using assms literal_strlen by (intro draws_console_printf printable_title) (auto simp: drawable_def)
  have "\<exists>r. bind_k (console_printf (10 * 80 + 26) (CS_WHITE @ str ''VIRTUAL ADDRESS SPACE FOR %d'' @ CS_NORMAL @ str ''%s'' @ [0x0A])
       [of_nat (pid vmp), k_lit env (if state vmp = P_FAULTED then '' (faulted)'' else '''')] s) (\<lambda>_ s.
     bind_ro (Some (vmiter_new (memory (phys s)) (pagetable vmp) 0)) (\<lambda>it. draw_virtual 768 env it s)) = Some r"
    by (rule draws_then [OF title assms]) (auto intro!: bind_ro_some draw_virtual_ends)
  then show ?thesis using False by (simp add: console_memviewer_virtual_def assert_k_def)
qed (simp add: console_memviewer_virtual_def assert_k_def)

lemma viewer_ready_drawable: "viewer_ready env s \<Longrightarrow> drawable env s"
  by (simp add: viewer_ready_def)

lemma console_memviewer_ends:
  fixes s :: "'s kernel_scheme"
  assumes "viewer_ready env s"
  shows "\<exists>r. console_memviewer env vmp s = Some r"
proof -
  have on: "on_screen s" using assms by (simp add: viewer_ready_def drawable_def)
  have head: "draws s (console_printf 32 (CS_WHITE @ str ''PHYSICAL MEMORY'' @ [0x0A]) [] s)"
    if "drawable env s" for s :: "'s kernel_scheme"
    by (rule draws_console_printf [OF printable_plain that]) (simp add: CS_WHITE_def str_def)
  have rest: "\<exists>r. bind_k (console_printf 32 (CS_WHITE @ str ''PHYSICAL MEMORY'' @ [0x0A]) [] s) (\<lambda>_ s.
     bind_k (draw_physical 512 env 0 s) (\<lambda>_ s.
     let s = s\<lparr>mu := set_error_sympos (- 1) (mu s)\<rparr> in
     case vmp of None \<Rightarrow> return_k () s | Some p \<Rightarrow> console_memviewer_virtual env p s)) = Some r"
    if s: "drawable env s" for s :: "'s kernel_scheme"
  proof (rule draws_then [OF head [OF s] s])
    fix a :: unit and s' :: "'s kernel_scheme" assume s': "drawable env s'"
    have "draws s' (draw_physical 512 env 0 s')"
      using draw_physical_ends [OF s'] draw_physical_drawn [of s' 0 512] s' by (intro drawsI) (auto simp: drawable_def)
    from this s' show "\<exists>r. bind_k (draw_physical 512 env 0 s') (\<lambda>_ s.
       let s = s\<lparr>mu := set_error_sympos (- 1) (mu s)\<rparr> in
       case vmp of None \<Rightarrow> return_k () s | Some p \<Rightarrow> console_memviewer_virtual env p s) = Some r"
      by (rule draws_then)
        (auto simp: Let_def return_k_def split: option.split intro: console_memviewer_virtual_ends drawable_update)
  qed
  have "\<exists>r. bind_k (refresh env s) (\<lambda>_ s.
     bind_k (console_printf 32 (CS_WHITE @ str ''PHYSICAL MEMORY'' @ [0x0A]) [] s) (\<lambda>_ s.
     bind_k (draw_physical 512 env 0 s) (\<lambda>_ s.
     let s = s\<lparr>mu := set_error_sympos (- 1) (mu s)\<rparr> in
     case vmp of None \<Rightarrow> return_k () s | Some p \<Rightarrow> console_memviewer_virtual env p s))) = Some r"
    by (rule bind_k_ends [OF refresh_ends refresh_frame [OF on]])
      (rule rest, rule viewer_ready_drawable, rule viewer_frame_ready [OF _ assms])
  then show ?thesis by (simp add: console_memviewer_def assert_k_def)
qed

section \<open>The viewer returns to its caller\<close>

definition no_exit :: "('a, 's) kres \<Rightarrow> bool" where
  "no_exit r \<longleftrightarrow> (\<forall>x s. r \<noteq> Some (Inr (Exit x, s)))"

lemma no_exit_simps [simp]: "no_exit None" "no_exit (Some (Inl e))" "no_exit (return_k a s)"
  by (simp_all add: no_exit_def return_k_def)

lemma no_exit_bind_ro: "(\<And>a. no_exit (f a)) \<Longrightarrow> no_exit (bind_ro r f)"
  by (cases r) (auto simp: bind_ro_def split: sum.splits)

lemma no_exit_bind_k: "no_exit r \<Longrightarrow> (\<And>a s. no_exit (f a s)) \<Longrightarrow> no_exit (bind_k r f)"
  by (cases r rule: bind_k_cases) (simp_all add: no_exit_def exit_k_def return_k_def)

lemma no_exit_if: "no_exit r \<Longrightarrow> no_exit r' \<Longrightarrow> no_exit (if b then r else r')"
  by simp

lemma no_exit_assert [simp]: "no_exit (assert_k b msg s)"
  by (simp add: assert_k_def)

lemmas no_exit_intros = no_exit_bind_ro no_exit_bind_k no_exit_if

lemma no_exit_printf [simp]: "no_exit (console_printf cpos fmt args s)" "no_exit (error_report dev fmt args s)"
  unfolding console_printf_def error_report_def by (auto intro!: no_exit_intros split: prod.split)

lemma no_exit_symbol_at [simp]: "no_exit (symbol_at env pa s)"
  unfolding symbol_at_def page_error_if_def page_error_def Let_def by (intro no_exit_intros no_exit_simps no_exit_printf)

lemma no_exit_row_label [simp]: "no_exit (row_label r pn a s)"
  by (simp add: row_label_def)

lemma no_exit_draw [simp]: "no_exit (draw_physical n env pn s)" "no_exit (draw_virtual n env it s)"
  by (induction n arbitrary: pn it s) (auto intro!: no_exit_intros simp: Let_def)

lemma no_exit_viewer [simp]: "no_exit (console_memviewer env vmp s)"
  unfolding console_memviewer_def console_memviewer_virtual_def refresh_def Let_def
  by (auto intro!: no_exit_intros split: prod.split option.split)

text \<open>What a call of the viewer amounts to.\<close>

lemma console_memviewer_result:
  assumes "viewer_ready env s"
  shows "(\<exists>e. console_memviewer env vmp s = Some (Inl e))
    \<or> (\<exists>s'. console_memviewer env vmp s = return_k () s' \<and> viewer_frame (kernel_end (k_syms env)) s s' \<and> viewer_ready env s')"
proof -
  have "on_screen s" using assms by (simp add: viewer_ready_def drawable_def)
  note frame = console_memviewer_frame [OF this, of env vmp]
  show ?thesis
    using console_memviewer_ends [OF assms, of vmp] no_exit_viewer [of env vmp s] frame
    by (cases "console_memviewer env vmp s" rule: bind_k_cases)
      (auto simp: no_exit_def exit_k_def intro: viewer_frame_ready [OF _ assms])
qed

end
