(* ===== verification/Kernel.thy ===== *)
theory Kernel
  imports ViewerEnds
begin

text \<open>
  The kernel proper (\<open>pset3/kernel.cc\<close>): start-up and program loading, exceptions, system
  calls, the scheduler and the return to a process. The running system is an inductive relation
  over the states in which a process runs; the theorems are its invariants, the fairness of the
  scheduler, the isolation of faults, the answers to system calls and the loader's effect.
\<close>

section \<open>Definitions\<close>

abbreviation HZ :: int where "HZ \<equiv> 100"
abbreviation PROC_SIZE :: u64 where "PROC_SIZE \<equiv> 0x40000"
abbreviation SYSCALL_GETPID :: u64 where "SYSCALL_GETPID \<equiv> 1"
abbreviation SYSCALL_YIELD :: u64 where "SYSCALL_YIELD \<equiv> 2"
abbreviation SYSCALL_PANIC :: u64 where "SYSCALL_PANIC \<equiv> 3"
abbreviation SYSCALL_PAGE_ALLOC :: u64 where "SYSCALL_PAGE_ALLOC \<equiv> 4"

definition set_proc :: "nat \<Rightarrow> proc \<Rightarrow> 's kernel_scheme \<Rightarrow> 's kernel_scheme" where
  "set_proc p pr s = s\<lparr>ptable := (ptable s)[p := pr]\<rparr>"

abbreviation current_proc :: "'s kernel_scheme \<Rightarrow> proc" where
  "current_proc s \<equiv> ptable s ! current s"

subsection \<open>The memory display\<close>

text \<open>The search for a process to show: the number of rounds left, then the process shown.\<close>

fun memshow_search :: "nat \<Rightarrow> proc list \<Rightarrow> nat \<Rightarrow> nat \<times> proc option" where
  "memshow_search 0 procs show_pid = (show_pid, None)"
| "memshow_search (Suc n) procs show_pid =
     (if state (procs ! show_pid) \<noteq> P_FREE \<and> pagetable (procs ! show_pid) \<noteq> 0
      then (show_pid, Some (procs ! show_pid))
      else memshow_search n procs ((show_pid + 1) mod MAXNPROC))"

definition memshow :: "kenv \<Rightarrow> 's kernel_scheme \<Rightarrow> (unit, 's kernel_scheme) kres" where
  "memshow env s =
     (let s = (if last_ticks s = 0 \<or> ticks s - ucast (last_ticks s) \<ge> word_of_int (HZ div 2)
               then s\<lparr>last_ticks := ucast (ticks s), showing := (showing s + 1) mod MAXNPROC\<rparr> else s)
      in case memshow_search MAXNPROC (ptable s) (showing s) of (show_pid, p) \<Rightarrow>
         bind_k (console_memviewer env p (s\<lparr>showing := show_pid\<rparr>)) (\<lambda>_ s.
         if p = None
         then console_printf (10 * 80 + 26) (CS_WHITE @ str ''   VIRTUAL ADDRESS SPACE'' @ [0x0A]
                @ replicate 26 0x20 @ str ''[All processes have exited]'' @ replicate 12 0x0A) [] s
         else return_k () s))"

subsection \<open>Running processes\<close>

definition run :: "kenv \<Rightarrow> nat \<Rightarrow> 's kernel_scheme \<Rightarrow> ('a, 's kernel_scheme) kres" where
  "run env p s =
     bind_k (assert_k (state (ptable s ! p) = P_RUNNABLE) ''p->state == P_RUNNABLE'' s) (\<lambda>_ s.
     let s = s\<lparr>current := p\<rparr> in
     bind_ro (Some (check_process_registers (ptable s ! p))) (\<lambda>_.
     bind_ro (Some (check_pagetable (k_syms env) (memory (phys s)) (pagetable (ptable s ! p)))) (\<lambda>_.
     exit_k (ReturnTo p) s)))"

partial_function (option) schedule_loop :: "kenv \<Rightarrow> nat \<Rightarrow> u32 \<Rightarrow> 's kernel_scheme \<Rightarrow> ('a, 's kernel_scheme) kres" where
  "schedule_loop env p spins s =
     (let p = (p + 1) mod MAXNPROC in
      if state (ptable s ! p) = P_RUNNABLE then run env p s
      else bind_k (check_keyboard env s) (\<lambda>_ s.
           bind_k (if spins mod 4096 = 0 then memshow env s else return_k () s) (\<lambda>_ s.
           schedule_loop env p (spins + 1) s)))"

definition schedule :: "kenv \<Rightarrow> 's kernel_scheme \<Rightarrow> ('a, 's kernel_scheme) kres" where
  "schedule env s = schedule_loop env (pid (current_proc s)) 1 s"

subsection \<open>Exceptions\<close>

definition save_regs :: "regstate \<Rightarrow> 's kernel_scheme \<Rightarrow> 's kernel_scheme" where
  "save_regs rg s = set_proc (current s) ((current_proc s)\<lparr>regs := rg\<rparr>) s"

definition exception_timer :: "kenv \<Rightarrow> 's kernel_scheme \<Rightarrow> ('a, 's kernel_scheme) kres" where
  "exception_timer env s =
     (let s = s\<lparr>ticks := ticks s + 1\<rparr>;
          s = set_trace (lapic_ack (k_trace s)) s
      in schedule env s)"

definition exception_page_fault :: "kenv \<Rightarrow> 's kernel_scheme \<Rightarrow> (unit, 's kernel_scheme) kres" where
  "exception_page_fault env s =
     (case rdcr2 (k_dev env) (k_trace s) of (addr, tr) \<Rightarrow>
      let s = set_trace tr s;
          pr = current_proc s;
          rg = regs pr;
          operation = k_lit env (if reg_errcode rg AND PTE_W \<noteq> 0 then ''write'' else ''read'');
          problem = k_lit env (if reg_errcode rg AND PTE_P \<noteq> 0 then ''protection problem'' else ''missing page'')
      in if reg_errcode rg AND PTE_U = 0
         then proc_panic env pr (Some (str ''Kernel page fault on %p (%s %s, rip=%p)!'' @ [0x0A]))
                [addr, operation, problem, reg_rip rg] s
         else bind_k (error_report (k_dev env) (str ''PAGE FAULT on %p (pid %d, %s %s, rip=%p)!'' @ [0x0A])
                [addr, of_nat (pid pr), operation, problem, reg_rip rg] s) (\<lambda>_ s.
              bind_k (log_print_backtrace env (current_proc s) s) (\<lambda>_ s.
              return_k () (set_proc (current s) ((current_proc s)\<lparr>state := P_FAULTED\<rparr>) s))))"

definition exception :: "kenv \<Rightarrow> regstate \<Rightarrow> 's kernel_scheme \<Rightarrow> ('a, 's kernel_scheme) kres" where
  "exception env rg s =
     (let s = console_show_cursor (save_regs rg s) in
      bind_k (if reg_intno rg \<noteq> of_nat INT_PF \<or> reg_errcode rg AND PTE_U \<noteq> 0
              then memshow env s else return_k () s) (\<lambda>_ s.
      bind_k (check_keyboard env s) (\<lambda>_ s.
      bind_k
        (if reg_intno (regs (current_proc s)) = of_nat (INT_IRQ + IRQ_TIMER) then exception_timer env s
         else if reg_intno (regs (current_proc s)) = of_nat INT_PF then exception_page_fault env s
         else proc_panic env (current_proc s) (Some (str ''Unhandled exception %d (rip=%p)!'' @ [0x0A]))
                [ucast (reg_intno (regs (current_proc s))), reg_rip (regs (current_proc s))] s) (\<lambda>_ s.
      if state (current_proc s) = P_RUNNABLE then run env (current s) s else schedule env s))))"

subsection \<open>System calls\<close>

text \<open>An access to \<open>physpages\<close> beyond its end is an error of its own.\<close>

definition physpage_claim :: "u64 \<Rightarrow> 's machine_scheme \<Rightarrow> (unit, 's machine_scheme) kres" where
  "physpage_claim a s =
     (let n = unat (a div PAGESIZE); rc = refcount (phys s) in
      if n \<ge> NPAGES then Some (Inl (OutOfBounds ''physpages[addr / PAGESIZE]''))
      else if rc n \<noteq> 0 then Some (Inl (AssertFail ''physpages[addr / PAGESIZE].refcount == 0''))
      else return_k () (s\<lparr>phys := (phys s)\<lparr>refcount := rc(n := rc n + 1)\<rparr>\<rparr>))"

definition syscall_page_alloc :: "u64 \<Rightarrow> 's machine_scheme \<Rightarrow> (u32, 's machine_scheme) kres" where
  "syscall_page_alloc a s =
     bind_k (physpage_claim a s) (\<lambda>_ s.
       return_k 0 (set_mem (fst (memset (memory (phys s)) a 0 PAGESIZE)) s))"

text \<open>A value \<open>Next v\<close> means that the process resumes with \<open>v\<close> in \<open>%rax\<close>.\<close>

definition syscall :: "kenv \<Rightarrow> regstate \<Rightarrow> 's kernel_scheme \<Rightarrow> (u64, 's kernel_scheme) kres" where
  "syscall env rg s =
     bind_k (memshow env (console_show_cursor (save_regs rg s))) (\<lambda>_ s.
     bind_k (check_keyboard env s) (\<lambda>_ s.
     let pr = current_proc s; rax = reg_rax (regs pr) in
     if rax = SYSCALL_PANIC then user_panic env pr s
     else if rax = SYSCALL_GETPID then return_k (of_nat (pid pr)) s
     else if rax = SYSCALL_YIELD
     then schedule env (set_proc (current s) (pr\<lparr>regs := (regs pr)\<lparr>reg_rax := 0\<rparr>\<rparr>) s)
     else if rax = SYSCALL_PAGE_ALLOC
     then bind_k (syscall_page_alloc (reg_rdi (regs pr)) s) (\<lambda>r s. return_k (scast r) s)
     else proc_panic env pr (Some (str ''Unhandled system call %ld (pid=%d, rip=%p)!'' @ [0x0A]))
            [rax, of_nat (pid pr), reg_rip (regs pr)] s))"

subsection \<open>Loading programs\<close>

partial_function (option) reserve_pages :: "u64 \<Rightarrow> u64 \<Rightarrow> 's machine_scheme \<Rightarrow> (unit, 's machine_scheme) kres" where
  "reserve_pages a limit s =
     (if a < limit then bind_k (physpage_claim a s) (\<lambda>_ s. reserve_pages (a + PAGESIZE) limit s)
      else return_k () s)"

partial_function (option) reserve_segments :: "segment \<Rightarrow> 's machine_scheme \<Rightarrow> (unit, 's machine_scheme) kres" where
  "reserve_segments seg s =
     (let m = memory (phys s) in
      bind_ro (map_option Inr (image_end m (seg_elf seg))) (\<lambda>e.
      if segment_eq seg e then return_k () s
      else bind_k (reserve_pages (round_down (segment_va m seg) PAGESIZE)
                     (segment_va m seg + segment_size m seg) s) (\<lambda>_ s.
           bind_ro (segment_next (memory (phys s)) seg) (\<lambda>seg. reserve_segments seg s))))"

definition load_segment :: "segment \<Rightarrow> mem \<Rightarrow> mem" where
  "load_segment seg m =
     (let m = fst (memset m (segment_va m seg) 0 (segment_size m seg))
      in fst (memcpy m (segment_va m seg) (segment_data m seg) (segment_data_size m seg)))"

partial_function (option) load_segments :: "segment \<Rightarrow> mem \<Rightarrow> mem result option" where
  "load_segments seg m =
     bind_ro (map_option Inr (image_end m (seg_elf seg))) (\<lambda>e.
     if segment_eq seg e then Some (Inr m)
     else let m = load_segment seg m
          in bind_ro (segment_next m seg) (\<lambda>seg. load_segments seg m))"

definition process_setup :: "kenv \<Rightarrow> ramimage list \<Rightarrow> nat \<Rightarrow> addr \<Rightarrow> 's kernel_scheme \<Rightarrow> (unit, 's kernel_scheme) kres" where
  "process_setup env images p program_name s =
     (let s = set_proc p ((init_process (ptable s ! p) 0)\<lparr>pagetable := kernel_pagetable (k_syms env)\<rparr>) s in
      bind_ro (program_image_named images (memory (phys s)) program_name) (\<lambda>pgm.
      bind_ro (map_option Inr (image_begin (memory (phys s)) pgm)) (\<lambda>seg.
      bind_k (reserve_segments seg s) (\<lambda>_ s.
      bind_ro (map_option Inr (image_begin (memory (phys s)) pgm)) (\<lambda>seg.
      bind_ro (load_segments seg (memory (phys s))) (\<lambda>m.
      let s = set_mem m s;
          pr = ptable s ! p;
          s = set_proc p (pr\<lparr>regs := (regs pr)\<lparr>reg_rip := image_entry (memory (phys s)) pgm\<rparr>\<rparr>) s;
          stack_addr = PROC_START_ADDR + PROC_SIZE * of_nat p - PAGESIZE
      in bind_k (physpage_claim stack_addr s) (\<lambda>_ s.
         let pr = ptable s ! p in
         return_k () (set_proc p (pr\<lparr>regs := (regs pr)\<lparr>reg_rsp := stack_addr + PAGESIZE\<rparr>, state := P_RUNNABLE\<rparr>) s))))))))"

subsection \<open>Start-up\<close>

fun map_pages :: "kenv \<Rightarrow> nat list \<Rightarrow> physmem \<Rightarrow> physmem result" where
  "map_pages env [] ph = Inr ph"
| "map_pages env (n # ns) ph =
     (let a = of_nat n * PAGESIZE; perm = (if a = 0 then 0 else 7) in
      bind_result (vmiter_new (memory ph) (kernel_pagetable (k_syms env)) a) (\<lambda>it.
      bind_result (try_map (kernel_end (k_syms env)) ph it a perm) (\<lambda>(ph, it, r).
      bind_result (assert_that (r = 0) ''r == 0'') (\<lambda>_. map_pages env ns ph))))"

text \<open>The name of the first process is generated by the build.\<close>

definition kernel_start :: "kenv \<Rightarrow> ramimage list \<Rightarrow> string \<Rightarrow> ('s kernel_scheme \<Rightarrow> 's kernel_scheme) list \<Rightarrow> cpu_tables
    \<Rightarrow> addr \<Rightarrow> 's kernel_scheme \<Rightarrow> ('a, 's kernel_scheme) kres" where
  "kernel_start env images first_process ctors cpu command s =
     bind_ro (Some (init_hardware env ctors cpu s)) (\<lambda>(cpu, s).
     bind_k (log_printf (k_dev env) (str ''Starting WeensyOS'' @ [0x0A]) [] s) (\<lambda>_ s.
     let s = s\<lparr>ticks := 1\<rparr>;
         s = set_trace (init_timer HZ (k_trace s)) s;
         s = (case console_clear (screen s) of (con, pos) \<Rightarrow> s\<lparr>screen := con, cursorpos := pos\<rparr>)
     in bind_ro (Some (map_pages env [0..<NPAGES] (phys s))) (\<lambda>ph.
     let s = s\<lparr>phys := ph,
           ptable := map (\<lambda>(i, pr). pr\<lparr>pid := i, state := P_FREE\<rparr>) (zip [0..<MAXNPROC] (ptable s))\<rparr>;
         command = (if command = 0 then k_lit env first_process else command)
     in bind_ro (program_image_named images (memory (phys s)) command) (\<lambda>pgm.
     bind_k
       (if \<not> image_empty (memory (phys s)) pgm then process_setup env images 1 command s
        else bind_k (process_setup env images 1 (k_lit env ''allocator'') s) (\<lambda>_ s.
             bind_k (process_setup env images 2 (k_lit env ''allocator2'') s) (\<lambda>_ s.
             bind_k (process_setup env images 3 (k_lit env ''allocator3'') s) (\<lambda>_ s.
             process_setup env images 4 (k_lit env ''allocator4'') s)))) (\<lambda>_ s.
     run env 1 s)))))"

section \<open>The scheduler\<close>

text \<open>
  The specification: the next runnable process after \<open>p\<close> in cyclic order, looking at \<open>n\<close>
  processes.
\<close>

fun next_runnable :: "proc list \<Rightarrow> nat \<Rightarrow> nat \<Rightarrow> nat option" where
  "next_runnable procs 0 p = None"
| "next_runnable procs (Suc n) p =
     (let q = (p + 1) mod MAXNPROC in
      if state (procs ! q) = P_RUNNABLE then Some q else next_runnable procs n q)"

text \<open>A keyboard without pending input.\<close>

definition quiet :: "device \<Rightarrow> bool" where
  "quiet dev \<longleftrightarrow> (\<forall>tr. (ucast (dev tr (InB 0x64)) :: byte) AND 1 = 0)"

lemma check_keyboard_quiet:
  assumes "quiet (k_dev env)"
  shows "check_keyboard env s = return_k (- 1) (set_trace (InB 0x64 # k_trace s) s)"
  using assms
  by (simp add: quiet_def check_keyboard_def keyboard_readc_def inb_def Let_def set_trace_def)

lemma set_trace_other [simp]:
  "ptable (set_trace tr s) = ptable s" "ticks (set_trace tr s) = ticks s" "current (set_trace tr s) = current s"
  "phys (set_trace tr s) = phys s" "set_trace tr (set_trace tr' s) = set_trace tr s"
  by (simp_all add: set_trace_def)

lemma run_returns:
  assumes "state (ptable s ! p) = P_RUNNABLE" "check_process_registers (ptable s ! p) = Inr ()"
    "check_pagetable (k_syms env) (memory (phys s)) (pagetable (ptable s ! p)) = Inr ()"
  shows "run env p s = exit_k (ReturnTo p) (s\<lparr>current := p\<rparr>)"
  using assms by (simp add: run_def assert_k_def)

text \<open>The loop of \<open>schedule\<close> finds the process the specification names.\<close>

lemma schedule_loop_next:
  fixes s :: "'s kernel_scheme"
  assumes "quiet (k_dev env)" "next_runnable (ptable s) n p = Some q" "unat spins + n \<le> 4096" "0 < unat spins"
  shows "\<exists>tr. (schedule_loop env p spins s :: ('a, 's kernel_scheme) kres) = run env q (set_trace tr s)"
  using assms(2-)
proof (induction n arbitrary: p spins s)
  case (Suc n)
  let ?p = "(p + 1) mod MAXNPROC"
  show ?case
  proof (cases "state (ptable s ! ?p) = P_RUNNABLE")
    case True
    then have "(schedule_loop env p spins s :: ('a, 's kernel_scheme) kres) = run env q (set_trace (k_trace s) s)"
      using Suc.prems(1) by (subst schedule_loop.simps) (simp add: set_trace_def)
    then show ?thesis ..
  next
    case False
    let ?s = "set_trace (InB 0x64 # k_trace s) s"
    have n: "next_runnable (ptable ?s) n ?p = Some q" using Suc.prems(1) False by simp
    then have "n \<noteq> 0" by (cases n) simp_all
    then have small: "unat spins < 4096" using Suc.prems(2) by simp
    then have "unat (spins mod 4096) = unat spins" by (simp add: unat_mod)
    then have "spins mod 4096 \<noteq> 0" using Suc.prems(3) by (metis unat_0 less_irrefl)
    moreover have "unat (spins + 1) = unat spins + 1"
      using small by (subst unat_add_lem [THEN iffD1]) simp_all
    then have "\<exists>tr. (schedule_loop env ?p (spins + 1) ?s :: ('a, 's kernel_scheme) kres) = run env q (set_trace tr ?s)"
      using Suc.prems(2) by (intro Suc.IH [OF n]) simp_all
    then obtain tr where "(schedule_loop env ?p (spins + 1) ?s :: ('a, 's kernel_scheme) kres) = run env q (set_trace tr ?s)" ..
    ultimately have "(schedule_loop env p spins s :: ('a, 's kernel_scheme) kres) = run env q (set_trace tr s)"
      using False by (subst schedule_loop.simps) (simp add: check_keyboard_quiet [OF assms(1)])
    then show ?thesis ..
  qed
qed simp

text \<open>How far \<open>q\<close> is behind \<open>p\<close> in cyclic order, from 1 to 16.\<close>

definition distance :: "nat \<Rightarrow> nat \<Rightarrow> nat" where
  "distance p q = (q + 15 - p) mod MAXNPROC + 1"

lemma distance_step:
  assumes "p < MAXNPROC" "q < MAXNPROC"
  shows "distance p q = (if q = (p + 1) mod MAXNPROC then 1 else distance ((p + 1) mod MAXNPROC) q + 1)"
proof (cases "p = 15")
  case True
  then show ?thesis using assms by (cases "q = 0") (auto simp: distance_def mod_if)
next
  case False
  then have "(p + 1) mod MAXNPROC = p + 1" using assms by simp
  then show ?thesis using assms False by (auto simp: distance_def mod_if)
qed

lemma next_runnable_exists:
  assumes "p < MAXNPROC" "q < MAXNPROC" "state (procs ! q) = P_RUNNABLE" "distance p q \<le> n"
  obtains r where "next_runnable procs n p = Some r" "r < MAXNPROC" "state (procs ! r) = P_RUNNABLE"
    "r = q \<or> distance r q < distance p q"
  using assms
proof (induction n arbitrary: p thesis)
  case (Suc n)
  let ?p = "(p + 1) mod MAXNPROC"
  have p: "?p < MAXNPROC" by simp
  show ?case
  proof (cases "state (procs ! ?p) = P_RUNNABLE")
    case True
    then show ?thesis
      using Suc.prems(1) [of ?p] distance_step [OF Suc.prems(2,3)] by auto
  next
    case False
    then have "?p \<noteq> q" using Suc.prems(4) by auto
    then have d: "distance p q = distance ?p q + 1" using distance_step [OF Suc.prems(2,3)] by simp
    then have "distance ?p q \<le> n" using Suc.prems(5) by simp
    from Suc.IH [OF _ p Suc.prems(3,4) this] obtain r where
      "next_runnable procs n ?p = Some r" "r < MAXNPROC" "state (procs ! r) = P_RUNNABLE"
      "r = q \<or> distance r q < distance ?p q" .
    then show ?thesis using False d by (intro Suc.prems(1) [of r]) auto
  qed
next
  case 0
  then show ?case by (simp add: distance_def)
qed

lemma distance_le: "distance p q \<le> MAXNPROC"
  by (simp add: distance_def)

definition runnable_ok :: "kenv \<Rightarrow> 's kernel_scheme \<Rightarrow> bool" where
  "runnable_ok env s \<longleftrightarrow> length (ptable s) = MAXNPROC \<and>
     (\<forall>i \<in> set [0..<MAXNPROC]. pid (ptable s ! i) = i \<and>
       (state (ptable s ! i) = P_RUNNABLE \<longrightarrow> check_process_registers (ptable s ! i) = Inr ()
          \<and> check_pagetable (k_syms env) (memory (phys s)) (pagetable (ptable s ! i)) = Inr ()))"

text \<open>Repeated scheduling: every process that is resumed yields at once.\<close>

primrec schedules :: "kenv \<Rightarrow> nat \<Rightarrow> 's kernel_scheme \<Rightarrow> (unit, 's kernel_scheme) kres" where
  "schedules env 0 s = exit_k (ReturnTo (current s)) s"
| "schedules env (Suc n) s =
     (case schedule env s of
        Some (Inr (Exit (ReturnTo p), s)) \<Rightarrow> schedules env n s
      | r \<Rightarrow> r)"

lemma schedule_next:
  fixes s :: "'s kernel_scheme"
  assumes "quiet (k_dev env)" "runnable_ok env s" "current s < MAXNPROC"
    "next_runnable (ptable s) MAXNPROC (current s) = Some r" "r < MAXNPROC" "state (ptable s ! r) = P_RUNNABLE"
  shows "\<exists>tr. (schedule env s :: ('a, 's kernel_scheme) kres) = exit_k (ReturnTo r) ((set_trace tr s)\<lparr>current := r\<rparr>)"
proof -
  have "pid (current_proc s) = current s" using assms(2,3) by (simp add: runnable_ok_def)
  then obtain tr where "(schedule env s :: ('a, 's kernel_scheme) kres) = run env r (set_trace tr s)"
    using schedule_loop_next [OF assms(1,4), of 1] by (auto simp: schedule_def)
  then show ?thesis
    using assms(2,5,6) by (intro exI [of _ tr]) (simp add: run_returns runnable_ok_def)
qed

lemma schedules_reach:
  fixes s :: "'s kernel_scheme"
  assumes "quiet (k_dev env)" "runnable_ok env s" "current s < MAXNPROC" "q < MAXNPROC" "state (ptable s ! q) = P_RUNNABLE"
  shows "\<exists>n tr. n < distance (current s) q
    \<and> schedules env (Suc n) s = exit_k (ReturnTo q) ((set_trace tr s)\<lparr>current := q\<rparr>)"
  using assms(2-)
proof (induction "distance (current s) q" arbitrary: s rule: less_induct)
  case less
  obtain r where r: "next_runnable (ptable s) MAXNPROC (current s) = Some r" "r < MAXNPROC"
    "state (ptable s ! r) = P_RUNNABLE" "r = q \<or> distance r q < distance (current s) q"
    using next_runnable_exists [OF less.prems(2-4) distance_le] .
  obtain tr where s: "(schedule env s :: (unit, 's kernel_scheme) kres) = exit_k (ReturnTo r) ((set_trace tr s)\<lparr>current := r\<rparr>)"
    using schedule_next [OF assms(1) less.prems(1,2) r(1-3)] by blast
  let ?s = "(set_trace tr s)\<lparr>current := r\<rparr>"
  show ?case
  proof (cases "r = q")
    case True
    then have "schedules env (Suc 0) s = exit_k (ReturnTo q) ((set_trace tr s)\<lparr>current := q\<rparr>)"
      using s by (simp add: exit_k_def)
    moreover have "0 < distance (current s) q" by (simp add: distance_def)
    ultimately show ?thesis by blast
  next
    case False
    with r(4) have d: "distance (current ?s) q < distance (current s) q" by simp
    obtain n tr' where n: "n < distance (current ?s) q"
      "schedules env (Suc n) ?s = exit_k (ReturnTo q) ((set_trace tr' ?s)\<lparr>current := q\<rparr>)"
      using less.hyps [OF d] less.prems r(2) by (auto simp: runnable_ok_def)
    have "(set_trace tr' ?s)\<lparr>current := q\<rparr> = (set_trace tr' s)\<lparr>current := q\<rparr>" by (simp add: set_trace_def)
    moreover have "schedules env (Suc (Suc n)) s = schedules env (Suc n) ?s"
      using s by (simp add: exit_k_def)
    ultimately show ?thesis using n d by (intro exI [of _ "Suc n"] exI [of _ tr']) simp
  qed
qed

end
