(* ===== verification/KernelSteps.thy ===== *)
theory KernelSteps
  imports Kernel
begin

text \<open>
  How the entries of the kernel (\<open>pset3/kernel.cc\<close>) end: what they keep of the process table, in
  which states they resume a process, and that the display and the keyboard check, with which every
  system call begins, complete.
\<close>

section \<open>Running a process\<close>

lemma run_result:
  fixes s :: "'s kernel_scheme"
  obtains e where "(run env p s :: ('a, 's kernel_scheme) kres) = Some (Inl e)"
  | "(run env p s :: ('a, 's kernel_scheme) kres) = exit_k (ReturnTo p) (s\<lparr>current := p\<rparr>)" "state (ptable s ! p) = P_RUNNABLE"
    "check_process_registers (ptable s ! p) = Inr ()"
    "check_pagetable (k_syms env) (memory (phys s)) (pagetable (ptable s ! p)) = Inr ()"
proof (cases "state (ptable s ! p) = P_RUNNABLE")
  case False
  then show ?thesis using that(1) by (simp add: run_def assert_k_def)
next
  case True
  show ?thesis
  proof (cases "check_process_registers (ptable s ! p)")
    case (Inl e)
    then show ?thesis using that(1) True by (simp add: run_def assert_k_def)
  next
    case regs: (Inr u)
    show ?thesis
    proof (cases "check_pagetable (k_syms env) (memory (phys s)) (pagetable (ptable s ! p))")
      case (Inl e)
      then show ?thesis using that(1) True regs by (simp add: run_def assert_k_def)
    next
      case (Inr u')
      then show ?thesis using that(2) True regs by (simp add: run_returns)
    qed
  qed
qed

section \<open>What the kernel keeps while it works\<close>

text \<open>
  Between the entry to the kernel and the choice of a process, the display, the keyboard check
  and the messages leave the process table, the current process and the tick count alone.
\<close>

definition kept :: "'s kernel_scheme \<Rightarrow> 's kernel_scheme \<Rightarrow> bool" where
  "kept s s' \<longleftrightarrow> on_screen s' \<and> ptable s' = ptable s \<and> current s' = current s \<and> ticks s' = ticks s"

lemma kept_refl: "on_screen s \<Longrightarrow> kept s s"
  by (simp add: kept_def)

lemma kept_trans: "kept s s' \<Longrightarrow> kept s' s'' \<Longrightarrow> kept s s''"
  by (simp add: kept_def)

definition keeps_on :: "'s kernel_scheme \<Rightarrow> ('a, 's kernel_scheme) kres \<Rightarrow> bool" where
  "keeps_on s r \<longleftrightarrow> stops_or_returns r \<and> (\<forall>a s'. r = Some (Inr (Next a, s')) \<longrightarrow> kept s s')"

lemma exit_not_next [simp]: "exit_k x s \<noteq> Some (Inr (Next a, s'))"
  by (simp add: exit_k_def)

lemma keeps_on_exit [simp]: "keeps_on s (exit_k x s') \<longleftrightarrow> x = PowerOff \<or> (\<exists>a. x = Restart a)"
  by (simp add: keeps_on_def)

lemma keeps_on_bind:
  assumes "keeps_on s r" "\<And>a s'. kept s s' \<Longrightarrow> keeps_on s' (f a s')"
  shows "keeps_on s (bind_k r f)"
proof (cases r rule: bind_k_cases)
  case (3 a s')
  then have s': "kept s s'" using assms(1) by (simp add: keeps_on_def return_k_def)
  then show ?thesis using assms(2) [OF s'] kept_trans [OF s'] 3 by (auto simp: keeps_on_def)
next
  case (4 x s')
  then show ?thesis using assms(1) by simp
qed (simp_all add: keeps_on_def)

lemma keeps_on_return: "kept s s' \<Longrightarrow> keeps_on s (return_k a s')"
  by (simp add: keeps_on_def return_k_def stops_or_returns_def)

lemma keeps_on_if: "keeps_on s r \<Longrightarrow> keeps_on s r' \<Longrightarrow> keeps_on s (if b then r else r')"
  by simp

lemma keeps_on_stops: "stops r \<Longrightarrow> keeps_on s r"
  by (auto simp: keeps_on_def stops_def stops_or_returns_def)

lemma no_exit_returns: "no_exit r \<Longrightarrow> stops_or_returns r"
  unfolding no_exit_def stops_or_returns_def by (metis flow.exhaust)

lemma keeps_on_ends: "stops_or_returns r \<Longrightarrow> ends_in (kept s) r \<Longrightarrow> keeps_on s r"
  by (simp add: keeps_on_def ends_in_def)

lemma drawn_kept: "drawn s s' \<Longrightarrow> kept s s'"
  by (simp add: drawn_def kept_def)

lemma viewer_frame_kept: "viewer_frame kend s s' \<Longrightarrow> kept s s'"
  by (simp add: viewer_frame_def kept_def)

lemma keeps_on_from: "kept s s' \<Longrightarrow> keeps_on s' r \<Longrightarrow> keeps_on s r"
  by (auto simp: keeps_on_def intro: kept_trans)

text \<open>The state in which \<open>memshow\<close> calls the viewer, and what it shows.\<close>

definition memshow_turn :: "'s kernel_scheme \<Rightarrow> 's kernel_scheme" where
  "memshow_turn s =
     (if last_ticks s = 0 \<or> ticks s - ucast (last_ticks s) \<ge> word_of_int (HZ div 2)
      then s\<lparr>last_ticks := ucast (ticks s), showing := (showing s + 1) mod MAXNPROC\<rparr> else s)"

lemma memshow_calls:
  obtains n p where "memshow env s = bind_k (console_memviewer env p ((memshow_turn s)\<lparr>showing := n\<rparr>)) (\<lambda>_ s.
    if p = None
    then console_printf (10 * 80 + 26) (CS_WHITE @ str ''   VIRTUAL ADDRESS SPACE'' @ [0x0A]
           @ replicate 26 0x20 @ str ''[All processes have exited]'' @ replicate 12 0x0A) [] s
    else return_k () s)"
proof (cases "memshow_search MAXNPROC (ptable (memshow_turn s)) (showing (memshow_turn s))")
  case (Pair n p)
  then show thesis
    by (intro that [where n = n and p = p]) (simp only: memshow_def memshow_turn_def [symmetric] Let_def prod.case)
qed

lemma memshow_turn_other [simp]:
  "ptable (memshow_turn s) = ptable s" "current (memshow_turn s) = current s" "ticks (memshow_turn s) = ticks s"
  "on_screen ((memshow_turn s)\<lparr>showing := n\<rparr>) = on_screen s" "phys (memshow_turn s) = phys s" "mu (memshow_turn s) = mu s"
  by (simp_all add: memshow_turn_def on_screen_def)

lemma memshow_keeps:
  fixes s :: "'s kernel_scheme"
  assumes "on_screen s"
  shows "keeps_on s (memshow env s)"
proof -
  have view: "keeps_on s (console_memviewer env p s)" if "on_screen s" for p and s :: "'s kernel_scheme"
    by (intro keeps_on_ends no_exit_returns no_exit_viewer ends_in_weaken [OF console_memviewer_frame [OF that]] viewer_frame_kept)
  have msg: "keeps_on s (if p = None then console_printf cpos fmt args s else return_k () s)"
    if "on_screen s" for p :: "proc option" and cpos fmt args and s :: "'s kernel_scheme"
    by (intro keeps_on_if keeps_on_ends console_printf_returns keeps_on_return [OF kept_refl [OF that]]
        ends_in_weaken [OF console_printf_drawn [OF that]] drawn_kept)
  obtain n p where m: "memshow env s = bind_k (console_memviewer env p ((memshow_turn s)\<lparr>showing := n\<rparr>)) (\<lambda>_ s.
    if p = None
    then console_printf (10 * 80 + 26) (CS_WHITE @ str ''   VIRTUAL ADDRESS SPACE'' @ [0x0A]
           @ replicate 26 0x20 @ str ''[All processes have exited]'' @ replicate 12 0x0A) [] s
    else return_k () s)" by (rule memshow_calls)
  have "kept s ((memshow_turn s)\<lparr>showing := n\<rparr>)" using assms by (simp add: kept_def)
  then show ?thesis
    unfolding m using assms
    by (intro keeps_on_from [OF _ keeps_on_bind [OF view msg]]) (simp_all add: kept_def)
qed

lemma check_keyboard_next:
  assumes "check_keyboard env s = Some (Inr (Next c, s'))"
  obtains kb tr where "s' = set_trace tr (s\<lparr>keyboard := kb\<rparr>)"
proof -
  have "(poweroff (k_dev env) t :: (int, _) kres) \<noteq> Some (Inr (Next c, s'))"
    "(soft_reboot env l t :: (int, _) kres) \<noteq> Some (Inr (Next c, s'))" for l t
    using poweroff_stops [of "k_dev env" t] soft_reboot_stops [of env l t] by (auto simp: stops_def)
  then show thesis
    using assms that by (auto simp: check_keyboard_def Let_def return_k_def split: prod.splits if_splits)
qed

lemma check_keyboard_kept:
  assumes "on_screen s"
  shows "keeps_on s (check_keyboard env s)"
  using assms
  by (auto simp: keeps_on_def kept_def on_screen_def set_trace_def elim!: check_keyboard_next)

section \<open>How the kernel resumes a process\<close>

text \<open>The kernel resumes \<open>p\<close> from a state with the process table and the tick count of \<open>s\<close>.\<close>

definition resumes :: "kenv \<Rightarrow> 's kernel_scheme \<Rightarrow> nat \<Rightarrow> 's kernel_scheme \<Rightarrow> bool" where
  "resumes env s p s' \<longleftrightarrow>
     p < MAXNPROC \<and> current s' = p \<and> ptable s' = ptable s \<and> ticks s' = ticks s \<and> on_screen s'
     \<and> state (ptable s ! p) = P_RUNNABLE \<and> check_process_registers (ptable s ! p) = Inr ()
     \<and> check_pagetable (k_syms env) (memory (phys s')) (pagetable (ptable s ! p)) = Inr ()"

text \<open>Code that ends in no other way than resuming a process, power off or reboot.\<close>

definition resumed :: "kenv \<Rightarrow> 's kernel_scheme \<Rightarrow> ('a, 's kernel_scheme) kres \<Rightarrow> bool" where
  "resumed env s r \<longleftrightarrow>
     (\<forall>x s'. r = Some (Inr (x, s')) \<longrightarrow>
        x = Exit PowerOff \<or> (\<exists>a. x = Exit (Restart a)) \<or> (\<exists>p. x = Exit (ReturnTo p) \<and> resumes env s p s'))"

lemma resumed_simps [simp]:
  "resumed env s None" "resumed env s (Some (Inl e))"
  "resumed env s (exit_k x s') \<longleftrightarrow> x = PowerOff \<or> (\<exists>a. x = Restart a) \<or> (\<exists>p. x = ReturnTo p \<and> resumes env s p s')"
  by (auto simp: resumed_def exit_k_def)

lemma resumed_stops: "stops r \<Longrightarrow> resumed env s r"
  by (auto simp: resumed_def stops_def)

lemma resumed_same:
  "resumed env s r \<Longrightarrow> ptable s = ptable t \<Longrightarrow> ticks s = ticks t \<Longrightarrow> resumed env t r"
  by (simp add: resumed_def resumes_def)

lemma resumed_bind:
  assumes "keeps_on s r" "\<And>a s'. kept s s' \<Longrightarrow> resumed env s' (f a s')"
  shows "resumed env s (bind_k r f)"
proof (cases r rule: bind_k_cases)
  case (3 a s')
  then have s': "kept s s'" using assms(1) by (simp add: keeps_on_def return_k_def)
  then show ?thesis using resumed_same [OF assms(2) [OF s']] 3 by (simp add: kept_def)
next
  case (4 x s')
  then show ?thesis using assms(1) by auto
qed simp_all

lemma resumed_bind_exit:
  assumes "resumed env s r"
  shows "resumed env s (bind_k r f)"
proof (cases r rule: bind_k_cases)
  case (3 a s')
  then show ?thesis using assms by (simp add: resumed_def return_k_def)
next
  case (4 x s')
  then show ?thesis using assms by simp
qed simp_all

lemma run_resumed:
  fixes s :: "'s kernel_scheme"
  assumes "on_screen s" "p < MAXNPROC"
  shows "resumed env s (run env p s :: ('a, 's kernel_scheme) kres)"
  by (rule run_result [where 'a = 'a and env = env and p = p and s = s])
    (use assms in \<open>simp_all add: resumes_def on_screen_def\<close>)

lemma schedule_loop_resumed:
  fixes s :: "'s kernel_scheme"
  assumes "on_screen s"
  shows "resumed env s (schedule_loop env p spins s :: ('a, 's kernel_scheme) kres)"
proof (cases "schedule_loop env p spins s :: ('a, 's kernel_scheme) kres")
  case (Some r)
  have "on_screen s \<longrightarrow> resumed env s (Some r)"
  proof (rule schedule_loop.raw_induct [OF _ Some])
    fix loop :: "kenv \<Rightarrow> nat \<Rightarrow> u32 \<Rightarrow> 's kernel_scheme \<Rightarrow> ('a, 's kernel_scheme) kres"
      and env p spins r and s :: "'s kernel_scheme"
    assume ih: "\<And>env p spins s r. loop env p spins s = Some r \<Longrightarrow> on_screen s \<longrightarrow> resumed env s (Some r)"
      and r: "(let p = (p + 1) mod MAXNPROC in
        if state (ptable s ! p) = P_RUNNABLE then run env p s
        else bind_k (check_keyboard env s) (\<lambda>_ s.
             bind_k (if spins mod 4096 = 0 then memshow env s else return_k () s) (\<lambda>_ s.
             loop env p (spins + 1) s))) = Some r" (is "?body = _")
    show "on_screen s \<longrightarrow> resumed env s (Some r)"
    proof
      assume s: "on_screen s"
      have l: "resumed env s (loop env p spins s)" if "on_screen s" for p spins and s :: "'s kernel_scheme"
        using ih [of env p spins s] that by (cases "loop env p spins s") simp_all
      have "resumed env s (run env ((p + 1) mod MAXNPROC) s :: ('a, 's kernel_scheme) kres)" using s by (intro run_resumed) simp_all
      moreover have "resumed env s (bind_k (check_keyboard env s) (\<lambda>_ s.
             bind_k (if spins mod 4096 = 0 then memshow env s else return_k () s) (\<lambda>_ s.
             loop env ((p + 1) mod MAXNPROC) (spins + 1) s)))"
        using s
        by (intro resumed_bind [OF check_keyboard_kept] resumed_bind [OF keeps_on_if] memshow_keeps
            keeps_on_return kept_refl l) (simp_all add: kept_def)
      ultimately have "resumed env s ?body" by (simp add: Let_def)
      then show "resumed env s (Some r)" by (simp only: r)
    qed
  qed
  then show ?thesis using assms Some by simp
qed simp

lemma schedule_resumed:
  fixes s :: "'s kernel_scheme"
  shows "on_screen s \<Longrightarrow> resumed env s (schedule env s :: ('a, 's kernel_scheme) kres)"
  by (simp add: schedule_def schedule_loop_resumed)

text \<open>Without a runnable process \<open>schedule\<close> never resumes one.\<close>

lemma schedule_idle:
  fixes s :: "'s kernel_scheme"
  assumes "on_screen s" "\<forall>p < MAXNPROC. state (ptable s ! p) \<noteq> P_RUNNABLE"
  shows "stops (schedule env s :: ('a, 's kernel_scheme) kres)"
  using schedule_resumed [OF assms(1), of env, where 'a = 'a] assms(2) by (auto simp: resumed_def stops_def resumes_def)

section \<open>The effect of exceptions and system calls on the process table\<close>

text \<open>A timer interrupt counts a tick, a page fault of a process marks it as faulted.\<close>

definition exception_effect :: "regstate \<Rightarrow> 's kernel_scheme \<Rightarrow> 's kernel_scheme" where
  "exception_effect rg s =
     (let s = save_regs rg s in
      if reg_intno rg = of_nat (INT_IRQ + IRQ_TIMER) then s\<lparr>ticks := ticks s + 1\<rparr>
      else if reg_intno rg = of_nat INT_PF then set_proc (current s) ((current_proc s)\<lparr>state := P_FAULTED\<rparr>) s
      else s)"

definition syscall_effect :: "regstate \<Rightarrow> 's kernel_scheme \<Rightarrow> 's kernel_scheme" where
  "syscall_effect rg s = save_regs (if reg_rax rg = SYSCALL_YIELD then rg\<lparr>reg_rax := 0\<rparr> else rg) s"

lemma set_proc_other [simp]:
  "ptable (set_proc p pr s) = (ptable s)[p := pr]" "current (set_proc p pr s) = current s"
  "ticks (set_proc p pr s) = ticks s" "on_screen (set_proc p pr s) = on_screen s" "phys (set_proc p pr s) = phys s"
  by (simp_all add: set_proc_def on_screen_def)

lemma save_regs_other [simp]:
  "current (save_regs rg s) = current s" "ticks (save_regs rg s) = ticks s"
  "on_screen (save_regs rg s) = on_screen s" "phys (save_regs rg s) = phys s"
  "ptable (save_regs rg s) = (ptable s)[current s := (current_proc s)\<lparr>regs := rg\<rparr>]"
  by (simp_all add: save_regs_def)

lemma show_cursor_kept: "on_screen s \<Longrightarrow> kept s (console_show_cursor s)"
  by (auto simp: kept_def console_show_cursor_def on_screen_def set_trace_def Let_def)

lemma error_report_kept: "on_screen s \<Longrightarrow> keeps_on s (error_report dev fmt args s)"
  by (intro keeps_on_ends error_report_returns ends_in_weaken [OF error_report_drawn] drawn_kept)

lemma log_backtrace_kept: "on_screen s \<Longrightarrow> keeps_on s (log_print_backtrace env p s)"
  unfolding log_print_backtrace_def log_backtrace_def
  by (rule keeps_on_ends) (auto intro!: returns_bind_ro ends_in_bind_ro simp: kept_def on_screen_def set_mem_def split: prod.split)

lemma resumed_then:
  assumes "keeps_on s r" "\<And>a s'. kept s s' \<Longrightarrow> resumed env t (f a s')"
  shows "resumed env t (bind_k r f)"
proof (cases r rule: bind_k_cases)
  case (3 a s')
  then have "kept s s'" using assms(1) by (simp add: keeps_on_def return_k_def)
  then show ?thesis using assms(2) 3 by simp
next
  case (4 x s')
  then show ?thesis using assms(1) by auto
qed simp_all

lemma exception_timer_resumed:
  fixes s :: "'s kernel_scheme"
  assumes "on_screen s"
  shows "resumed env (s\<lparr>ticks := ticks s + 1\<rparr>) (exception_timer env s :: ('a, 's kernel_scheme) kres)"
proof -
  let ?s = "set_trace (lapic_ack (k_trace (s\<lparr>ticks := ticks s + 1\<rparr>))) (s\<lparr>ticks := ticks s + 1\<rparr>)"
  have "on_screen ?s" using assms by (simp add: on_screen_def set_trace_def)
  then have "resumed env ?s (schedule env ?s :: ('a, 's kernel_scheme) kres)" by (rule schedule_resumed)
  then have "resumed env (s\<lparr>ticks := ticks s + 1\<rparr>) (schedule env ?s :: ('a, 's kernel_scheme) kres)"
    by (rule resumed_same) (simp_all add: set_trace_def)
  then show ?thesis by (simp add: exception_timer_def)
qed

text \<open>A page fault of a process: the messages, then the process is marked as faulted.\<close>

definition faulted :: "'s kernel_scheme \<Rightarrow> 's kernel_scheme" where
  "faulted s = set_proc (current s) ((current_proc s)\<lparr>state := P_FAULTED\<rparr>) s"

lemma page_fault_keeps:
  assumes "on_screen s" "reg_errcode (regs (current_proc s)) AND PTE_U \<noteq> 0"
  shows "stops_or_returns (exception_page_fault env s)"
    "\<And>a s'. exception_page_fault env s = Some (Inr (Next a, s')) \<Longrightarrow> kept (faulted s) s'"
proof -
  obtain a tr where a: "rdcr2 (k_dev env) (k_trace s) = (a, tr)" by (rule prod.exhaust)
  let ?s = "set_trace tr s"
  obtain args where eq: "exception_page_fault env s =
      bind_k (error_report (k_dev env) (str ''PAGE FAULT on %p (pid %d, %s %s, rip=%p)!'' @ [0x0A]) args ?s) (\<lambda>_ s.
      bind_k (log_print_backtrace env (current_proc s) s) (\<lambda>_ s. return_k () (faulted s)))"
    using assms(2) a
    by (intro that [of "[a, of_nat (pid (current_proc s)),
          k_lit env (if reg_errcode (regs (current_proc s)) AND PTE_W \<noteq> 0 then ''write'' else ''read''),
          k_lit env (if reg_errcode (regs (current_proc s)) AND PTE_P \<noteq> 0 then ''protection problem'' else ''missing page''),
          reg_rip (regs (current_proc s))]"])
      (simp add: exception_page_fault_def faulted_def Let_def)
  have on: "on_screen ?s" using assms(1) by (simp add: on_screen_def set_trace_def)
  then show "stops_or_returns (exception_page_fault env s)"
    unfolding eq by (intro returns_bind_k) simp_all
  fix u s' assume "exception_page_fault env s = Some (Inr (Next u, s'))"
  then obtain u1 s1 u2 s2 where
    1: "error_report (k_dev env) (str ''PAGE FAULT on %p (pid %d, %s %s, rip=%p)!'' @ [0x0A]) args ?s = Some (Inr (Next u1, s1))" and
    2: "log_print_backtrace env (current_proc s1) s1 = Some (Inr (Next u2, s2))" and 3: "s' = faulted s2"
    unfolding eq by (auto simp: bind_k_Next_iff return_k_def)
  have k1: "kept ?s s1" using error_report_kept [OF on] 1 by (simp add: keeps_on_def)
  then have "kept s1 s2" using log_backtrace_kept 2 by (auto simp: keeps_on_def kept_def)
  with k1 3 show "kept (faulted s) s'" by (simp add: kept_def faulted_def)
qed

lemma exception_resumed:
  fixes s :: "'s kernel_scheme"
  assumes "on_screen s" "current s < length (ptable s)"
  shows "resumed env (exception_effect rg s) (exception env rg s :: ('a, 's kernel_scheme) kres)"
proof -
  let ?s0 = "save_regs rg s" and ?t = "exception_effect rg s"
  let ?act = "\<lambda>s. if reg_intno (regs (current_proc s)) = of_nat (INT_IRQ + IRQ_TIMER) then exception_timer env s
         else if reg_intno (regs (current_proc s)) = of_nat INT_PF then exception_page_fault env s
         else proc_panic env (current_proc s) (Some (str ''Unhandled exception %d (rip=%p)!'' @ [0x0A]))
                [ucast (reg_intno (regs (current_proc s))), reg_rip (regs (current_proc s))] s"
  let ?rest = "\<lambda>s. if state (current_proc s) = P_RUNNABLE then run env (current s) s else schedule env s"
  have regs: "regs (current_proc s1) = rg" "current s1 = current s" "ptable s1 = ptable ?s0" "ticks s1 = ticks s"
    "on_screen s1" if "kept ?s0 s1" for s1
    using that assms(2) by (simp_all add: kept_def)
  have act: "resumed env ?t (bind_k (?act s1) (\<lambda>_. ?rest) :: ('a, 's kernel_scheme) kres)" if k: "kept ?s0 s1" for s1
  proof -
    note r = regs [OF k]
    consider (timer) "reg_intno rg = of_nat (INT_IRQ + IRQ_TIMER)" | (pf) "reg_intno rg = of_nat INT_PF"
      | (other) "reg_intno rg \<noteq> of_nat (INT_IRQ + IRQ_TIMER)" "reg_intno rg \<noteq> of_nat INT_PF" by blast
    then show ?thesis
    proof cases
      case timer
      have "resumed env ?t (exception_timer env s1 :: (unit, 's kernel_scheme) kres)"
        by (rule resumed_same [OF exception_timer_resumed [OF r(5)]])
          (use timer r in \<open>simp_all add: exception_effect_def Let_def\<close>)
      then show ?thesis using timer r(1) by (simp add: resumed_bind_exit)
    next
      case pf
      show ?thesis
      proof (cases "reg_errcode rg AND PTE_U = 0")
        case True
        then have "stops (exception_page_fault env s1)"
          using r(1) by (auto simp: exception_page_fault_def Let_def split: prod.split)
        then show ?thesis using pf r(1) by (simp add: resumed_bind_exit resumed_stops)
      next
        case False
        then have u: "reg_errcode (regs (current_proc s1)) AND PTE_U \<noteq> 0" using r(1) by simp
        note pk = page_fault_keeps [OF r(5) u, of env]
        have t: "ptable ?t = ptable (faulted s1)" "ticks ?t = ticks (faulted s1)"
          using pf r by (simp_all add: exception_effect_def faulted_def Let_def)
        have "resumed env ?t (bind_k (exception_page_fault env s1) (\<lambda>_. ?rest) :: ('a, 's kernel_scheme) kres)"
        proof (cases "exception_page_fault env s1" rule: bind_k_cases)
          case (3 a s')
          then have s': "kept (faulted s1) s'" using pk(2) by (simp add: return_k_def)
          then have "state (current_proc s') \<noteq> P_RUNNABLE"
            using r(2,3) assms(2) by (simp add: kept_def faulted_def)
          moreover have "resumed env ?t (schedule env s' :: ('a, 's kernel_scheme) kres)"
            by (rule resumed_same [OF schedule_resumed]) (use s' t in \<open>simp_all add: kept_def\<close>)
          ultimately show ?thesis using 3 by simp
        next
          case (4 x s')
          then show ?thesis using pk(1) by auto
        qed simp_all
        then show ?thesis using pf r(1) by simp
      qed
    next
      case other
      then show ?thesis using r(1) by (simp add: resumed_bind_exit resumed_stops)
    qed
  qed
  have on: "on_screen (console_show_cursor ?s0)" and k0: "kept ?s0 (console_show_cursor ?s0)"
    using show_cursor_kept [of ?s0] assms(1) by (simp_all add: kept_def)
  have "resumed env ?t (bind_k (if reg_intno rg \<noteq> of_nat INT_PF \<or> reg_errcode rg AND PTE_U \<noteq> 0
              then memshow env (console_show_cursor ?s0) else return_k () (console_show_cursor ?s0)) (\<lambda>_ s.
      bind_k (check_keyboard env s) (\<lambda>_ s. bind_k (?act s) (\<lambda>_. ?rest))) :: ('a, 's kernel_scheme) kres)"
  proof (rule resumed_then)
    show "keeps_on (console_show_cursor ?s0) (if reg_intno rg \<noteq> of_nat INT_PF \<or> reg_errcode rg AND PTE_U \<noteq> 0
              then memshow env (console_show_cursor ?s0) else return_k () (console_show_cursor ?s0))"
      by (intro keeps_on_if memshow_keeps keeps_on_return kept_refl on)
    fix u s1 assume "kept (console_show_cursor ?s0) s1"
    then have k1: "kept ?s0 s1" using k0 kept_trans by blast
    show "resumed env ?t (bind_k (check_keyboard env s1) (\<lambda>_ s. bind_k (?act s) (\<lambda>_. ?rest)) :: ('a, 's kernel_scheme) kres)"
      by (rule resumed_then [OF check_keyboard_kept [OF regs(5) [OF k1]]]) (rule act, erule kept_trans [OF k1])
  qed
  then show ?thesis by (simp add: exception_def Let_def)
qed

text \<open>A system call resumes another process, answers its caller, or stops.\<close>

definition answers :: "kenv \<Rightarrow> 's kernel_scheme \<Rightarrow> ('a, 's kernel_scheme) kres \<Rightarrow> bool" where
  "answers env s r \<longleftrightarrow>
     (\<forall>x s'. r = Some (Inr (x, s')) \<longrightarrow>
        x = Exit PowerOff \<or> (\<exists>a. x = Exit (Restart a)) \<or> (\<exists>p. x = Exit (ReturnTo p) \<and> resumes env s p s')
        \<or> (\<exists>v. x = Next v \<and> kept s s'))"

lemma answers_simps [simp]:
  "answers env s None" "answers env s (Some (Inl e))"
  "answers env s (return_k v s') \<longleftrightarrow> kept s s'"
  "answers env s (exit_k x s') \<longleftrightarrow> x = PowerOff \<or> (\<exists>a. x = Restart a) \<or> (\<exists>p. x = ReturnTo p \<and> resumes env s p s')"
  by (auto simp: answers_def exit_k_def return_k_def)

lemma answers_stops: "stops r \<Longrightarrow> answers env s r"
  by (auto simp: answers_def stops_def)

lemma answers_resumed: "resumed env s r \<Longrightarrow> answers env s r"
  by (auto simp: answers_def resumed_def)

lemma answers_then:
  assumes "keeps_on s r" "\<And>a s'. kept s s' \<Longrightarrow> answers env t (f a s')"
  shows "answers env t (bind_k r f)"
proof (cases r rule: bind_k_cases)
  case (3 a s')
  then have "kept s s'" using assms(1) by (simp add: keeps_on_def return_k_def)
  then show ?thesis using assms(2) 3 by simp
next
  case (4 x s')
  then show ?thesis using assms(1) by auto
qed simp_all

lemma physpage_claim_cases:
  obtains e where "physpage_claim a s = Some (Inl e)"
  | "physpage_claim a s =
      return_k () (s\<lparr>phys := (phys s)\<lparr>refcount := (refcount (phys s))(unat (a div PAGESIZE) := 1)\<rparr>\<rparr>)"
    "unat (a div PAGESIZE) < NPAGES" "refcount (phys s) (unat (a div PAGESIZE)) = 0"
  by (cases "unat (a div PAGESIZE) \<ge> NPAGES"; cases "refcount (phys s) (unat (a div PAGESIZE)) = 0")
    (auto simp: physpage_claim_def Let_def)

definition zero_page :: "addr \<Rightarrow> physmem \<Rightarrow> physmem" where
  "zero_page a ph = \<lparr>memory = (\<lambda>x. if x - a < PAGESIZE then 0 else memory ph x),
     refcount = (refcount ph)(unat (a div PAGESIZE) := 1)\<rparr>"

lemma page_alloc_cases:
  fixes s :: "'s machine_scheme"
  obtains e where "syscall_page_alloc a s = Some (Inl e)"
  | "syscall_page_alloc a s = return_k 0 (s\<lparr>phys := zero_page a (phys s)\<rparr>)"
    "unat (a div PAGESIZE) < NPAGES" "refcount (phys s) (unat (a div PAGESIZE)) = 0"
proof (rule physpage_claim_cases [of a s])
  fix e assume "physpage_claim a s = Some (Inl e)"
  then show thesis by (intro that(1)) (simp add: syscall_page_alloc_def)
next
  let ?s = "s\<lparr>phys := (phys s)\<lparr>refcount := (refcount (phys s))(unat (a div PAGESIZE) := 1)\<rparr>\<rparr>"
  assume c: "physpage_claim a s = return_k () ?s"
    "unat (a div PAGESIZE) < NPAGES" "refcount (phys s) (unat (a div PAGESIZE)) = 0"
  have "set_mem (fst (memset (memory (phys ?s)) a 0 PAGESIZE)) ?s = s\<lparr>phys := zero_page a (phys s)\<rparr>"
    by (simp add: set_mem_def zero_page_def memset_apply fun_eq_iff)
  then show thesis using c by (intro that(2)) (simp_all add: syscall_page_alloc_def)
qed

lemma syscall_answers:
  fixes s :: "'s kernel_scheme"
  assumes "on_screen s" "current s < length (ptable s)"
  shows "answers env (syscall_effect rg s) (syscall env rg s)"
proof -
  let ?s0 = "save_regs rg s" and ?t = "syscall_effect rg s"
  let ?act = "\<lambda>s. let pr = current_proc s; rax = reg_rax (regs pr) in
     if rax = SYSCALL_PANIC then user_panic env pr s
     else if rax = SYSCALL_GETPID then return_k (of_nat (pid pr) :: u64) s
     else if rax = SYSCALL_YIELD
     then schedule env (set_proc (current s) (pr\<lparr>regs := (regs pr)\<lparr>reg_rax := 0\<rparr>\<rparr>) s)
     else if rax = SYSCALL_PAGE_ALLOC
     then bind_k (syscall_page_alloc (reg_rdi (regs pr)) s) (\<lambda>r s. return_k (scast r) s)
     else proc_panic env pr (Some (str ''Unhandled system call %ld (pid=%d, rip=%p)!'' @ [0x0A]))
            [rax, of_nat (pid pr), reg_rip (regs pr)] s"
  have act: "answers env ?t (?act s1)" if k: "kept ?s0 s1" for s1
  proof -
    have r: "regs (current_proc s1) = rg" "current s1 = current s" "ptable s1 = ptable ?s0" "ticks s1 = ticks s"
      "on_screen s1" using k assms(2) by (simp_all add: kept_def)
    consider "reg_rax rg = SYSCALL_GETPID" | (yield) "reg_rax rg = SYSCALL_YIELD"
      | (alloc) "reg_rax rg = SYSCALL_PAGE_ALLOC"
      | (other) "reg_rax rg \<noteq> SYSCALL_GETPID" "reg_rax rg \<noteq> SYSCALL_YIELD" "reg_rax rg \<noteq> SYSCALL_PAGE_ALLOC" by blast
    then show ?thesis
    proof cases
      case 1
      then show ?thesis using r k by (simp add: syscall_effect_def)
    next
      case yield
      let ?s1 = "set_proc (current s1) ((current_proc s1)\<lparr>regs := (regs (current_proc s1))\<lparr>reg_rax := 0\<rparr>\<rparr>) s1"
      have "resumed env ?t (schedule env ?s1 :: (u64, 's kernel_scheme) kres)"
        by (rule resumed_same [OF schedule_resumed]) (use yield r assms(2) in \<open>simp_all add: syscall_effect_def\<close>)
      from answers_resumed [OF this] show ?thesis using yield r(1) by simp
    next
      case alloc
      have "kept ?t (s1\<lparr>phys := ph\<rparr>)" for ph
        using alloc k by (simp add: kept_def syscall_effect_def on_screen_def)
      then have "answers env ?t (bind_k (syscall_page_alloc a s1) (\<lambda>r s. return_k (scast r) s))" for a
        by (cases a s1 rule: page_alloc_cases) simp_all
      then show ?thesis using alloc r(1) by simp
    next
      case other
      then show ?thesis using r(1) by (simp add: answers_stops Let_def)
    qed
  qed
  have on: "on_screen (console_show_cursor ?s0)" and k0: "kept ?s0 (console_show_cursor ?s0)"
    using show_cursor_kept [of ?s0] assms(1) by (simp_all add: kept_def)
  have "answers env ?t (bind_k (memshow env (console_show_cursor ?s0)) (\<lambda>_ s. bind_k (check_keyboard env s) (\<lambda>_. ?act)))"
  proof (rule answers_then [OF memshow_keeps [OF on]])
    fix u s1 assume "kept (console_show_cursor ?s0) s1"
    then have k1: "kept ?s0 s1" using k0 kept_trans by blast
    then have "on_screen s1" by (simp add: kept_def)
    then show "answers env ?t (bind_k (check_keyboard env s1) (\<lambda>_. ?act))"
      by (rule answers_then [OF check_keyboard_kept]) (rule act, erule kept_trans [OF k1])
  qed
  then show ?thesis by (simp add: syscall_def Let_def)
qed

section \<open>Calls that complete\<close>

text \<open>
  \<open>completes Q r\<close>: \<open>r\<close> ends, in a failed assertion, power off, a reboot, or a return to the
  caller with \<open>Q\<close>.
\<close>

definition completes :: "('a \<Rightarrow> 's \<Rightarrow> bool) \<Rightarrow> ('a, 's) kres \<Rightarrow> bool" where
  "completes Q r \<longleftrightarrow> r \<noteq> None \<and>
     (\<forall>x s. r = Some (Inr (x, s)) \<longrightarrow> (\<exists>a. x = Next a \<and> Q a s) \<or> x = Exit PowerOff \<or> (\<exists>a. x = Exit (Restart a)))"

lemma completes_simps [simp]:
  "completes Q (Some (Inl e))" "completes Q (return_k a s) \<longleftrightarrow> Q a s"
  "completes Q (exit_k x s) \<longleftrightarrow> x = PowerOff \<or> (\<exists>a. x = Restart a)"
  by (auto simp: completes_def return_k_def exit_k_def)

lemma completesI:
  assumes "r \<noteq> None" "stops_or_returns r" "\<And>a s. r = Some (Inr (Next a, s)) \<Longrightarrow> Q a s"
  shows "completes Q r"
  unfolding completes_def using assms(1,2) assms(3) by (force simp: stops_or_returns_def)

lemma completes_bind:
  assumes "completes P r" "\<And>a s. P a s \<Longrightarrow> completes Q (f a s)"
  shows "completes Q (bind_k r f)"
proof (cases r rule: bind_k_cases)
  case (3 a s)
  then show ?thesis using assms by simp
next
  case (4 x s)
  then show ?thesis using assms(1) by auto
qed (use assms(1) in \<open>simp_all add: completes_def\<close>)

lemma draws_completes:
  assumes "draws s r" "\<And>s'. drawn s s' \<Longrightarrow> Q s'" "no_exit r"
  shows "completes (\<lambda>_. Q) r"
  using assms
  by (cases r rule: bind_k_cases) (auto simp: draws_def no_exit_def exit_k_def)

text \<open>The state after the display and the keyboard check.\<close>

definition entered :: "kenv \<Rightarrow> 's kernel_scheme \<Rightarrow> 's kernel_scheme \<Rightarrow> bool" where
  "entered env s s' \<longleftrightarrow> kept s s' \<and> viewer_memory (kernel_end (k_syms env)) s s' \<and> viewer_ready env s'"

lemma entered_drawn: "entered env s s' \<Longrightarrow> drawn s' s'' \<Longrightarrow> entered env s s''"
  using drawn_drawable [of s' s'' env]
  by (auto simp: entered_def kept_def drawn_def viewer_memory_def viewer_ready_def viewer_page_def)

lemma viewer_ready_turn: "viewer_ready env ((memshow_turn s)\<lparr>showing := n\<rparr>) = viewer_ready env s"
  by (simp add: viewer_ready_def drawable_def viewer_page_def)

lemma viewer_memory_turn: "viewer_memory kend ((memshow_turn s)\<lparr>showing := n\<rparr>) s' = viewer_memory kend s s'"
  by (simp add: viewer_memory_def)

lemma memshow_completes:
  fixes s :: "'s kernel_scheme"
  assumes "viewer_ready env s"
  shows "completes (\<lambda>_. entered env s) (memshow env s)"
proof -
  obtain n p where m: "memshow env s = bind_k (console_memviewer env p ((memshow_turn s)\<lparr>showing := n\<rparr>)) (\<lambda>_ s.
    if p = None
    then console_printf (10 * 80 + 26) (CS_WHITE @ str ''   VIRTUAL ADDRESS SPACE'' @ [0x0A]
           @ replicate 26 0x20 @ str ''[All processes have exited]'' @ replicate 12 0x0A) [] s
    else return_k () s)" by (rule memshow_calls)
  let ?s = "(memshow_turn s)\<lparr>showing := n\<rparr>"
  have ready: "viewer_ready env ?s" using assms by (simp only: viewer_ready_turn)
  have frame: "entered env s s'" if "viewer_frame (kernel_end (k_syms env)) ?s s'" for s'
    using viewer_frame_kept [OF that] viewer_frame_ready [OF that ready] that
    by (simp add: entered_def kept_def viewer_frame_def viewer_memory_turn)
  have view: "completes (\<lambda>_. entered env s) (console_memviewer env p ?s)"
    using console_memviewer_result [OF ready, of p] frame by (auto simp: completes_def return_k_def)
  have msg: "completes (\<lambda>_. entered env s) (console_printf cpos (CS_WHITE @ str ''   VIRTUAL ADDRESS SPACE'' @ [0x0A]
           @ replicate 26 0x20 @ str ''[All processes have exited]'' @ replicate 12 0x0A) [] s')"
    if s': "entered env s s'" for cpos s'
  proof -
    have d: "drawable env s'" using s' by (simp add: entered_def viewer_ready_def)
    have "draws s' (console_printf cpos (CS_WHITE @ str ''   VIRTUAL ADDRESS SPACE'' @ [0x0A]
           @ replicate 26 0x20 @ str ''[All processes have exited]'' @ replicate 12 0x0A) [] s')"
      by (rule draws_console_printf [OF printable_plain d]) (simp add: CS_WHITE_def str_def)
    then show ?thesis
      using entered_drawn [OF s'] by (rule draws_completes) simp_all
  qed
  show ?thesis
    unfolding m
    by (rule completes_bind [OF view])
      (cases "p = None"; simp only: msg if_True if_False completes_simps refl option.distinct)
qed

lemma poweroff_ends: "on_screen s \<Longrightarrow> \<exists>r. poweroff dev s = Some r"
proof -
  assume s: "on_screen s"
  let ?fmt = "0x1B # str ''[41;1mCannot power off!'' @ [0x0A]"
  have "\<exists>r. console_printf (24 * 80) ?fmt [] (set_trace tr s) = Some r" for tr
    using s by (intro console_printf_ends printable_plain) (simp_all add: str_def on_screen_def set_trace_def)
  then show ?thesis
    unfolding poweroff_def
    by (auto intro!: bind_ro_some bind_k_some simp: exit_k_def split: prod.split)
qed

lemma check_keyboard_completes:
  assumes "viewer_ready env s"
  shows "completes (\<lambda>_ s'. kept s s' \<and> viewer_ready env s' \<and> phys s' = phys s \<and> mu s' = mu s) (check_keyboard env s)"
proof -
  have on: "on_screen s" using assms by (simp add: viewer_ready_def drawable_def)
  have "\<exists>r. poweroff dev (set_trace tr (s\<lparr>keyboard := kb\<rparr>)) = Some r" for dev tr kb
    using on by (intro poweroff_ends) (simp add: on_screen_def set_trace_def)
  then have "check_keyboard env s \<noteq> None"
    by (auto simp: check_keyboard_def soft_reboot_def assert_k_def Let_def return_k_def exit_k_def split: prod.split)
  moreover have "kept s s' \<and> viewer_ready env s' \<and> phys s' = phys s \<and> mu s' = mu s"
    if "check_keyboard env s = Some (Inr (Next c, s'))" for c s'
    using that assms on
    by (auto elim!: check_keyboard_next simp: kept_def viewer_ready_def drawable_def
        viewer_page_def on_screen_def set_trace_def)
  ultimately show ?thesis using check_keyboard_returns by (intro completesI)
qed

text \<open>The entry to a system call.\<close>

lemma viewer_ready_saved:
  "viewer_ready env s \<Longrightarrow> viewer_ready env (console_show_cursor (save_regs rg s))"
  by (simp add: viewer_ready_def drawable_def viewer_page_def on_screen_def console_show_cursor_def save_regs_def
      set_proc_def set_trace_def Let_def)

lemma entry_completes:
  assumes "viewer_ready env s"
  shows "completes (\<lambda>_. entered env (save_regs rg s))
    (bind_k (memshow env (console_show_cursor (save_regs rg s))) (\<lambda>_. check_keyboard env))"
proof -
  let ?s = "console_show_cursor (save_regs rg s)"
  have on: "on_screen s" using assms by (simp add: viewer_ready_def drawable_def)
  have k: "kept (save_regs rg s) ?s" using on by (intro show_cursor_kept) simp
  have e: "phys ?s = phys (save_regs rg s)" "mu ?s = mu (save_regs rg s)"
    by (simp_all add: console_show_cursor_def set_trace_def Let_def)
  show ?thesis
  proof (rule completes_bind [OF memshow_completes [OF viewer_ready_saved [OF assms]]])
    fix u s1 assume s1: "entered env ?s s1"
    then have "viewer_ready env s1" by (simp add: entered_def)
    from check_keyboard_completes [OF this] s1 k e
    show "completes (\<lambda>_. entered env (save_regs rg s)) (check_keyboard env s1)"
      by (auto simp: completes_def entered_def kept_def viewer_memory_def)
  qed
qed

end
