(* ===== verification/Running.thy ===== *)
theory Running
  imports KernelSteps
begin

text \<open>
  The running system (\<open>pset3/kernel.cc\<close>): a step is a change of user memory, an exception or a
  system call that resumes a process, or a system call that answers its caller. The theorems are the
  invariant of the process table from boot on, the isolation of faults, preemption, the answers to
  system calls and the fairness of the scheduler.
\<close>

section \<open>The running system\<close>

definition table_ok :: "'s kernel_scheme \<Rightarrow> bool" where
  "table_ok s \<longleftrightarrow> length (ptable s) = MAXNPROC \<and> (\<forall>i < MAXNPROC. pid (ptable s ! i) = i)
     \<and> state (ptable s ! 0) = P_FREE"

definition kernel_ok :: "'s kernel_scheme \<Rightarrow> bool" where
  "kernel_ok s \<longleftrightarrow> on_screen s \<and> table_ok s \<and> current s < MAXNPROC \<and> current s \<noteq> 0
     \<and> state (current_proc s) = P_RUNNABLE"

text \<open>User programs change memory outside the kernel image.\<close>

inductive kernel_step :: "kenv \<Rightarrow> kernel \<Rightarrow> kernel \<Rightarrow> bool" for env where
  user_memory: "kernel_step env s (set_mem m s)"
    if "\<forall>x. KERNEL_START_ADDR \<le> x \<and> x < kernel_end (k_syms env) \<longrightarrow> m x = memory (phys s) x"
| exception_resumes: "kernel_step env s s'"
    if "(exception env rg s :: (unit, kernel) kres) = exit_k (ReturnTo p) s'"
| syscall_resumes: "kernel_step env s s'" if "syscall env rg s = exit_k (ReturnTo p) s'"
| syscall_returns: "kernel_step env s s'" if "syscall env rg s = return_k v s'"

text \<open>What holds when the kernel resumes a process.\<close>

definition when_resumed :: "(nat \<Rightarrow> 's \<Rightarrow> bool) \<Rightarrow> ('a, 's) kres \<Rightarrow> bool" where
  "when_resumed P r \<longleftrightarrow> (\<forall>p s'. r = exit_k (ReturnTo p) s' \<longrightarrow> P p s')"

abbreviation kernel_steps :: "kenv \<Rightarrow> kernel \<Rightarrow> kernel \<Rightarrow> bool" where
  "kernel_steps env \<equiv> (kernel_step env)\<^sup>*\<^sup>*"

section \<open>The invariant\<close>

lemma table_ok_update:
  assumes "table_ok s" "ptable s' = (ptable s)[p := pr]" "pid pr = pid (ptable s ! p)" "p \<noteq> 0"
  shows "table_ok s'"
proof -
  have "pid (ptable s' ! i) = i" if "i < MAXNPROC" for i
    using assms that by (cases "i = p") (auto simp: table_ok_def)
  then show ?thesis using assms by (simp add: table_ok_def)
qed

text \<open>Both effects replace the descriptor of the current process by one with the same identifier.\<close>

lemma exception_effect_ptable:
  "ptable (exception_effect rg s) = (ptable s)[current s :=
     (current_proc s)\<lparr>regs := rg, state :=
       (if reg_intno rg = of_nat INT_PF then P_FAULTED else state (current_proc s))\<rparr>]"
  by (cases "current s < length (ptable s)") (auto simp: exception_effect_def Let_def not_less list_update_beyond)

lemma syscall_effect_ptable:
  "ptable (syscall_effect rg s) = (ptable s)[current s :=
     (current_proc s)\<lparr>regs := (if reg_rax rg = SYSCALL_YIELD then rg\<lparr>reg_rax := 0\<rparr> else rg)\<rparr>]"
  by (simp add: syscall_effect_def)

lemma exception_effect_ok: "kernel_ok s \<Longrightarrow> table_ok (exception_effect rg s)"
  by (rule table_ok_update [OF _ exception_effect_ptable]) (simp_all add: kernel_ok_def)

lemma syscall_effect_ok: "kernel_ok s \<Longrightarrow> table_ok (syscall_effect rg s)"
  by (rule table_ok_update [OF _ syscall_effect_ptable]) (simp_all add: kernel_ok_def)

lemma resumes_ok: "resumes env t p s' \<Longrightarrow> table_ok t \<Longrightarrow> kernel_ok s'"
  by (auto simp: resumes_def kernel_ok_def table_ok_def intro: gr0I)

text \<open>How a step changes the process table and the current process.\<close>

lemma kernel_step_cases:
  assumes "kernel_step env s s'" "kernel_ok s"
  obtains m where "s' = set_mem m s"
  | rg p where "resumes env (exception_effect rg s) p s'"
  | rg p where "resumes env (syscall_effect rg s) p s'"
  | rg where "kept (syscall_effect rg s) s'"
  using assms(1)
proof (cases rule: kernel_step.cases)
  case (user_memory m)
  then show thesis using that(1) by simp
next
  case (exception_resumes rg p)
  have "resumed env (exception_effect rg s) (exception env rg s :: (unit, kernel) kres)"
    using assms(2) by (intro exception_resumed) (simp_all add: kernel_ok_def table_ok_def)
  then show thesis using that(2) exception_resumes by simp
next
  case (syscall_resumes rg p)
  have "answers env (syscall_effect rg s) (syscall env rg s)"
    using assms(2) by (intro syscall_answers) (simp_all add: kernel_ok_def table_ok_def)
  then show thesis using that(3) syscall_resumes by simp
next
  case (syscall_returns rg v)
  have "answers env (syscall_effect rg s) (syscall env rg s)"
    using assms(2) by (intro syscall_answers) (simp_all add: kernel_ok_def table_ok_def)
  then show thesis using that(4) syscall_returns by simp
qed

lemma kernel_step_ok:
  assumes "kernel_step env s s'" "kernel_ok s"
  shows "kernel_ok s'"
  using assms
proof (cases rule: kernel_step_cases)
  case (1 m)
  then show ?thesis using assms(2) by (simp add: kernel_ok_def table_ok_def set_mem_def on_screen_def)
next
  case (2 rg p)
  then show ?thesis using resumes_ok exception_effect_ok [OF assms(2)] by blast
next
  case (3 rg p)
  then show ?thesis using resumes_ok syscall_effect_ok [OF assms(2)] by blast
next
  case (4 rg)
  have "table_ok (syscall_effect rg s)" using assms(2) by (rule syscall_effect_ok)
  then show ?thesis using 4 assms(2) by (auto simp: kernel_ok_def kept_def table_ok_def syscall_effect_def)
qed

lemma kernel_steps_ok: "kernel_steps env s s' \<Longrightarrow> kernel_ok s \<Longrightarrow> kernel_ok s'"
  by (induction rule: rtranclp_induct) (auto intro: kernel_step_ok)

lemma faulted_step:
  assumes "kernel_step env s s'" "kernel_ok s" "state (ptable s ! q) = P_FAULTED"
  shows "ptable s' ! q = ptable s ! q"
proof -
  have q: "current s \<noteq> q" using assms(2,3) by (auto simp: kernel_ok_def)
  from assms(1,2) show ?thesis
    by (cases rule: kernel_step_cases)
      (use q in \<open>simp_all add: set_mem_def resumes_def kept_def exception_effect_ptable syscall_effect_ptable\<close>)
qed

lemma faulted_stays:
  assumes "kernel_steps env s s'" "kernel_ok s" "state (ptable s ! q) = P_FAULTED"
  shows "current s' \<noteq> q \<and> ptable s' ! q = ptable s ! q"
  using assms(1)
proof (induction rule: rtranclp_induct)
  case base
  then show ?case using assms(2,3) by (auto simp: kernel_ok_def)
next
  case (step t u)
  have t: "kernel_ok t" using kernel_steps_ok [OF step.hyps(1) assms(2)] .
  have "ptable u ! q = ptable s ! q"
    using faulted_step [OF step.hyps(2) t, of q] step.IH assms(3) by simp
  then show ?case using kernel_step_ok [OF step.hyps(2) t] assms(3) by (auto simp: kernel_ok_def)
qed

section \<open>Boot\<close>

text \<open>The loops of the loader change physical memory only.\<close>

definition phys_only :: "'s machine_scheme \<Rightarrow> ('a, 's machine_scheme) kres \<Rightarrow> bool" where
  "phys_only s r \<longleftrightarrow> no_exit r \<and> ends_in (\<lambda>s'. \<exists>ph. s' = s\<lparr>phys := ph\<rparr>) r"

lemma phys_only_simps [simp]:
  "phys_only s None" "phys_only s (Some (Inl e))" "phys_only s (return_k a s)" "phys_only s (return_k a (s\<lparr>phys := ph\<rparr>))"
  by (auto simp: phys_only_def intro: exI [of _ "phys s"])

lemma phys_only_from: "phys_only (s\<lparr>phys := ph\<rparr>) r \<Longrightarrow> phys_only s r"
  by (auto simp: phys_only_def elim!: ends_in_weaken)

lemma phys_only_bind:
  assumes "phys_only s r" "\<And>a ph. phys_only (s\<lparr>phys := ph\<rparr>) (f a (s\<lparr>phys := ph\<rparr>))"
  shows "phys_only s (bind_k r f)"
proof (cases r rule: bind_k_cases)
  case (3 a s')
  then obtain ph where "s' = s\<lparr>phys := ph\<rparr>" using assms(1) by (auto simp: phys_only_def)
  then show ?thesis using 3 phys_only_from [OF assms(2)] by simp
next
  case (4 x s')
  then show ?thesis using assms(1) by (simp add: phys_only_def no_exit_def exit_k_def)
qed simp_all

lemma phys_only_bind_ro: "(\<And>a. phys_only s (f a)) \<Longrightarrow> phys_only s (bind_ro r f)"
  by (cases r) (auto simp: bind_ro_def split: sum.splits)

lemma physpage_claim_phys [simp]: "phys_only s (physpage_claim a s)"
  by (cases a s rule: physpage_claim_cases) simp_all

lemma reserve_pages_phys [simp]:
  fixes s :: "'s machine_scheme"
  shows "phys_only s (reserve_pages a limit s)"
proof (cases "reserve_pages a limit s")
  case (Some r)
  have "phys_only s (Some r)"
  proof (rule reserve_pages.raw_induct [OF _ Some])
    fix loop and a limit :: u64 and s :: "'s machine_scheme" and r
    assume ih: "\<And>a limit s r. loop a limit s = Some r \<Longrightarrow> phys_only s (Some r)"
      and r: "(if a < limit then bind_k (physpage_claim a s) (\<lambda>_ s. loop (a + PAGESIZE) limit s)
        else return_k () s) = Some r" (is "?body = _")
    have "phys_only s (loop a limit s)" for a limit and s :: "'s machine_scheme"
      using ih [of a limit s] by (cases "loop a limit s") simp_all
    then have "phys_only s ?body" by (simp add: phys_only_bind)
    then show "phys_only s (Some r)" by (simp only: r)
  qed
  then show ?thesis using Some by simp
qed simp

lemma reserve_segments_phys [simp]:
  fixes s :: "'s machine_scheme"
  shows "phys_only s (reserve_segments seg s)"
proof (cases "reserve_segments seg s")
  case (Some r)
  have "phys_only s (Some r)"
  proof (rule reserve_segments.raw_induct [OF _ Some])
    fix loop seg and s :: "'s machine_scheme" and r
    assume ih: "\<And>seg s r. loop seg s = Some r \<Longrightarrow> phys_only s (Some r)"
      and r: "(let m = memory (phys s) in
        bind_ro (map_option Inr (image_end m (seg_elf seg))) (\<lambda>e.
        if segment_eq seg e then return_k () s
        else bind_k (reserve_pages (round_down (segment_va m seg) PAGESIZE)
                       (segment_va m seg + segment_size m seg) s) (\<lambda>_ s.
             bind_ro (segment_next (memory (phys s)) seg) (\<lambda>seg. loop seg s)))) = Some r" (is "?body = _")
    have "phys_only s (loop seg s)" for seg and s :: "'s machine_scheme"
      using ih [of seg s] by (cases "loop seg s") simp_all
    then have "phys_only s ?body" by (simp add: Let_def phys_only_bind phys_only_bind_ro)
    then show "phys_only s (Some r)" by (simp only: r)
  qed
  then show ?thesis using Some by simp
qed simp

lemma process_setup_keeps:
  fixes s :: "'s kernel_scheme"
  assumes "p < length (ptable s)"
  shows "no_exit (process_setup env images p name s)"
    "ends_in (\<lambda>s'. \<exists>ph pr. s' = set_proc p pr (s\<lparr>phys := ph\<rparr>) \<and> pid pr = pid (ptable s ! p))
      (process_setup env images p name s)"
proof -
  let ?P = "\<lambda>s'. \<exists>ph pr. s' = set_proc p pr (s\<lparr>phys := ph\<rparr>) \<and> pid pr = pid (ptable s ! p)"
  have phys: "?P (s'\<lparr>phys := ph\<rparr>)" if s': "?P s'" for s' ph
  proof -
    obtain ph' pr where "s' = set_proc p pr (s\<lparr>phys := ph'\<rparr>)" "pid pr = pid (ptable s ! p)" using s' by blast
    then show ?thesis by (intro exI [of _ ph] exI [of _ pr]) (simp add: set_proc_def)
  qed
  have set: "?P (set_proc p pr s')" if s': "?P s'" and pr: "pid pr = pid (ptable s' ! p)" for s' pr
  proof -
    obtain ph pr' where "s' = set_proc p pr' (s\<lparr>phys := ph\<rparr>)" "pid pr' = pid (ptable s ! p)" using s' by blast
    then show ?thesis using pr assms by (intro exI [of _ ph] exI [of _ pr]) (simp add: set_proc_def)
  qed
  have ph: "ends_in ?P r" if "?P s'" "phys_only s' r" for s' and r :: "('x, 's kernel_scheme) kres"
    using that(2) phys [OF that(1)] by (auto simp: phys_only_def elim!: ends_in_weaken)
  have claim: "phys_only s' (physpage_claim a s')" "phys_only s' (reserve_segments seg s')" for a seg and s' :: "'s kernel_scheme"
    by simp_all
  have "no_exit (physpage_claim a s')" "no_exit (reserve_segments seg s')" for a seg and s' :: "'s kernel_scheme"
    using claim by (simp_all add: phys_only_def)
  then show "no_exit (process_setup env images p name s)"
    unfolding process_setup_def Let_def by (intro no_exit_intros no_exit_simps)
  let ?s = "set_proc p ((init_process (ptable s ! p) 0)\<lparr>pagetable := kernel_pagetable (k_syms env)\<rparr>) s"
  have "?P ?s"
    by (intro exI [of _ "phys s"] exI [of _ "(init_process (ptable s ! p) 0)\<lparr>pagetable := kernel_pagetable (k_syms env)\<rparr>"])
      (simp add: init_process_def Let_def)
  then show "ends_in ?P (process_setup env images p name s)"
    unfolding process_setup_def Let_def
  proof (intro ends_in_bind_ro ends_in_bind_same [OF ph [OF _ claim(2)]])
    fix s' :: "'s kernel_scheme" and m :: mem and pgm :: addr and a
    assume s': "?P s'"
    have "set_mem m s' = s'\<lparr>phys := (phys s')\<lparr>memory := m\<rparr>\<rparr>" by (simp add: set_mem_def)
    then have m: "?P (set_mem m s')" using phys [OF s'] by simp
    let ?s1 = "set_mem m s'"
    let ?s2 = "set_proc p ((ptable ?s1 ! p)\<lparr>regs := (regs (ptable ?s1 ! p))
        \<lparr>reg_rip := image_entry (memory (phys ?s1)) pgm\<rparr>\<rparr>) ?s1"
    have "?P ?s2" using m by (rule set) simp
    then show "ends_in ?P (bind_k (physpage_claim a ?s2) (\<lambda>_ s. return_k ()
        (set_proc p ((ptable s ! p)\<lparr>regs := (regs (ptable s ! p))\<lparr>reg_rsp := b\<rparr>, state := P_RUNNABLE\<rparr>) s)))" for b
      by (rule ends_in_bind_same [OF ph [OF _ claim(1)]]) (simp only: ends_in_simps, rule set, assumption, simp)
  qed
qed

lemma more_ptable: "machine.more s' = machine.more s \<Longrightarrow> ptable s' = ptable s" for s s' :: kernel
  by (cases s; cases s') (simp add: machine.defs kernel.defs)

lemma init_hardware_keeps:
  assumes "init_hardware env ctors cpu s = Inr (cpu', s')" "\<forall>f \<in> set ctors. \<forall>s. keeps s (f s)"
  shows "keeps s s'"
proof -
  have "keeps s (init_constructors ctors s)" for s
    using assms(2) unfolding init_constructors_def by (induction ctors arbitrary: s) auto
  then show ?thesis
    using assms(1) by (auto simp: init_hardware_def Let_def bind_result_Inr_iff set_trace_def split_beta)
qed

lemma bind_next:
  assumes "no_exit r" "ends_in P r" "\<And>a s. P s \<Longrightarrow> ends_in Q (f a s)"
  shows "ends_in Q (bind_k r f)"
  using assms by (cases r rule: bind_k_cases) (simp_all add: no_exit_def exit_k_def)

lemma log_printf_no_exit: "no_exit (log_printf dev fmt args s)"
  unfolding log_printf_def by (intro no_exit_intros no_exit_simps)

text \<open>Processes are set up one after the other on a screen and a process table in order.\<close>

definition set_up_ok :: "'s kernel_scheme \<Rightarrow> bool" where
  "set_up_ok s \<longleftrightarrow> on_screen s \<and> table_ok s"

definition sets_up :: "('a, 's kernel_scheme) kres \<Rightarrow> bool" where
  "sets_up r \<longleftrightarrow> no_exit r \<and> ends_in set_up_ok r"

lemma sets_up_bind:
  assumes "sets_up r" "\<And>a s. set_up_ok s \<Longrightarrow> sets_up (f a s)"
  shows "sets_up (bind_k r f)"
  using assms
  by (cases r rule: bind_k_cases) (simp_all add: sets_up_def, simp add: no_exit_def exit_k_def)

lemma sets_up_if: "sets_up r \<Longrightarrow> sets_up r' \<Longrightarrow> sets_up (if b then r else r')"
  by simp

lemma process_setup_ok:
  assumes "set_up_ok s" "0 < p" "p < MAXNPROC"
  shows "sets_up (process_setup env images p name s)"
proof -
  have p: "p < length (ptable s)" using assms by (simp add: set_up_ok_def table_ok_def)
  have "ends_in set_up_ok (process_setup env images p name s)"
    by (rule ends_in_weaken [OF process_setup_keeps(2) [OF p]])
      (use assms in \<open>auto simp: set_up_ok_def intro: table_ok_update\<close>, simp add: on_screen_def)
  then show ?thesis using process_setup_keeps(1) [OF p] by (simp add: sets_up_def)
qed

lemma run_first_ok: "set_up_ok s \<Longrightarrow> ends_in kernel_ok (run env 1 s :: (unit, kernel) kres)"
  by (rule run_result [where 'a = unit and env = env and p = 1 and s = s])
    (simp_all add: set_up_ok_def kernel_ok_def table_ok_def on_screen_def)

lemma setups_ok:
  assumes "set_up_ok s"
  shows "sets_up (if b then process_setup env images 1 name s
        else bind_k (process_setup env images 1 (k_lit env ''allocator'') s) (\<lambda>_ s.
             bind_k (process_setup env images 2 (k_lit env ''allocator2'') s) (\<lambda>_ s.
             bind_k (process_setup env images 3 (k_lit env ''allocator3'') s) (\<lambda>_ s.
             process_setup env images 4 (k_lit env ''allocator4'') s))))"
  using assms by (intro sets_up_if sets_up_bind process_setup_ok) simp_all

lemma kernel_start_ok:
  assumes "length (ptable s) = MAXNPROC" "\<forall>f \<in> set ctors. \<forall>s. keeps s (f s)"
  shows "ends_in kernel_ok (kernel_start env images first_process ctors cpu command s :: (unit, kernel) kres)"
proof -
  have log: "no_exit (log_printf dev fmt args s1)" "ends_in (\<lambda>s'. keeps s s') (log_printf dev fmt args s1)"
    if "Some (init_hardware env ctors cpu s) = Some (Inr (cpu', s1))" for cpu' s1 dev fmt args
    using that init_hardware_keeps [OF _ assms(2)] by (auto intro: log_printf_no_exit log_printf_keeps)
  have len: "length (ptable s1) = MAXNPROC" if "keeps s s1" for s1
    using more_ptable [OF that] assms(1) by simp
  note ready = setups_ok [unfolded sets_up_def, THEN conjunct1] setups_ok [unfolded sets_up_def, THEN conjunct2]
  show ?thesis
    unfolding kernel_start_def Let_def console_clear_def prod.case
  proof (rule ends_in_bind_ro, goal_cases)
    case (1 a)
    obtain cpu' s1 where a: "a = (cpu', s1)" by (rule prod.exhaust)
    show ?case
      unfolding a prod.case
      apply (rule bind_next [OF log [OF 1 [unfolded a]]])
      apply (intro ends_in_bind_ro bind_next [where P = set_up_ok] run_first_ok ready; assumption?)
      apply (simp_all add: set_up_ok_def table_ok_def on_screen_def set_trace_def len)
      done
  qed
qed

section \<open>Preemption\<close>

lemma next_runnable_states:
  "(\<And>i. state (xs ! i) = state (ys ! i)) \<Longrightarrow> next_runnable xs n p = next_runnable ys n p"
  by (induction n arbitrary: p) (simp_all add: Let_def)

lemma next_runnable_update:
  assumes "state pr = state (ptable s ! c)"
  shows "next_runnable ((ptable s)[c := pr]) n p = next_runnable (ptable s) n p"
proof (rule next_runnable_states)
  show "state ((ptable s)[c := pr] ! i) = state (ptable s ! i)" for i
    using assms by (cases "i = c \<and> c < length (ptable s)") (auto simp: nth_list_update_neq list_update_beyond not_less)
qed

lemma next_runnable_current:
  assumes "kernel_ok s"
  obtains q where "next_runnable (ptable s) MAXNPROC (current s) = Some q"
proof -
  have "current s < MAXNPROC" "state (ptable s ! current s) = P_RUNNABLE" using assms by (simp_all add: kernel_ok_def)
  then show thesis using next_runnable_exists [of "current s" "current s" "ptable s" MAXNPROC] distance_le that by blast
qed

text \<open>With a quiet keyboard, \<open>schedule\<close> resumes the process the specification names.\<close>

lemma schedule_picks:
  fixes s :: "'s kernel_scheme"
  assumes "quiet (k_dev env)" "pid (current_proc s) = c" "next_runnable (ptable s) MAXNPROC c = Some q"
  shows "(\<exists>e. (schedule env s :: ('a, 's kernel_scheme) kres) = Some (Inl e))
    \<or> (\<exists>tr. (schedule env s :: ('a, 's kernel_scheme) kres) = exit_k (ReturnTo q) ((set_trace tr s)\<lparr>current := q\<rparr>))"
proof -
  obtain tr where "(schedule env s :: ('a, 's kernel_scheme) kres) = run env q (set_trace tr s)"
    using schedule_loop_next [OF assms(1,3), of 1] assms(2) by (auto simp: schedule_def)
  then show ?thesis
    by (cases rule: run_result [where 'a = 'a and env = env and p = q and s = "set_trace tr s"]) auto
qed

text \<open>The display and the keyboard check, with a quiet keyboard.\<close>

lemma quiet_entry:
  fixes s :: "'s kernel_scheme"
  assumes "quiet (k_dev env)" "viewer_ready env s"
  shows "(\<exists>e. \<forall>f. bind_k (memshow env (console_show_cursor (save_regs rg s))) (\<lambda>_ s. bind_k (check_keyboard env s) f)
        = (Some (Inl e) :: ('a, 's kernel_scheme) kres))
    \<or> (\<exists>s1. kept (save_regs rg s) s1 \<and> (\<forall>f. bind_k (memshow env (console_show_cursor (save_regs rg s)))
          (\<lambda>_ s. bind_k (check_keyboard env s) f) = (f (- 1) s1 :: ('a, 's kernel_scheme) kres)))"
proof -
  let ?s = "console_show_cursor (save_regs rg s)"
  have on: "on_screen s" using assms(2) by (simp add: viewer_ready_def drawable_def)
  have k: "kept (save_regs rg s) ?s" using on by (intro show_cursor_kept) simp
  have c: "completes (\<lambda>_. entered env ?s) (memshow env ?s)"
    by (rule memshow_completes [OF viewer_ready_saved [OF assms(2)]])
  show ?thesis
  proof (cases "memshow env ?s" rule: bind_k_cases)
    case (3 u s1)
    then have "kept (save_regs rg s) s1" using c k kept_trans by (auto simp: entered_def)
    then have "kept (save_regs rg s) (set_trace (InB 0x64 # k_trace s1) s1)"
      by (simp add: kept_def on_screen_def set_trace_def)
    then show ?thesis using 3 by (auto simp: check_keyboard_quiet [OF assms(1)])
  next
    case (4 x s1)
    have "no_exit (memshow env ?s)"
    proof -
      obtain n p where "memshow env ?s = bind_k (console_memviewer env p ((memshow_turn ?s)\<lparr>showing := n\<rparr>)) (\<lambda>_ s.
        if p = None
        then console_printf (10 * 80 + 26) (CS_WHITE @ str ''   VIRTUAL ADDRESS SPACE'' @ [0x0A]
               @ replicate 26 0x20 @ str ''[All processes have exited]'' @ replicate 12 0x0A) [] s
        else return_k () s)" by (rule memshow_calls)
      then show ?thesis by (simp only:) (intro no_exit_intros no_exit_viewer no_exit_printf no_exit_simps)
    qed
    then show ?thesis using 4 by (simp add: no_exit_def exit_k_def)
  qed (use c in \<open>auto simp: completes_def\<close>)
qed

lemma timer_picks:
  fixes s :: kernel
  assumes "quiet (k_dev env)" "viewer_ready env s" "kernel_ok s" "reg_intno rg = of_nat (INT_IRQ + IRQ_TIMER)"
    and q: "next_runnable (ptable s) MAXNPROC (current s) = Some q"
  shows "(\<exists>e. (exception env rg s :: (unit, kernel) kres) = Some (Inl e))
    \<or> (\<exists>s'. (exception env rg s :: (unit, kernel) kres) = exit_k (ReturnTo q) s'
        \<and> ptable s' = (ptable s)[current s := (current_proc s)\<lparr>regs := rg\<rparr>] \<and> ticks s' = ticks s + 1)"
proof -
  let ?act = "\<lambda>s. bind_k
        (if reg_intno (regs (current_proc s)) = of_nat (INT_IRQ + IRQ_TIMER) then exception_timer env s
         else if reg_intno (regs (current_proc s)) = of_nat INT_PF then exception_page_fault env s
         else proc_panic env (current_proc s) (Some (str ''Unhandled exception %d (rip=%p)!'' @ [0x0A]))
                [ucast (reg_intno (regs (current_proc s))), reg_rip (regs (current_proc s))] s) (\<lambda>_ s.
      if state (current_proc s) = P_RUNNABLE then run env (current s) s else schedule env s)"
  have exc: "exception env rg s = (bind_k (memshow env (console_show_cursor (save_regs rg s)))
      (\<lambda>_ s. bind_k (check_keyboard env s) (\<lambda>_. ?act)) :: (unit, kernel) kres)"
    using assms(4) by (simp add: exception_def Let_def)
  have act: "(\<exists>e. ?act s1 = Some (Inl e)) \<or> (\<exists>s'. (?act s1 :: (unit, kernel) kres) = exit_k (ReturnTo q) s'
      \<and> ptable s' = (ptable s)[current s := (current_proc s)\<lparr>regs := rg\<rparr>] \<and> ticks s' = ticks s + 1)"
    if k: "kept (save_regs rg s) s1" for s1
  proof -
    have c: "current s < length (ptable s)" "pid (current_proc s) = current s"
      using assms(3) by (simp_all add: kernel_ok_def table_ok_def)
    let ?s2 = "set_trace (lapic_ack (k_trace (s1\<lparr>ticks := ticks s1 + 1\<rparr>))) (s1\<lparr>ticks := ticks s1 + 1\<rparr>)"
    have s1: "ptable s1 = (ptable s)[current s := (current_proc s)\<lparr>regs := rg\<rparr>]" "current s1 = current s"
      "ticks s1 = ticks s" "regs (current_proc s1) = rg" using k c by (simp_all add: kept_def)
    have "next_runnable (ptable ?s2) MAXNPROC (current s) = Some q"
      using q s1(1) next_runnable_update [of "(current_proc s)\<lparr>regs := rg\<rparr>" s "current s"] by simp
    moreover have "pid (current_proc ?s2) = current s" using s1(1,2) c by simp
    ultimately have "(\<exists>e. (schedule env ?s2 :: (unit, kernel) kres) = Some (Inl e))
        \<or> (\<exists>tr. (schedule env ?s2 :: (unit, kernel) kres) = exit_k (ReturnTo q) ((set_trace tr ?s2)\<lparr>current := q\<rparr>))"
      by (intro schedule_picks [OF assms(1)])
    then show ?thesis using s1 assms(4) by (auto simp: exception_timer_def)
  qed
  from quiet_entry [OF assms(1,2), of rg] show ?thesis
  proof (elim disjE exE conjE)
    fix e assume "\<forall>f. bind_k (memshow env (console_show_cursor (save_regs rg s))) (\<lambda>_ s. bind_k (check_keyboard env s) f)
        = (Some (Inl e) :: (unit, kernel) kres)"
    from spec [OF this, of "\<lambda>_. ?act"] show ?thesis unfolding exc by blast
  next
    fix s1 assume k: "kept (save_regs rg s) s1"
      and eq: "\<forall>f. bind_k (memshow env (console_show_cursor (save_regs rg s))) (\<lambda>_ s. bind_k (check_keyboard env s) f)
        = (f (- 1) s1 :: (unit, kernel) kres)"
    from act [OF k] show ?thesis unfolding exc spec [OF eq, of "\<lambda>_. ?act"] .
  qed
qed

section \<open>Answers to system calls\<close>

text \<open>What \<open>syscall\<close> does after the display and the keyboard check.\<close>

definition syscall_switch :: "kenv \<Rightarrow> 's kernel_scheme \<Rightarrow> (u64, 's kernel_scheme) kres" where
  "syscall_switch env s =
     (let pr = current_proc s; rax = reg_rax (regs pr) in
     if rax = SYSCALL_PANIC then user_panic env pr s
     else if rax = SYSCALL_GETPID then return_k (of_nat (pid pr)) s
     else if rax = SYSCALL_YIELD
     then schedule env (set_proc (current s) (pr\<lparr>regs := (regs pr)\<lparr>reg_rax := 0\<rparr>\<rparr>) s)
     else if rax = SYSCALL_PAGE_ALLOC
     then bind_k (syscall_page_alloc (reg_rdi (regs pr)) s) (\<lambda>r s. return_k (scast r) s)
     else proc_panic env pr (Some (str ''Unhandled system call %ld (pid=%d, rip=%p)!'' @ [0x0A]))
            [rax, of_nat (pid pr), reg_rip (regs pr)] s)"

lemma syscall_switches:
  "syscall env rg s = bind_k (memshow env (console_show_cursor (save_regs rg s)))
     (\<lambda>_ s. bind_k (check_keyboard env s) (\<lambda>_. syscall_switch env))"
  by (simp add: syscall_def syscall_switch_def [abs_def] Let_def)

lemma bind_k_assoc: "bind_k (bind_k r f) g = bind_k r (\<lambda>a s. bind_k (f a s) g)"
  by (cases r rule: bind_k_cases) simp_all

lemma syscall_completes:
  assumes "viewer_ready env s" "\<And>s1. entered env (save_regs rg s) s1 \<Longrightarrow> completes Q (syscall_switch env s1)"
  shows "completes Q (syscall env rg s)"
  unfolding syscall_switches bind_k_assoc [symmetric]
  by (rule completes_bind [OF entry_completes [OF assms(1)]]) (rule assms(2))

lemma entered_saved:
  assumes "entered env (save_regs rg s) s1" "current s < length (ptable s)"
  shows "regs (current_proc s1) = rg" "pid (current_proc s1) = pid (current_proc s)" "current s1 = current s"
  using assms by (simp_all add: entered_def kept_def)

text \<open>The state after an allocation: a page cleared in a state \<open>s1\<close> that only the display has changed.\<close>

definition allocated :: "kenv \<Rightarrow> addr \<Rightarrow> 's kernel_scheme \<Rightarrow> 's kernel_scheme \<Rightarrow> bool" where
  "allocated env a s s' \<longleftrightarrow>
     (\<exists>s1. entered env s s1 \<and> s' = s1\<lparr>phys := zero_page a (phys s1)\<rparr>
        \<and> unat (a div PAGESIZE) < NPAGES \<and> refcount (phys s1) (unat (a div PAGESIZE)) = 0)"

lemma page_alloc_switch:
  assumes "entered env s s1" "regs (current_proc s1) = rg" "reg_rax rg = SYSCALL_PAGE_ALLOC"
  shows "completes (\<lambda>v s'. v = 0 \<and> allocated env (reg_rdi rg) s s') (syscall_switch env s1)"
proof -
  have "syscall_switch env s1 = bind_k (syscall_page_alloc (reg_rdi rg) s1) (\<lambda>r s. return_k (scast r) s)"
    using assms(2,3) by (simp add: syscall_switch_def)
  then show ?thesis
    using assms(1) by (cases "reg_rdi rg" s1 rule: page_alloc_cases) (auto simp: allocated_def)
qed

lemma yield_picks:
  fixes s :: kernel
  assumes "quiet (k_dev env)" "viewer_ready env s" "kernel_ok s" "reg_rax rg = SYSCALL_YIELD"
    and q: "next_runnable (ptable s) MAXNPROC (current s) = Some q"
  shows "(\<exists>e. syscall env rg s = Some (Inl e))
    \<or> (\<exists>s'. syscall env rg s = exit_k (ReturnTo q) s'
        \<and> ptable s' = (ptable s)[current s := (current_proc s)\<lparr>regs := rg\<lparr>reg_rax := 0\<rparr>\<rparr>] \<and> ticks s' = ticks s)"
proof -
  have c: "current s < length (ptable s)" "pid (current_proc s) = current s"
    using assms(3) by (simp_all add: kernel_ok_def table_ok_def)
  have switch: "(\<exists>e. syscall_switch env s1 = Some (Inl e)) \<or> (\<exists>s'. syscall_switch env s1 = exit_k (ReturnTo q) s'
      \<and> ptable s' = (ptable s)[current s := (current_proc s)\<lparr>regs := rg\<lparr>reg_rax := 0\<rparr>\<rparr>] \<and> ticks s' = ticks s)"
    if k: "kept (save_regs rg s) s1" for s1
  proof -
    let ?s2 = "set_proc (current s1) ((current_proc s1)\<lparr>regs := (regs (current_proc s1))\<lparr>reg_rax := 0\<rparr>\<rparr>) s1"
    have s1: "current s1 = current s" "ticks s1 = ticks s" "regs (current_proc s1) = rg"
      and s2: "ptable ?s2 = (ptable s)[current s := (current_proc s)\<lparr>regs := rg\<lparr>reg_rax := 0\<rparr>\<rparr>]"
      using k c by (simp_all add: kept_def)
    have "next_runnable (ptable ?s2) MAXNPROC (current s) = Some q"
      unfolding s2 using q next_runnable_update [of _ s "current s"] by simp
    moreover have "pid (current_proc ?s2) = current s" unfolding s2 using s1(1) c by simp
    ultimately have "(\<exists>e. (schedule env ?s2 :: (u64, kernel) kres) = Some (Inl e))
        \<or> (\<exists>tr. (schedule env ?s2 :: (u64, kernel) kres) = exit_k (ReturnTo q) ((set_trace tr ?s2)\<lparr>current := q\<rparr>))"
      by (intro schedule_picks [OF assms(1)])
    moreover have "syscall_switch env s1 = schedule env ?s2"
      using s1(3) assms(4) by (simp add: syscall_switch_def Let_def)
    ultimately show ?thesis using s2 s1(2) by auto
  qed
  from quiet_entry [OF assms(1,2), of rg] show ?thesis
  proof (elim disjE exE conjE)
    fix e assume "\<forall>f. bind_k (memshow env (console_show_cursor (save_regs rg s))) (\<lambda>_ s. bind_k (check_keyboard env s) f)
        = (Some (Inl e) :: (u64, kernel) kres)"
    from spec [OF this, of "\<lambda>_. syscall_switch env"] show ?thesis unfolding syscall_switches by blast
  next
    fix s1 assume k: "kept (save_regs rg s) s1"
      and eq: "\<forall>f. bind_k (memshow env (console_show_cursor (save_regs rg s))) (\<lambda>_ s. bind_k (check_keyboard env s) f)
        = (f (- 1) s1 :: (u64, kernel) kres)"
    from switch [OF k] show ?thesis unfolding syscall_switches spec [OF eq, of "\<lambda>_. syscall_switch env"] .
  qed
qed

lemma stops_then:
  assumes "keeps_on s r" "\<And>a s'. kept s s' \<Longrightarrow> stops (f a s')"
  shows "stops (bind_k r f)"
proof (cases r rule: bind_k_cases)
  case (3 a s')
  then show ?thesis using assms by (simp add: keeps_on_def return_k_def)
next
  case (4 x s')
  then show ?thesis using assms(1) by auto
qed simp_all

lemma syscall_other_stops:
  assumes "on_screen s" "current s < length (ptable s)"
    "reg_rax rg \<noteq> SYSCALL_GETPID \<and> reg_rax rg \<noteq> SYSCALL_YIELD \<and> reg_rax rg \<noteq> SYSCALL_PAGE_ALLOC"
  shows "stops (syscall env rg s)"
proof -
  have switch: "stops (syscall_switch env s1)" if "kept (save_regs rg s) s1" for s1
    using that assms(2,3) by (simp add: syscall_switch_def kept_def Let_def)
  have k0: "kept (save_regs rg s) (console_show_cursor (save_regs rg s))"
    by (rule show_cursor_kept) (use assms(1) in simp)
  have check: "stops (bind_k (check_keyboard env s1) (\<lambda>_. syscall_switch env))" if k: "kept (save_regs rg s) s1" for s1
    by (rule stops_then [OF check_keyboard_kept])
      (use k in \<open>auto simp: kept_def intro!: switch\<close>)
  have "on_screen (console_show_cursor (save_regs rg s))" using k0 by (simp add: kept_def)
  then show ?thesis
    unfolding syscall_switches by (rule stops_then [OF memshow_keeps]) (rule check, erule kept_trans [OF k0])
qed

section \<open>An example state\<close>

definition quiet_env :: kenv where
  "quiet_env = example_env\<lparr>k_dev := (\<lambda>_ _. 0)\<rparr>"

text \<open>Processes 1 and 2 are runnable and have the kernel page table.\<close>

definition example_proc :: "nat \<Rightarrow> proc" where
  "example_proc i = \<lparr>pagetable = 0x51000, pid = i, state = (if i = 1 \<or> i = 2 then P_RUNNABLE else P_FREE),
     regs = zero_regs\<lparr>reg_rsp := 0x140000, reg_cs := 0x1B\<rparr>\<rparr>"

definition example_kernel :: "physmem \<Rightarrow> kernel" where
  "example_kernel ph =
     \<lparr>phys = ph, screen = (\<lambda>_. 0), cursorpos = 0, kport = \<lparr>initialized = False, port_trace = []\<rparr>,
      keyboard = \<lparr>modifiers = 0, last_escape = 0\<rparr>, panicking = False,
      ptable = map example_proc [0..<16], current = 1, ticks = 1,
      mu = \<lparr>mu_v = 0, nerrors = 0, separate_tables = False, error_sympos = - 1\<rparr>, last_ticks = 0, showing = 0\<rparr>"

lemma example_kernel_ok: "kernel_ok (example_kernel ph)"
  by (auto simp: kernel_ok_def table_ok_def on_screen_def example_kernel_def example_proc_def)

lemma example_viewer_ready: "viewer_ready quiet_env (example_kernel \<lparr>memory = (\<lambda>_. 0), refcount = (\<lambda>_. 0)\<rparr>)"
proof -
  have "literals_in_image quiet_env (\<lambda>_. 0)"
    unfolding literals_in_image_def
    by (intro allI exI [of _ 0]) (simp add: quiet_env_def example_env_def example_symbols_def)
  then show ?thesis
    by (simp add: viewer_ready_def drawable_def on_screen_def viewer_page_def example_kernel_def quiet_env_def
        example_env_def example_symbols_def)
qed

lemma quiet_env_quiet: "quiet (k_dev quiet_env)"
  by (simp add: quiet_def quiet_env_def)

lemma example_pagetable: "\<exists>ph :: physmem. check_pagetable example_symbols (memory ph) 0x51000 = Inr ()"
proof -
  have k: "kpt_ok (kernel_pagetable example_symbols)"
    by (simp add: kpt_ok_def page_aligned_def example_symbols_def)
  obtain s where ks: "kspace (kernel_pagetable example_symbols) 512 (entries s)"
    using init_kernel_memory_space [OF k] by blast
  have "check_pagetable example_symbols (memory s) 0x51000 = Inr ()"
    using kspace_pa [OF ks k] by (simp add: check_pagetable_def example_symbols_def)
  then show ?thesis ..
qed

lemma example_runnable:
  assumes "check_pagetable example_symbols (memory ph) 0x51000 = Inr ()"
  shows "runnable_ok quiet_env (example_kernel ph)"
  using assms
  by (auto simp: runnable_ok_def example_kernel_def example_proc_def quiet_env_def example_env_def
      check_process_registers_def)

section \<open>Properties\<close>









text \<open>
  \<open>C6\<close>: the scheduler is fair. When no key is pressed and the registers and page tables of the
  runnable processes are in order, every runnable process, whatever the current one is, is resumed
  after at most 16 calls of \<open>schedule\<close>, and the calls change neither the process table nor memory.
\<close>

theorem schedule_fair:
  assumes "quiet (k_dev env)" "runnable_ok env s" "current s < MAXNPROC" "q < MAXNPROC" "state (ptable s ! q) = P_RUNNABLE"
  shows "\<exists>n s'. n \<le> MAXNPROC \<and> schedules env n s = exit_k (ReturnTo q) s' \<and> 0 < n
    \<and> current s' = q \<and> ptable s' = ptable s \<and> phys s' = phys s \<and> ticks s' = ticks s"
proof -
  obtain n tr where "n < distance (current s) q"
    "schedules env (Suc n) s = exit_k (ReturnTo q) ((set_trace tr s)\<lparr>current := q\<rparr>)"
    using schedules_reach [OF assms] by blast
  then show ?thesis
    using distance_le [of "current s" q]
    by (intro exI [of _ "Suc n"] exI [of _ "(set_trace tr s)\<lparr>current := q\<rparr>"]) simp
qed

theorem schedule_fair_witness:
  "\<exists>ph n s'. schedules quiet_env n (example_kernel ph) = exit_k (ReturnTo 2) s' \<and> 0 < n"
proof -
  obtain ph :: physmem where ph: "check_pagetable example_symbols (memory ph) 0x51000 = Inr ()" using example_pagetable by blast
  show ?thesis
    using schedule_fair [OF quiet_env_quiet example_runnable [OF ph], of 2]
    by (auto simp: example_kernel_def example_proc_def)
qed

text \<open>
  \<open>C9\<close>: a call of the memory viewer always ends, and keeps to its own data. It ends in a failed
  assertion or returns; then only cells of the screen, the cursor, the log port and the viewer's own
  state have changed, memory only in the page of the viewer's map, which is allocated at the first
  call, and the process table, the keyboard and the tick count are as before.
\<close>

theorem memviewer_returns:
  assumes "viewer_ready env s"
  shows "(\<exists>e. console_memviewer env vmp s = Some (Inl e))
    \<or> (\<exists>s'. console_memviewer env vmp s = return_k () s' \<and> viewer_frame (kernel_end (k_syms env)) s s' \<and> viewer_ready env s')"
  using assms by (rule console_memviewer_result)

theorem memviewer_returns_witness:
  "\<exists>r. console_memviewer quiet_env None (example_kernel \<lparr>memory = (\<lambda>_. 0), refcount = (\<lambda>_. 0)\<rparr>) = Some r"
  using memviewer_returns [OF example_viewer_ready, of None] by (auto simp: return_k_def)

end
