(* ===== verification/Boot.thy ===== *)
theory Boot
  imports ProgImage PortIO
begin

text \<open>
  The boot loader \<open>pset3/boot.cc\<close>: it reads the kernel's ELF image from the first IDE disk through
  the ATA ports and ends with the kernel's entry point. The disk is a contract on the device: the
  status port reports ready after finitely many polls, and after a read command the data port gives
  the words of the sector.
\<close>

section \<open>Definitions\<close>

abbreviation SECTORSIZE :: u64 where "SECTORSIZE \<equiv> 512"
abbreviation ELFHDR_ADDR :: addr where "ELFHDR_ADDR \<equiv> 0x3000"
abbreviation KERNEL_START_SECTOR :: u32 where "KERNEL_START_SECTOR \<equiv> 1"

text \<open>\<open>rep insl\<close>: \<open>n\<close> words from a port to consecutive addresses.\<close>

fun insl :: "device \<Rightarrow> int \<Rightarrow> addr \<Rightarrow> nat \<Rightarrow> mem \<Rightarrow> trace \<Rightarrow> mem \<times> trace" where
  "insl dev port addr 0 m tr = (m, tr)"
| "insl dev port addr (Suc cnt) m tr =
     (case inl dev port tr of (v, tr) \<Rightarrow> insl dev port (addr + 4) cnt (store32 m addr v) tr)"

partial_function (option) boot_waitdisk :: "device \<Rightarrow> trace \<Rightarrow> trace option" where
  "boot_waitdisk dev tr =
     (case inb dev 0x1F7 tr of (status, tr) \<Rightarrow>
        if status AND 0xC0 \<noteq> 0x40 then boot_waitdisk dev tr else Some tr)"

definition boot_readsect :: "device \<Rightarrow> addr \<Rightarrow> u32 \<Rightarrow> mem \<Rightarrow> trace \<Rightarrow> (mem \<times> trace) option" where
  "boot_readsect dev dst src_sect m tr =
     Option.bind (boot_waitdisk dev tr) (\<lambda>tr.
     let tr = outb 0x1F2 1 tr;
         tr = outb 0x1F3 (ucast src_sect) tr;
         tr = outb 0x1F4 (ucast (drop_bit 8 src_sect)) tr;
         tr = outb 0x1F5 (ucast (drop_bit 16 src_sect)) tr;
         tr = outb 0x1F6 (ucast (drop_bit 24 src_sect OR 0xE0)) tr;
         tr = outb 0x1F7 0x20 tr
     in Option.bind (boot_waitdisk dev tr) (\<lambda>tr.
        Some (insl dev 0x1F0 dst (unat (SECTORSIZE div 4)) m tr)))"

partial_function (option) read_sectors :: "device \<Rightarrow> addr \<Rightarrow> addr \<Rightarrow> u32 \<Rightarrow> mem \<Rightarrow> trace \<Rightarrow> (mem \<times> trace) option" where
  "read_sectors dev ptr end_ptr src_sect m tr =
     (if ptr < end_ptr
      then Option.bind (boot_readsect dev ptr src_sect m tr) (\<lambda>(m, tr).
           read_sectors dev (ptr + SECTORSIZE) end_ptr (src_sect + 1) m tr)
      else Some (m, tr))"

function clear_bytes :: "addr \<Rightarrow> addr \<Rightarrow> mem \<Rightarrow> mem" where
  "clear_bytes end_ptr memsz m =
     (if end_ptr < memsz then clear_bytes (end_ptr + 1) memsz (m(end_ptr := 0)) else m)"
  by auto
termination
  by (relation "measure (\<lambda>(end_ptr, memsz, m). unat memsz - unat end_ptr)")
    (auto simp: word_less_nat_alt unat_inc)

definition boot_readseg ::
  "device \<Rightarrow> addr \<Rightarrow> u32 \<Rightarrow> u64 \<Rightarrow> u64 \<Rightarrow> mem \<Rightarrow> trace \<Rightarrow> (mem \<times> trace) option" where
  "boot_readseg dev ptr src_sect filesz memsz m tr =
     (let end_ptr = ptr + filesz;
          memsz = memsz + ptr;
          ptr = ptr AND NOT (SECTORSIZE - 1)
      in Option.bind (read_sectors dev ptr end_ptr src_sect m tr) (\<lambda>(m, tr).
         Some (clear_bytes end_ptr memsz m, tr)))"

partial_function (option) load_program :: "device \<Rightarrow> addr \<Rightarrow> addr \<Rightarrow> mem \<Rightarrow> trace \<Rightarrow> (mem \<times> trace) option" where
  "load_program dev ph eph m tr =
     (if ph < eph
      then let p = elf_program_at m ph in
           Option.bind (boot_readseg dev (p_va p) (ucast (ucast KERNEL_START_SECTOR + p_offset p div SECTORSIZE))
             (p_filesz p) (p_memsz p) m tr) (\<lambda>(m, tr).
           load_program dev (ph + PH_SIZE) eph m tr)
      else Some (m, tr))"

text \<open>The entry point the loader jumps to. Without a valid header the loader loops forever.\<close>

definition boot :: "device \<Rightarrow> mem \<Rightarrow> trace \<Rightarrow> (addr \<times> mem \<times> trace) option" where
  "boot dev m tr =
     Option.bind (boot_readseg dev ELFHDR_ADDR KERNEL_START_SECTOR PAGESIZE PAGESIZE m tr) (\<lambda>(m, tr).
     let elfhdr = elf_header_at m ELFHDR_ADDR in
     if e_magic elfhdr \<noteq> ELF_MAGIC then None
     else let ph = ELFHDR_ADDR + e_phoff elfhdr; eph = ph + PH_SIZE * ucast (e_phnum elfhdr) in
       Option.bind (load_program dev ph eph m tr) (\<lambda>(m, tr).
       Some (e_entry (elf_header_at m ELFHDR_ADDR), m, tr)))"

declare boot_waitdisk.simps [code] read_sectors.simps [code] load_program.simps [code]
declare clear_bytes.simps [simp del]

section \<open>The disk\<close>

text \<open>The 32-bit word at a byte position, and the trace after a read command for a sector.\<close>

definition disk_word :: "(nat \<Rightarrow> byte) \<Rightarrow> nat \<Rightarrow> u32" where
  "disk_word disk p = load32 (\<lambda>a. disk (p + unat a)) 0"

definition read_command :: "u32 \<Rightarrow> trace \<Rightarrow> trace" where
  "read_command s tr =
     [OutB 0x1F7 0x20, OutB 0x1F6 (ucast (drop_bit 24 s OR 0xE0)), OutB 0x1F5 (ucast (drop_bit 16 s)),
      OutB 0x1F4 (ucast (drop_bit 8 s)), OutB 0x1F3 (ucast s), OutB 0x1F2 1] @ tr"

definition ata_disk :: "device \<Rightarrow> (nat \<Rightarrow> byte) \<Rightarrow> bool" where
  "ata_disk dev disk \<longleftrightarrow>
     (\<forall>tr. \<exists>n. (ucast (dev (replicate n (InB 0x1F7) @ tr) (InB 0x1F7)) :: byte) AND 0xC0 = 0x40)
     \<and> (\<forall>s n k tr. s < 0x10000000 \<longrightarrow> k < 128 \<longrightarrow>
          ucast (dev (replicate k (InL 0x1F0) @ replicate n (InB 0x1F7) @ read_command s tr) (InL 0x1F0))
            = disk_word disk (512 * unat s + 4 * k))"

lemma waitdisk_ready:
  assumes "(ucast (dev (replicate n (InB 0x1F7) @ tr) (InB 0x1F7)) :: byte) AND 0xC0 = 0x40"
  shows "\<exists>k. boot_waitdisk dev tr = Some (replicate k (InB 0x1F7) @ tr)"
  using assms
proof (induction n arbitrary: tr)
  case 0
  then show ?case by (subst boot_waitdisk.simps) (auto simp: inb_def Let_def intro: exI [of _ 1])
next
  case (Suc n)
  show ?case
  proof (cases "(ucast (dev tr (InB 0x1F7)) :: byte) AND 0xC0 = 0x40")
    case True
    then show ?thesis by (subst boot_waitdisk.simps) (auto simp: inb_def Let_def intro: exI [of _ 1])
  next
    case False
    have "replicate (Suc n) (InB 0x1F7) @ tr = replicate n (InB 0x1F7) @ InB 0x1F7 # tr"
      by (simp add: replicate_app_Cons_same)
    then obtain k where "boot_waitdisk dev (InB 0x1F7 # tr) = Some (replicate k (InB 0x1F7) @ InB 0x1F7 # tr)"
      using Suc by metis
    then have "boot_waitdisk dev tr = Some (replicate (Suc k) (InB 0x1F7) @ tr)"
      using False by (subst boot_waitdisk.simps) (simp add: inb_def Let_def replicate_app_Cons_same)
    then show ?thesis by blast
  qed
qed

lemma waitdisk_ok: "ata_disk dev disk \<Longrightarrow> \<exists>k. boot_waitdisk dev tr = Some (replicate k (InB 0x1F7) @ tr)"
  using waitdisk_ready unfolding ata_disk_def by blast

lemma store32_load32:
  "store32 m a (load32 d b) x = (if x - a < 4 then d (b + (x - a)) else m x)"
proof -
  have b: "ucast (load32 d b) = d b" "ucast (drop_bit 8 (load32 d b)) = d (b + 1)"
    "ucast (drop_bit 16 (load32 d b)) = d (b + 2)" "ucast (drop_bit 24 (load32 d b)) = d (b + 3)"
    by (rule bit_word_eqI; simp add: load32_def load16_def bit_simps byte_bit_high add.assoc)+
  have "x - a < 4 \<longleftrightarrow> x - a = 0 \<or> x - a = 1 \<or> x - a = 2 \<or> x - a = 3"
    by (simp add: word_less_nat_alt word_unat_eq_iff) arith
  then have "x - a < 4 \<longleftrightarrow> x = a \<or> x = a + 1 \<or> x = a + 2 \<or> x = a + 3"
    by (simp add: diff_eq_eq add.commute)
  then show ?thesis using b by (auto simp: store32_def)
qed

section \<open>Reading sectors\<close>

lemma insl_ok:
  assumes "\<And>k. k < n \<Longrightarrow> ucast (dev (replicate k (InL 0x1F0) @ tr) (InL 0x1F0)) = disk_word disk (p + 4 * k)"
    "4 * n < 2 ^ 64"
  shows "\<exists>m' tr'. insl dev 0x1F0 a n m tr = (m', tr')
    \<and> (\<forall>x. m' x = (if unat (x - a) < 4 * n then disk (p + unat (x - a)) else m x))"
  using assms
proof (induction n arbitrary: a m tr p)
  case (Suc n)
  let ?m = "store32 m a (disk_word disk p)"
  have w: "insl dev 0x1F0 a (Suc n) m tr = insl dev 0x1F0 (a + 4) n ?m (InL 0x1F0 # tr)"
    using Suc.prems(1) [of 0] by (simp add: inl_def Let_def)
  have "ucast (dev (replicate k (InL 0x1F0) @ InL 0x1F0 # tr) (InL 0x1F0)) = disk_word disk (p + 4 + 4 * k)"
    if "k < n" for k
    using Suc.prems(1) [of "Suc k"] that by (simp add: replicate_app_Cons_same add.assoc)
  then obtain m' tr' where m': "insl dev 0x1F0 (a + 4) n ?m (InL 0x1F0 # tr) = (m', tr')"
    "\<And>x. m' x = (if unat (x - (a + 4)) < 4 * n then disk (p + 4 + unat (x - (a + 4))) else ?m x)"
    using Suc.IH [of "InL 0x1F0 # tr" "p + 4" "a + 4" ?m] Suc.prems(2) by auto
  have "m' x = (if unat (x - a) < 4 * Suc n then disk (p + unat (x - a)) else m x)" for x
  proof -
    have m: "?m x = (if x - a < 4 then disk (p + unat (x - a)) else m x)"
      using store32_load32 [of m a "\<lambda>a. disk (p + unat a)" 0 x] by (simp add: disk_word_def)
    have sub: "x - (a + 4) = x - a - 4" by simp
    show ?thesis
    proof (cases "x - a < 4")
      case True
      then have "unat (x - a) < 4" by (simp add: word_less_nat_alt)
      then have "unat (x - a - 4) = unat (x - a) + 2 ^ 64 - 4"
        by (simp add: unat_word_ariths unat_sub_if' word_le_nat_alt)
      then have "\<not> unat (x - (a + 4)) < 4 * n" unfolding sub using Suc.prems(2) by simp
      then show ?thesis using m'(2) [of x] m True \<open>unat (x - a) < 4\<close> by simp
    next
      case False
      then have ge: "4 \<le> unat (x - a)" by (simp add: word_less_nat_alt not_less)
      then have "unat (x - a - 4) = unat (x - a) - 4" by (simp add: unat_sub word_le_nat_alt)
      then show ?thesis using m'(2) [of x] m False ge unfolding sub by auto
    qed
  qed
  then show ?case using w m'(1) by auto
qed simp

lemma readsect_ok:
  assumes "ata_disk dev disk" "s < 0x10000000"
  shows "\<exists>m' tr'. boot_readsect dev dst s m tr = Some (m', tr')
    \<and> (\<forall>x. m' x = (if unat (x - dst) < 512 then disk (512 * unat s + unat (x - dst)) else m x))"
proof -
  obtain i where i: "boot_waitdisk dev tr = Some (replicate i (InB 0x1F7) @ tr)"
    using waitdisk_ok [OF assms(1)] by blast
  let ?tr = "read_command s (replicate i (InB 0x1F7) @ tr)"
  obtain j where j: "boot_waitdisk dev ?tr = Some (replicate j (InB 0x1F7) @ ?tr)"
    using waitdisk_ok [OF assms(1)] by blast
  let ?tr' = "replicate j (InB 0x1F7) @ ?tr"
  have "boot_readsect dev dst s m tr = Some (insl dev 0x1F0 dst 128 m ?tr')"
    using i j by (simp add: boot_readsect_def outb_def read_command_def Let_def)
  moreover have "\<exists>m' tr'. insl dev 0x1F0 dst 128 m ?tr' = (m', tr')
    \<and> (\<forall>x. m' x = (if unat (x - dst) < 4 * 128 then disk (512 * unat s + unat (x - dst)) else m x))"
    by (rule insl_ok) (use assms in \<open>simp_all add: ata_disk_def\<close>)
  ultimately show ?thesis by simp
qed

text \<open>Addresses of a range that does not wrap around.\<close>

lemma sector_offset:
  fixes x a :: addr
  assumes "unat a + n < 2 ^ 64"
  shows "unat (x - a) < n \<longleftrightarrow> unat a \<le> unat x \<and> unat x < unat a + n"
proof (cases "a \<le> x")
  case True
  then show ?thesis by (simp add: unat_sub word_le_nat_alt) arith
next
  case False
  then have "unat x < unat a" by (simp add: word_le_nat_alt not_le)
  moreover have "unat (x - a) = unat x + 2 ^ 64 - unat a"
    using False by (simp add: unat_sub_if' word_le_nat_alt)
  ultimately show ?thesis using assms by simp
qed

lemma read_sectors_ok:
  assumes "ata_disk dev disk" "unat end_ptr \<le> unat ptr + 512 * n" "n = 0 \<or> unat ptr + 512 * (n - 1) < unat end_ptr"
    "unat ptr + 512 * n < 2 ^ 64" "unat s + n \<le> 0x10000000"
  shows "\<exists>m' tr'. read_sectors dev ptr end_ptr s m tr = Some (m', tr')
    \<and> (\<forall>x. m' x = (if unat ptr \<le> unat x \<and> unat x < unat ptr + 512 * n
         then disk (512 * unat s + (unat x - unat ptr)) else m x))"
  using assms(2-)
proof (induction n arbitrary: ptr s m tr)
  case 0
  then show ?case by (subst read_sectors.simps) (auto simp: word_less_nat_alt)
next
  case (Suc n)
  have lt: "ptr < end_ptr" using Suc.prems(2) by (simp add: word_less_nat_alt)
  have s: "s < 0x10000000" "unat (s + 1) = unat s + 1"
    using Suc.prems(4) by (simp_all add: word_less_nat_alt unat_word_ariths)
  have ptr: "unat (ptr + 512) = unat ptr + 512" using Suc.prems(3) by (simp add: unat_word_ariths)
  obtain m1 tr1 where m1: "boot_readsect dev ptr s m tr = Some (m1, tr1)"
    "\<And>x. m1 x = (if unat (x - ptr) < 512 then disk (512 * unat s + unat (x - ptr)) else m x)"
    using readsect_ok [OF assms(1) s(1)] by blast
  obtain m' tr' where m': "read_sectors dev (ptr + 512) end_ptr (s + 1) m1 tr1 = Some (m', tr')"
    "\<And>x. m' x = (if unat (ptr + 512) \<le> unat x \<and> unat x < unat (ptr + 512) + 512 * n
       then disk (512 * unat (s + 1) + (unat x - unat (ptr + 512))) else m1 x)"
    using Suc.IH [of "ptr + 512" "s + 1" m1 tr1] Suc.prems ptr s(2) by (cases n) auto
  have "m' x = (if unat ptr \<le> unat x \<and> unat x < unat ptr + 512 * Suc n
      then disk (512 * unat s + (unat x - unat ptr)) else m x)" for x
  proof -
    have r: "unat (x - ptr) < 512 \<longleftrightarrow> unat ptr \<le> unat x \<and> unat x < unat ptr + 512"
      using Suc.prems(3) by (intro sector_offset) simp
    have "unat ptr \<le> unat x \<Longrightarrow> unat (x - ptr) = unat x - unat ptr"
      by (simp add: unat_sub word_le_nat_alt)
    then show ?thesis using m'(2) [of x] m1(2) [of x] r ptr s(2) by (auto simp: algebra_simps)
  qed
  then show ?case using lt m1(1) m'(1) by (subst read_sectors.simps) auto
qed

lemma clear_bytes_ok:
  "clear_bytes a b m x = (if a \<le> x \<and> x < b then 0 else m x)"
proof (induction a b m rule: clear_bytes.induct)
  case (1 a b m)
  show ?case
  proof (cases "a < b")
    case True
    then have le: "a + 1 \<le> x \<longleftrightarrow> a < x" by (simp add: word_le_nat_alt word_less_nat_alt unat_inc Suc_le_eq)
    have "clear_bytes a b m x = clear_bytes (a + 1) b (m(a := 0)) x"
      using True by (subst clear_bytes.simps) simp
    also have "\<dots> = (if a + 1 \<le> x \<and> x < b then 0 else (m(a := 0)) x)" by (rule 1 [OF True])
    finally show ?thesis using True le by auto
  next
    case False
    then show ?thesis by (subst clear_bytes.simps) auto
  qed
qed

text \<open>The effect of loading a segment.\<close>

lemma boot_readseg_ok:
  assumes "ata_disk dev disk" "unat ptr + unat filesz + 512 < 2 ^ 64" "unat ptr + unat memsz < 2 ^ 64"
    "unat s + unat filesz div 512 + 2 \<le> 0x10000000"
  shows "\<exists>m' tr' n. boot_readseg dev ptr s filesz memsz m tr = Some (m', tr')
    \<and> unat ptr + unat filesz \<le> unat ptr - unat ptr mod 512 + 512 * n
    \<and> unat ptr - unat ptr mod 512 + 512 * n \<le> unat ptr + unat filesz + 511
    \<and> (\<forall>x. m' x = (if unat ptr + unat filesz \<le> unat x \<and> unat x < unat ptr + unat memsz then 0
         else if unat ptr - unat ptr mod 512 \<le> unat x \<and> unat x < unat ptr - unat ptr mod 512 + 512 * n
         then disk (512 * unat s + (unat x - (unat ptr - unat ptr mod 512))) else m x))"
proof -
  let ?p = "ptr AND NOT (SECTORSIZE - 1)" and ?e = "ptr + filesz" and ?z = "memsz + ptr"
  have p: "unat ?p = unat ptr - unat ptr mod 512"
  proof -
    have "ptr - take_bit 9 ptr = ptr AND NOT (take_bit 9 ptr)"
      by (rule disjunctive_diff) (simp add: bit_simps)
    also have "\<dots> = ptr AND NOT (mask 9)" by (rule bit_word_eqI) (auto simp: bit_simps)
    also have "mask 9 = (SECTORSIZE - 1 :: u64)" by (simp add: mask_eq_exp_minus_1)
    finally have "?p = ptr - take_bit 9 ptr" by (rule sym)
    also have "\<dots> = round_down ptr 512" unfolding round_down_def take_bit_eq_mod by simp
    finally have "?p = round_down ptr 512" .
    then show ?thesis by (simp add: unat_round_down)
  qed
  have "unat (ptr + memsz) = unat ptr + unat memsz" using assms(3) by (simp add: unat_word_ariths)
  then have e: "unat ?e = unat ptr + unat filesz" "unat ?z = unat ptr + unat memsz"
    using assms(2) by (simp_all add: unat_word_ariths add.commute [of memsz])
  let ?q = "unat ptr - unat ptr mod 512" and ?stop = "unat ptr + unat filesz"
  obtain n where n: "?stop \<le> ?q + 512 * n" "n = 0 \<or> ?q + 512 * (n - 1) < ?stop"
  proof
    let ?n = "(?stop - ?q + 511) div 512"
    have "?q \<le> ?stop" by simp
    then show "?stop \<le> ?q + 512 * ?n" by linarith
    show "?n = 0 \<or> ?q + 512 * (?n - 1) < ?stop" by linarith
  qed
  have bound: "?q + 512 * n < 2 ^ 64" "unat s + n \<le> 0x10000000"
    using n(2) assms(2,4) by (cases n; linarith)+
  obtain m1 tr1 where m1: "read_sectors dev ?p ?e s m tr = Some (m1, tr1)"
    "\<And>x. m1 x = (if ?q \<le> unat x \<and> unat x < ?q + 512 * n then disk (512 * unat s + (unat x - ?q)) else m x)"
    using read_sectors_ok [OF assms(1), of ?e ?p n s m tr] n bound unfolding p e by blast
  let ?m' = "clear_bytes ?e ?z m1"
  have "?m' x = (if ?stop \<le> unat x \<and> unat x < unat ptr + unat memsz then 0
      else if ?q \<le> unat x \<and> unat x < ?q + 512 * n then disk (512 * unat s + (unat x - ?q)) else m x)" for x
    unfolding clear_bytes_ok m1(2) word_le_nat_alt word_less_nat_alt e by simp
  moreover have "?q + 512 * n \<le> ?stop + 511" using n(2) by (cases n) auto
  moreover have "boot_readseg dev ptr s filesz memsz m tr = Some (?m', tr1)"
    using m1(1) by (simp add: boot_readseg_def Let_def)
  ultimately show ?thesis using n(1) by (intro exI [of _ ?m'] exI [of _ tr1] exI [of _ n] conjI allI)
qed

section \<open>Loading the kernel\<close>

text \<open>The first page of the image in memory.\<close>

definition header_page :: "(nat \<Rightarrow> byte) \<Rightarrow> mem" where
  "header_page disk a = disk (512 + unat (a - ELFHDR_ADDR))"

definition holds_header :: "(nat \<Rightarrow> byte) \<Rightarrow> mem \<Rightarrow> bool" where
  "holds_header disk m \<longleftrightarrow> (\<forall>x. 0x3000 \<le> unat x \<and> unat x < 0x4000 \<longrightarrow> m x = header_page disk x)"

text \<open>A segment the loader can load: it stays away from the header page and is aligned like the file.\<close>

definition loadable :: "elf_program \<Rightarrow> bool" where
  "loadable p \<longleftrightarrow> unat (p_va p) mod 512 = unat (p_offset p) mod 512 \<and> p_filesz p \<le> p_memsz p
     \<and> 0x4000 \<le> unat (p_va p) - unat (p_va p) mod 512 \<and> unat (p_va p) + unat (p_memsz p) + 512 < 2 ^ 64
     \<and> unat (p_offset p) div 512 + unat (p_filesz p) div 512 + 3 \<le> 0x10000000"

definition loaded :: "(nat \<Rightarrow> byte) \<Rightarrow> elf_program \<Rightarrow> mem \<Rightarrow> bool" where
  "loaded disk p m \<longleftrightarrow> (\<forall>x. unat (p_va p) \<le> unat x \<and> unat x < unat (p_va p) + unat (p_memsz p) \<longrightarrow>
     m x = (let i = unat x - unat (p_va p) in if i < unat (p_filesz p) then disk (512 + unat (p_offset p) + i) else 0))"

text \<open>The addresses loading a segment may change: whole sectors.\<close>

definition footprint :: "elf_program \<Rightarrow> addr set" where
  "footprint p = {x. unat (p_va p) - unat (p_va p) mod 512 \<le> unat x
     \<and> unat x < unat (p_va p) + max (unat (p_memsz p)) (unat (p_filesz p) + 511)}"

lemma load_segment_ok:
  assumes "ata_disk dev disk" "loadable p"
  shows "\<exists>m' tr'. boot_readseg dev (p_va p) (ucast (ucast KERNEL_START_SECTOR + p_offset p div SECTORSIZE))
      (p_filesz p) (p_memsz p) m tr = Some (m', tr')
    \<and> loaded disk p m' \<and> (\<forall>x. x \<notin> footprint p \<longrightarrow> m' x = m x)"
proof -
  let ?va = "unat (p_va p)" and ?s = "ucast (ucast KERNEL_START_SECTOR + p_offset p div SECTORSIZE) :: u32"
  have p: "?va mod 512 = unat (p_offset p) mod 512" "unat (p_filesz p) \<le> unat (p_memsz p)"
    "?va + unat (p_memsz p) + 512 < 2 ^ 64" "unat (p_offset p) div 512 + unat (p_filesz p) div 512 + 3 \<le> 0x10000000"
    using assms(2) by (simp_all add: loadable_def word_le_nat_alt)
  have s: "unat ?s = 1 + unat (p_offset p) div 512"
    using p(4) by (simp add: unsigned_ucast_eq take_bit_eq_mod unat_word_ariths unat_div)
  have b: "?va + unat (p_filesz p) + 512 < 2 ^ 64" "?va + unat (p_memsz p) < 2 ^ 64"
    "unat ?s + unat (p_filesz p) div 512 + 2 \<le> 0x10000000"
    unfolding s using p(2-4) by linarith+
  from boot_readseg_ok [OF assms(1) b, of m tr] obtain m' tr' n where
    m': "boot_readseg dev (p_va p) ?s (p_filesz p) (p_memsz p) m tr = Some (m', tr')"
    "?va + unat (p_filesz p) \<le> ?va - ?va mod 512 + 512 * n"
    "?va - ?va mod 512 + 512 * n \<le> ?va + unat (p_filesz p) + 511"
    "\<And>x. m' x = (if ?va + unat (p_filesz p) \<le> unat x \<and> unat x < ?va + unat (p_memsz p) then 0
         else if ?va - ?va mod 512 \<le> unat x \<and> unat x < ?va - ?va mod 512 + 512 * n
         then disk (512 * unat ?s + (unat x - (?va - ?va mod 512))) else m x)" by blast
  have "loaded disk p m'"
    unfolding loaded_def Let_def
  proof (intro allI impI)
    fix x :: addr assume x: "?va \<le> unat x \<and> unat x < ?va + unat (p_memsz p)"
    show "m' x = (if unat x - ?va < unat (p_filesz p) then disk (512 + unat (p_offset p) + (unat x - ?va)) else 0)"
    proof (cases "unat x < ?va + unat (p_filesz p)")
      case True
      then have "?va - ?va mod 512 \<le> unat x \<and> unat x < ?va - ?va mod 512 + 512 * n" using m'(2) x by linarith
      moreover have "512 * unat ?s + (unat x - (?va - ?va mod 512)) = 512 + unat (p_offset p) + (unat x - ?va)"
        using s p(1) x mod_less_eq_dividend [of ?va 512] div_mult_mod_eq [of "unat (p_offset p)" 512] by linarith
      ultimately show ?thesis using m'(4) [of x] True x by auto
    next
      case False
      then show ?thesis using m'(4) [of x] x by auto
    qed
  qed
  moreover have "m' x = m x" if "x \<notin> footprint p" for x
  proof -
    have out: "unat x < ?va - ?va mod 512 \<or> ?va + unat (p_memsz p) \<le> unat x \<and> ?va + unat (p_filesz p) + 511 \<le> unat x"
      using that unfolding footprint_def by auto
    have bss: "\<not> (?va + unat (p_filesz p) \<le> unat x \<and> unat x < ?va + unat (p_memsz p))" using out by linarith
    have sectors: "\<not> (?va - ?va mod 512 \<le> unat x \<and> unat x < ?va - ?va mod 512 + 512 * n)"
      using out m'(3) by linarith
    show ?thesis unfolding m'(4) if_not_P [OF bss] if_not_P [OF sectors] by (rule refl)
  qed
  ultimately show ?thesis using m'(1) by blast
qed

text \<open>Reading the headers depends on their bytes only.\<close>

lemma load32_cong:
  assumes "\<And>j. unat j < 4 \<Longrightarrow> m (a + j) = m' (a + j)"
  shows "load32 m a = load32 m' a"
  using assms [of 0] assms [of 1] assms [of 2] assms [of 3]
  by (simp add: load32_def load16_def add.assoc)

lemma holds_header_at:
  assumes "holds_header disk m" "0x3000 \<le> unat a" "unat a + k \<le> 0x4000" "unat j < k"
  shows "m (a + j) = header_page disk (a + j)"
proof -
  have "unat (a + j) = unat a + unat j" using assms(3,4) by (simp add: unat_word_ariths)
  then show ?thesis using assms by (simp add: holds_header_def)
qed

lemma holds_header_loads:
  assumes "holds_header disk m" "0x3000 \<le> unat a"
  shows "unat a + 4 \<le> 0x4000 \<Longrightarrow> load32 m a = load32 (header_page disk) a"
    "unat a + 8 \<le> 0x4000 \<Longrightarrow> load64 m a = load64 (header_page disk) a"
    "unat a + 2 \<le> 0x4000 \<Longrightarrow> load16 m a = load16 (header_page disk) a"
proof -
  note h = holds_header_at [OF assms]
  show "load32 m a = load32 (header_page disk) a" if "unat a + 4 \<le> 0x4000"
    by (rule load32_cong) (rule h [OF that])
  show "load64 m a = load64 (header_page disk) a" if "unat a + 8 \<le> 0x4000"
    by (rule load64_cong) (rule h [OF that])
  show "load16 m a = load16 (header_page disk) a" if "unat a + 2 \<le> 0x4000"
    using h [OF that, of 0] h [OF that, of 1] by (simp add: load16_def)
qed

lemma unat_page_add:
  assumes "unat (a :: addr) + k \<le> 0x4000" "unat j \<le> k"
  shows "unat (a + j) = unat a + unat j"
  using assms by (simp add: unat_word_ariths)

lemma header_program:
  assumes "holds_header disk m" "0x3000 \<le> unat ph" "unat ph + 56 \<le> 0x4000"
  shows "elf_program_at m ph = elf_program_at (header_page disk) ph"
proof -
  have f: "load32 m (ph + j) = load32 (header_page disk) (ph + j)" "load64 m (ph + j) = load64 (header_page disk) (ph + j)"
    if "unat j \<le> 48" for j
    using holds_header_loads [OF assms(1), of "ph + j"] unat_page_add [OF assms(3), of j] that assms(2,3) by simp_all
  show ?thesis
    using f(1) [of 0] f(1) [of 4] f(2) [of 8] f(2) [of "0x10"] f(2) [of "0x20"] f(2) [of "0x28"]
    by (simp add: elf_program_at_def)
qed

lemma header_header:
  assumes "holds_header disk m"
  shows "elf_header_at m ELFHDR_ADDR = elf_header_at (header_page disk) ELFHDR_ADDR"
  using holds_header_loads [OF assms, of "0x3000"] holds_header_loads [OF assms, of "0x3018"]
    holds_header_loads [OF assms, of "0x3020"] holds_header_loads [OF assms, of "0x3038"]
  by (simp add: elf_header_at_def)

text \<open>Segments loaded later do not touch the bytes of earlier ones.\<close>

fun apart :: "elf_program list \<Rightarrow> bool" where
  "apart [] \<longleftrightarrow> True"
| "apart (p # ps) \<longleftrightarrow>
     (\<forall>q \<in> set ps. \<forall>x. unat (p_va p) \<le> unat x \<and> unat x < unat (p_va p) + unat (p_memsz p) \<longrightarrow> x \<notin> footprint q)
     \<and> apart ps"

lemma load_program_ok:
  assumes "ata_disk dev disk" "holds_header disk m" "\<forall>p \<in> set ps. loadable p" "apart ps"
    "0x3000 \<le> unat ph" "unat ph + 56 * length ps \<le> 0x4000" "unat eph = unat ph + 56 * length ps"
    "\<And>i. i < length ps \<Longrightarrow> ps ! i = elf_program_at (header_page disk) (ph + 56 * of_nat i)"
  shows "\<exists>m' tr'. load_program dev ph eph m tr = Some (m', tr') \<and> holds_header disk m'
    \<and> (\<forall>p \<in> set ps. loaded disk p m') \<and> (\<forall>x. (\<forall>p \<in> set ps. x \<notin> footprint p) \<longrightarrow> m' x = m x)"
  using assms(2-)
proof (induction ps arbitrary: ph m tr)
  case Nil
  then show ?case by (subst load_program.simps) (simp add: word_less_nat_alt)
next
  case (Cons p ps)
  have lt: "ph < eph" using Cons.prems(6) by (simp add: word_less_nat_alt)
  have p: "elf_program_at m ph = p"
    using header_program [OF Cons.prems(1,4)] Cons.prems(5) Cons.prems(7) [of 0] by simp
  obtain m1 tr1 where m1: "boot_readseg dev (p_va p) (ucast (ucast KERNEL_START_SECTOR + p_offset p div SECTORSIZE))
      (p_filesz p) (p_memsz p) m tr = Some (m1, tr1)" "loaded disk p m1" "\<And>x. x \<notin> footprint p \<Longrightarrow> m1 x = m x"
    using load_segment_ok [OF assms(1), of p m tr] Cons.prems(2) by auto
  have hdr: "holds_header disk m1"
    unfolding holds_header_def
  proof (intro allI impI)
    fix x :: addr assume x: "0x3000 \<le> unat x \<and> unat x < 0x4000"
    have "loadable p" using Cons.prems(2) by simp
    then have "x \<notin> footprint p" using x by (auto simp: loadable_def footprint_def)
    then show "m1 x = header_page disk x" using m1(3) Cons.prems(1) x by (simp add: holds_header_def)
  qed
  have ph: "unat (ph + PH_SIZE) = unat ph + 56"
    using Cons.prems(5) by (simp add: unat_word_ariths)
  have "\<exists>m' tr'. load_program dev (ph + PH_SIZE) eph m1 tr1 = Some (m', tr') \<and> holds_header disk m'
    \<and> (\<forall>p \<in> set ps. loaded disk p m') \<and> (\<forall>x. (\<forall>p \<in> set ps. x \<notin> footprint p) \<longrightarrow> m' x = m1 x)"
  proof (rule Cons.IH [OF hdr])
    fix i assume "i < length ps"
    then show "ps ! i = elf_program_at (header_page disk) (ph + PH_SIZE + 56 * of_nat i)"
      using Cons.prems(7) [of "Suc i"] by (simp add: algebra_simps)
  qed (use Cons.prems(2-6) ph in simp_all)
  then obtain m' tr' where m': "load_program dev (ph + PH_SIZE) eph m1 tr1 = Some (m', tr')" "holds_header disk m'"
    "\<forall>p \<in> set ps. loaded disk p m'" "\<And>x. (\<forall>p \<in> set ps. x \<notin> footprint p) \<Longrightarrow> m' x = m1 x" by blast
  have "loaded disk p m'"
    unfolding loaded_def
  proof (intro allI impI)
    fix x :: addr assume x: "unat (p_va p) \<le> unat x \<and> unat x < unat (p_va p) + unat (p_memsz p)"
    then have "m' x = m1 x" using Cons.prems(3) by (intro m'(4)) auto
    then show "m' x = (let i = unat x - unat (p_va p) in if i < unat (p_filesz p) then disk (512 + unat (p_offset p) + i) else 0)"
      using m1(2) x by (simp add: loaded_def)
  qed
  moreover have "load_program dev ph eph m tr = Some (m', tr')"
    using lt p m1(1) m'(1) by (subst load_program.simps) (simp add: Let_def)
  ultimately show ?case using m'(2-4) m1(3) by auto
qed

text \<open>An image the loader can load: its entry point and its segments.\<close>

definition kernel_image :: "(nat \<Rightarrow> byte) \<Rightarrow> addr \<Rightarrow> elf_program list \<Rightarrow> bool" where
  "kernel_image disk entry ps \<longleftrightarrow>
     (let hdr = elf_header_at (header_page disk) ELFHDR_ADDR in
      e_magic hdr = ELF_MAGIC \<and> e_entry hdr = entry \<and> unat (e_phnum hdr) = length ps
      \<and> unat (e_phoff hdr) + 56 * length ps \<le> 0x1000
      \<and> (\<forall>i < length ps. ps ! i = elf_program_at (header_page disk) (ELFHDR_ADDR + e_phoff hdr + 56 * of_nat i)))
      \<and> (\<forall>p \<in> set ps. loadable p) \<and> apart ps"

section \<open>Properties\<close>


text \<open>A disk drive that is always ready, and a disk with one segment.\<close>

fun out_byte :: "io \<Rightarrow> byte" where
  "out_byte (OutB _ b) = b"
| "out_byte _ = 0"

definition commanded :: "trace \<Rightarrow> u32" where
  "commanded tr =
     (if length tr < 6 then 0
      else ucast (out_byte (tr ! 4)) OR push_bit 8 (ucast (out_byte (tr ! 3)))
        OR push_bit 16 (ucast (out_byte (tr ! 2))) OR push_bit 24 (ucast (out_byte (tr ! 1)) AND 0x0F))"

definition drive :: "(nat \<Rightarrow> byte) \<Rightarrow> device" where
  "drive disk tr ev =
     (case ev of
        InB _ \<Rightarrow> 0x40
      | InL _ \<Rightarrow> let tr' = dropWhile (\<lambda>e. e = InL 0x1F0) tr; k = length (takeWhile (\<lambda>e. e = InL 0x1F0) tr) in
          ucast (disk_word disk (512 * unat (commanded (dropWhile (\<lambda>e. e = InB 0x1F7) tr')) + 4 * k))
      | _ \<Rightarrow> 0)"

lemma commanded_read:
  assumes "s < 0x10000000"
  shows "commanded (read_command s tr) = s"
proof -
  have high: "\<not> bit s n" if "28 \<le> n" for n
  proof -
    have "unat s < 2 ^ 28" using assms by (simp add: word_less_nat_alt)
    moreover have "(2 :: nat) ^ 28 \<le> 2 ^ n" using that by (rule power_increasing) simp
    ultimately have "\<not> bit (unat s) n" by (simp add: bit_iff_odd)
    then show ?thesis by (auto simp: bit_simps dest: bit_imp_le_length)
  qed
  have nibble: "ucast (ucast (drop_bit 24 s OR 0xE0) :: byte) AND 0x0F = (drop_bit 24 s :: u32)"
  proof (rule bit_word_eqI)
    fix n assume "n < LENGTH(32)"
    then consider "n = 0" | "n = 1" | "n = 2" | "n = 3" | "4 \<le> n" by fastforce
    then show "bit (ucast (ucast (drop_bit 24 s OR 0xE0) :: byte) AND 0x0F :: u32) n \<longleftrightarrow> bit (drop_bit 24 s) n"
    proof cases
      case 5
      have "(0x0F :: u32) = mask 4" by (simp add: mask_eq_exp_minus_1)
      then have "\<not> bit (0x0F :: u32) n" using 5 by (simp only: bit_mask_iff) simp
      then show ?thesis using 5 high by (auto simp: bit_simps)
    qed (simp_all add: bit_simps)
  qed
  have "commanded (read_command s tr) = ucast (ucast s :: byte) OR push_bit 8 (ucast (ucast (drop_bit 8 s) :: byte))
      OR push_bit 16 (ucast (ucast (drop_bit 16 s) :: byte)) OR push_bit 24 (drop_bit 24 s)"
    using nibble by (simp add: read_command_def commanded_def)
  also have "\<dots> = s"
  proof (rule bit_word_eqI)
    fix n assume "n < LENGTH(32)"
    then consider "n < 8" | "8 \<le> n" "n < 16" | "16 \<le> n" "n < 24" | "24 \<le> n" "n < 32" by fastforce
    then show "bit (ucast (ucast s :: byte) OR push_bit 8 (ucast (ucast (drop_bit 8 s) :: byte))
      OR push_bit 16 (ucast (ucast (drop_bit 16 s) :: byte)) OR push_bit 24 (drop_bit 24 s)) n \<longleftrightarrow> bit s n"
      by cases (auto simp: bit_simps)
  qed
  finally show ?thesis .
qed

lemma drive_ata: "ata_disk (drive disk) disk"
  unfolding ata_disk_def
proof (intro conjI allI impI)
  show "\<exists>n. (ucast (drive disk (replicate n (InB 0x1F7) @ tr) (InB 0x1F7)) :: byte) AND 0xC0 = 0x40" for tr
    by (simp add: drive_def)
next
  fix s :: u32 and n k :: nat and tr assume s: "s < 0x10000000"
  have "takeWhile (\<lambda>e. e = InL 0x1F0) (replicate k (InL 0x1F0) @ replicate n (InB 0x1F7) @ read_command s tr)
      = replicate k (InL 0x1F0)"
    by (subst takeWhile_append2) (auto simp: read_command_def takeWhile_append takeWhile_replicate)
  moreover have "dropWhile (\<lambda>e. e = InL 0x1F0) (replicate k (InL 0x1F0) @ replicate n (InB 0x1F7) @ read_command s tr)
      = replicate n (InB 0x1F7) @ read_command s tr"
    by (subst dropWhile_append2) (auto simp: read_command_def dropWhile_append dropWhile_replicate)
  moreover have "dropWhile (\<lambda>e. e = InB 0x1F7) (replicate n (InB 0x1F7) @ read_command s tr) = read_command s tr"
    by (subst dropWhile_append2) (auto simp: read_command_def)
  moreover have "ucast (ucast w :: u64) = w" for w :: u32
    by (rule bit_word_eqI) (simp add: bit_simps)
  ultimately show "ucast (drive disk (replicate k (InL 0x1F0) @ replicate n (InB 0x1F7) @ read_command s tr) (InL 0x1F0))
      = disk_word disk (512 * unat s + 4 * k)"
    using commanded_read [OF s] by (simp add: drive_def)
qed

definition example_disk :: "nat \<Rightarrow> byte" where
  "example_disk p = (case map_of
     [(512, 0x7F), (513, 0x45), (514, 0x4C), (515, 0x46),
      (538, 0x04),
      (544, 0x40),
      (568, 0x01),
      (576, 0x01),
      (585, 0x10),
      (594, 0x04),
      (608, 0x03),
      (616, 0x05),
      (4608, 0xAA), (4609, 0xBB), (4610, 0xCC)] p of Some b \<Rightarrow> b | None \<Rightarrow> 0)"

definition example_segment :: elf_program where
  "example_segment = \<lparr>p_type = 1, p_flags = 0, p_offset = 0x1000, p_va = 0x40000, p_filesz = 3, p_memsz = 5\<rparr>"

lemma example_image: "kernel_image example_disk 0x40000 [example_segment]"
proof -
  have "elf_header_at (header_page example_disk) ELFHDR_ADDR =
      \<lparr>e_magic = ELF_MAGIC, e_entry = 0x40000, e_phoff = 0x40, e_phnum = 1\<rparr>"
    by (simp add: elf_header_at_def load16_def load32_def load64_def header_page_def example_disk_def)
  moreover have "elf_program_at (header_page example_disk) 0x3040 = example_segment"
    by (simp add: elf_program_at_def example_segment_def load16_def load32_def load64_def header_page_def example_disk_def)
  ultimately show ?thesis
    by (simp add: kernel_image_def Let_def loadable_def example_segment_def)
qed


end
