(* ===== verification/UserLib.thy ===== *)
theory UserLib
  imports Messages Console
begin

text \<open>
  The library of user programs, \<open>pset3/u-lib.cc\<close>: \<open>panic\<close>, \<open>error_vprintf\<close> and \<open>assert_fail\<close>.
  \<open>panic\<close> and \<open>assert_fail\<close> end in \<open>sys_panic\<close>, a system call that does not return: their value is
  the memory at the call and its argument, the address of the message. The buffer is on the stack,
  so its address is an argument, like the address of the string literal \<open>panic\<close> copies. Memory is
  flat: a store past the buffer changes the byte there.
\<close>

section \<open>Definitions\<close>

definition u_panic :: "addr \<Rightarrow> addr \<Rightarrow> mem \<Rightarrow> byte list \<Rightarrow> args \<Rightarrow> (mem \<times> addr) option" where
  "u_panic buf newline m fmt args =
     (case vsnprintf m m buf (240 - 1) fmt args of
        None \<Rightarrow> None
      | Some (m, n) \<Rightarrow>
          let len = sint (ucast n :: u32)
          in if len > 0 \<and> m (buf + word_of_int (len - 1)) \<noteq> 0x0A
             then map_option (\<lambda>(m, _). (m, buf))
               (strcpy m (buf + word_of_int len - (if len = 240 - 1 then 1 else 0)) newline)
             else Some (m, buf))"

definition u_error_printer :: "console \<Rightarrow> int \<Rightarrow> console_printer" where
  "u_error_printer con cursorpos =
     (let pr = console_printer_new con cursorpos (- 1) scroll_blank
      in if cp_cell pr < END_CPOS - CONSOLE_COLUMNS then pr\<lparr>cp_cell := END_CPOS\<rparr> else pr)"

definition u_error_vprintf :: "mem \<Rightarrow> console \<Rightarrow> int \<Rightarrow> byte list \<Rightarrow> args \<Rightarrow> console_printer result option" where
  "u_error_vprintf m con cursorpos fmt args =
     map_option (\<lambda>r. bind_result r console_move_cursor)
       (vprintf console_putc_lifted console_set_color m fmt args (Inr (u_error_printer con cursorpos)))"

text \<open>The cursor, the memory and the argument of the system call.\<close>

definition u_assert_fail :: "addr \<Rightarrow> mem \<Rightarrow> addr \<Rightarrow> int \<Rightarrow> addr \<Rightarrow> addr \<Rightarrow> (int \<times> mem \<times> addr) option" where
  "u_assert_fail buf m file line msg description =
     (let cursorpos = 23 * 80 + 0
      in map_option (\<lambda>(m, _). (cursorpos, m, buf))
           (if description \<noteq> 0
            then snprintf m m buf 240
              (str ''%s:%d: %s'' @ [0x0A] @ str ''%s:%d: user assertion '' @ [0x27] @ str ''%s'' @ [0x27]
                 @ str '' failed'' @ [0x0A])
              [file, word_of_int line, description, file, word_of_int line, msg]
            else snprintf m m buf 240
              (str ''%s:%d: user assertion '' @ [0x27] @ str ''%s'' @ [0x27] @ str '' failed'' @ [0x0A])
              [file, word_of_int line, msg]))"

section \<open>The message of a panic\<close>

text \<open>The text as a line: cut to 238 characters when it does not fit, and ended by a newline.\<close>

definition panic_line :: "byte list \<Rightarrow> byte list" where
  "panic_line out =
     (if out = [] \<or> (length out < 239 \<and> last out = 0x0A) then out else take 238 out @ [0x0A])"

lemma panic_length: "n < 2 ^ 31 \<Longrightarrow> sint (ucast (of_nat n :: u64) :: u32) = int n"
proof -
  assume "n < 2 ^ 31"
  moreover have "(ucast (of_nat n :: u64) :: u32) = word_of_int (int n)"
    by (rule bit_word_eqI) (simp add: bit_simps)
  ultimately show ?thesis
    by (simp only: sint_sbintrunc' signed_take_bit_int_eq_self) (simp add: signed_take_bit_int_eq_self)
qed

lemma u_panic_printed:
  assumes "vsnprintf m m buf 239 fmt args = Some (m1, of_nat n)" "n < 2 ^ 31"
  shows "u_panic buf newline m fmt args =
    (if n > 0 \<and> m1 (buf + word_of_int (int n - 1)) \<noteq> 0x0A
     then map_option (\<lambda>(m, _). (m, buf)) (strcpy m1 (buf + of_nat n - (if n = 239 then 1 else 0)) newline)
     else Some (m1, buf))"
proof -
  have v: "vsnprintf m m buf (240 - 1) fmt args = Some (m1, of_nat n)" using assms(1) by simp
  show ?thesis
    unfolding u_panic_def v option.case prod.case Let_def panic_length [OF assms(2)] by simp
qed

lemma strcpy_char:
  assumes "cstr m s [c]" "d \<noteq> s + 1"
  shows "strcpy m d s = Some (m(d := c, d + 1 := 0), d)"
  using assms by (simp add: strcpy_def strcpy_loop.simps [of m d s] strcpy_loop.simps [of _ "d + 1"])

text \<open>Adding a newline and a terminator after the first \<open>k\<close> characters.\<close>

lemma bytes_append_line:
  assumes "Suc k < 2 ^ 64"
  shows "bytes (m(buf + of_nat k := 0x0A, buf + of_nat k + 1 := 0)) buf (Suc (Suc k)) = bytes m buf k @ [0x0A, 0]"
proof -
  let ?d = "buf + of_nat k :: addr"
  have "unat (of_nat k :: addr) = k" "unat (of_nat (Suc k) :: addr) = Suc k"
    using assms by (simp_all only: unat_of_nat_small)
  then have "bytes (m(?d := 0x0A, ?d + 1 := 0)) buf k = bytes m buf k"
    using bytes_upd_outside [of k "?d + 1" buf "m(?d := 0x0A)" 0] bytes_upd_outside [of k ?d buf m "0x0A"]
    by (simp add: algebra_simps)
  then show ?thesis by (simp only: bytes_Suc_end) (simp add: algebra_simps)
qed

lemma u_panic_line:
  assumes calls: "vprintf_calls m fmt args = Some calls" and fits: "length (call_chars calls) < 240"
    and room: "unat buf + 240 < 2 ^ 64"
    and nl: "cstr m newline [0x0A]" "240 \<le> unat (newline - buf)" "240 \<le> unat (newline + 1 - buf)"
  shows "\<exists>m'. u_panic buf newline m fmt args = Some (m', buf)
    \<and> bytes m' buf (Suc (length (panic_line (call_chars calls)))) = panic_line (call_chars calls) @ [0]
    \<and> (\<forall>x. 240 \<le> unat (x - buf) \<longrightarrow> m' x = m x)"
proof -
  let ?out = "call_chars calls" let ?n = "length ?out" let ?k = "min ?n 238"
  obtain m1 where v: "vsnprintf m m buf 239 fmt args = Some (m1, of_nat ?n)"
    and shown: "bytes m1 buf (Suc ?k) = take ?k ?out @ [0]"
    and out: "\<And>x. 239 \<le> unat (x - buf) \<Longrightarrow> m1 x = m x"
    using vsnprintf_bounded [OF calls, of buf 239 m] room by (fastforce simp: Let_def simp del: bytes.simps)
  have run: "u_panic buf newline m fmt args =
    (if ?n > 0 \<and> m1 (buf + word_of_int (int ?n - 1)) \<noteq> 0x0A
     then map_option (\<lambda>(m, _). (m, buf)) (strcpy m1 (buf + of_nat ?n - (if ?n = 239 then 1 else 0)) newline)
     else Some (m1, buf))"
    using fits by (intro u_panic_printed [OF v]) simp
  have at: "m1 (buf + of_nat i) = (take ?k ?out @ [0]) ! i" if "i \<le> ?k" for i
    using nth_bytes [of i "Suc ?k" m1 buf] that by (simp only: shown less_Suc_eq_le)
  have final: "m1 (buf + word_of_int (int ?n - 1)) = (if ?n = 239 then 0 else last ?out)" if "?out \<noteq> []"
  proof -
    have n: "0 < ?n" "?n - 1 \<le> ?k" using that fits by auto
    have "word_of_int (int ?n - 1) = (of_nat (?n - 1) :: addr)"
      using n(1) by (simp add: of_nat_diff Suc_le_eq)
    then show ?thesis
      using at [OF n(2)] n(1) fits by (auto simp: last_conv_nth nth_append min_def)
  qed
  show ?thesis
  proof (cases "?out = [] \<or> (?n < 239 \<and> last ?out = 0x0A)")
    case True
    have "u_panic buf newline m fmt args = Some (m1, buf)"
      using True final unfolding run by (cases "?out = []") auto
    moreover have "panic_line ?out = ?out" "?k = ?n" using True by (auto simp: panic_line_def)
    ultimately show ?thesis using shown out by (intro exI [of _ m1]) simp
  next
    case False
    let ?d = "buf + of_nat ?k" let ?m = "m1(?d := 0x0A, ?d + 1 := 0)"
    have k: "unat (?d - buf) = ?k" "unat (?d + 1 - buf) = Suc ?k"
      using unat_of_nat_small [of ?k] unat_of_nat_small [of "Suc ?k"]
      by (simp_all add: algebra_simps)
    have ne: "?out \<noteq> []" using False by simp
    have more: "m1 (buf + word_of_int (int ?n - 1)) \<noteq> 0x0A"
      unfolding final [OF ne] using False fits by auto
    have d: "buf + of_nat ?n - (if ?n = 239 then 1 else 0) = ?d" using fits by auto
    have "cstr m1 newline [0x0A]" using nl out by simp
    moreover have "?d \<noteq> newline + 1"
    proof
      assume "?d = newline + 1"
      then have "unat (newline + 1 - buf) = ?k" using k(1) by (simp only:)
      then show False using nl(3) by simp
    qed
    ultimately have "strcpy m1 ?d newline = Some (?m, ?d)" by (rule strcpy_char)
    then have "u_panic buf newline m fmt args = Some (?m, buf)"
      unfolding run d using ne more by (simp only: length_greater_0_conv) simp
    moreover have "?m x = m x" if "240 \<le> unat (x - buf)" for x
    proof -
      have "x \<noteq> ?d" "x \<noteq> ?d + 1" using that k by auto
      then show ?thesis using out [of x] that by simp
    qed
    moreover have "bytes m1 buf ?k = take ?k ?out"
      using shown by (simp only: bytes_Suc_end) simp
    moreover have "panic_line ?out = take ?k ?out @ [0x0A]"
      using False by (auto simp: panic_line_def min_def)
    ultimately show ?thesis
      using bytes_append_line [of ?k m1 buf] by (intro exI [of _ ?m]) simp
  qed
qed

section \<open>Printing to the console\<close>

lemma u_error_printer_ok:
  "0 \<le> cursorpos \<Longrightarrow> cursorpos \<le> END_CPOS \<Longrightarrow> console_ok con [] (Inr (u_error_printer con cursorpos))"
  by (simp add: console_ok_def u_error_printer_def Let_def console_safe_def console_printer_new_def)

lemma u_error_vprintf_safe:
  assumes "vprintf_calls m fmt args = Some calls" "0 \<le> cursorpos" "cursorpos \<le> END_CPOS"
  shows "\<exists>cp. u_error_vprintf m con cursorpos fmt args = Some (Inr cp)
    \<and> 0 \<le> cp_cursorpos cp \<and> cp_cursorpos cp \<le> END_CPOS
    \<and> (\<forall>i. \<not> (0 \<le> i \<and> i < END_CPOS) \<longrightarrow> cp_console cp i = con i)"
proof -
  obtain r where r: "vprintf console_putc_lifted console_set_color m fmt args
      (Inr (u_error_printer con cursorpos)) = Some r" "console_ok con (call_chars calls) r"
    using console_out.vprintf_printed [OF assms(1) u_error_printer_ok [OF assms(2,3)]] by metis
  obtain cp where "console_finish (- 1) r = Inr (cp, cp_cell cp)" "console_safe con cp"
    "cp_cursorpos cp = cp_cell cp" using console_finish_safe [OF r(2), of "- 1"] by auto
  then show ?thesis
    using r by (auto simp: u_error_vprintf_def console_ok_def console_finish_def console_safe_def
        split: sum.splits)
qed

section \<open>The message of a failed assertion\<close>

definition assertion_text :: "byte list \<Rightarrow> int \<Rightarrow> byte list \<Rightarrow> byte list" where
  "assertion_text file line msg =
     file @ str '':'' @ decimal line @ str '': user assertion '' @ [0x27] @ msg @ [0x27] @ str '' failed'' @ [0x0A]"

definition description_text :: "byte list \<Rightarrow> int \<Rightarrow> byte list option \<Rightarrow> byte list" where
  "description_text file line description =
     (case description of None \<Rightarrow> []
      | Some d \<Rightarrow> file @ str '':'' @ decimal line @ str '': '' @ d @ [0x0A])"

lemma prints_assertion:
  assumes "cstr m file f" "cstr m msg t" "length f < 2 ^ 29" "length t < 2 ^ 29"
    and "- (2 ^ 31) \<le> line" "line < 2 ^ 31"
  shows "prints m (str ''%s:%d: user assertion '' @ [0x27] @ str ''%s'' @ [0x27] @ str '' failed'' @ [0x0A])
    [file, word_of_int line, msg] (assertion_text f line t)"
  using assms unfolding str_def assertion_text_def
  by (auto intro!: prints_string prints_decimal prints_char prints_Nil)

lemma prints_description:
  assumes "cstr m file f" "cstr m msg t" "cstr m description d"
    "length f < 2 ^ 29" "length t < 2 ^ 29" "length d < 2 ^ 29" "- (2 ^ 31) \<le> line" "line < 2 ^ 31"
  shows "prints m (str ''%s:%d: %s'' @ [0x0A] @ str ''%s:%d: user assertion '' @ [0x27] @ str ''%s'' @ [0x27]
      @ str '' failed'' @ [0x0A])
    [file, word_of_int line, description, file, word_of_int line, msg]
    (description_text f line (Some d) @ assertion_text f line t)"
  using assms unfolding str_def assertion_text_def description_text_def
  by (auto intro!: prints_string prints_decimal prints_char prints_Nil)

lemma snprintf_text:
  assumes "prints m fmt args out" "unat buf + 240 < 2 ^ 64" "k = min (length out) 239"
  shows "\<exists>m' n. snprintf m m buf 240 fmt args = Some (m', n) \<and> bytes m' buf (Suc k) = take k out @ [0]
    \<and> (\<forall>x. 240 \<le> unat (x - buf) \<longrightarrow> m' x = m x)"
  using vsnprintf_bounded [of m fmt args "map Putc out" buf 240 m] assms
  by (fastforce simp: prints_def snprintf_def Let_def simp del: bytes.simps)

section \<open>Properties\<close>

text \<open>
  a user-level panic hands the kernel its text. For a text of fewer than 240 characters, the
  message is the text as a line, cut to 238 characters if it has 239; it ends with a terminator
  in the buffer, and no byte outside the buffer changes.
\<close>

theorem u_panic_message:
  assumes "vprintf_calls m fmt args = Some calls" "length (call_chars calls) < 240" "unat buf + 240 < 2 ^ 64"
    and "cstr m newline [0x0A]" "240 \<le> unat (newline - buf)" "240 \<le> unat (newline + 1 - buf)"
  shows "\<exists>m'. u_panic buf newline m fmt args = Some (m', buf)
    \<and> bytes m' buf (Suc (length (panic_line (call_chars calls)))) = panic_line (call_chars calls) @ [0]
    \<and> length (panic_line (call_chars calls)) < 240
    \<and> (\<forall>x. 240 \<le> unat (x - buf) \<longrightarrow> m' x = m x)"
proof -
  have "length (panic_line (call_chars calls)) < 240" using assms(2) by (auto simp: panic_line_def)
  then show ?thesis using u_panic_line [OF assms] by blast
qed

theorem u_panic_message_witness:
  "\<exists>m'. u_panic 0x1000 0x2000 ((\<lambda>_. 0)(0x2000 := 0x0A)) [0x6E, 0x6F] [] = Some (m', 0x1000)
    \<and> bytes m' 0x1000 4 = [0x6E, 0x6F, 0x0A, 0]"
proof -
  have calls: "vprintf_calls ((\<lambda>_. 0)(0x2000 := 0x0A)) [0x6E, 0x6F] [] = Some (map Putc [0x6E, 0x6F])" by simp
  have line: "panic_line [0x6E, 0x6F] @ [0] = [0x6E, 0x6F, 0x0A, 0]" "Suc (length (panic_line [0x6E, 0x6F])) = 4"
    by (simp_all add: panic_line_def)
  show ?thesis
    using u_panic_message [OF calls, of "0x1000" "0x2000", unfolded call_chars_Putc line] by auto
qed

text \<open>
  A longer text runs over the buffer: \<open>vsnprintf\<close> returns the length of the whole text, and
  \<open>panic\<close> stores the newline and the terminator at that distance from the buffer.
\<close>

theorem u_panic_overruns:
  assumes calls: "vprintf_calls m fmt args = Some calls" and "240 \<le> length (call_chars calls)"
    and room: "unat buf + length (call_chars calls) < 2 ^ 64" "length (call_chars calls) < 2 ^ 31"
    and char: "m (buf + of_nat (length (call_chars calls) - 1)) \<noteq> 0x0A"
    and nl: "cstr m newline [0x0A]" "239 \<le> unat (newline - buf)" "239 \<le> unat (newline + 1 - buf)"
      "buf + of_nat (length (call_chars calls)) \<noteq> newline + 1"
  shows "\<exists>m'. u_panic buf newline m fmt args = Some (m', buf)
    \<and> m' (buf + of_nat (length (call_chars calls))) = 0x0A
    \<and> m' (buf + of_nat (length (call_chars calls)) + 1) = 0"
proof -
  let ?n = "length (call_chars calls)"
  obtain m1 where v: "vsnprintf m m buf 239 fmt args = Some (m1, of_nat ?n)"
    and out: "\<And>x. 239 \<le> unat (x - buf) \<Longrightarrow> m1 x = m x"
    using vsnprintf_bounded [OF calls, of buf 239 m] assms(2) room(1) by fastforce
  have "unat (of_nat (?n - 1) :: addr) = ?n - 1" using room(1) by (intro unat_of_nat_small) simp
  then have "m1 (buf + of_nat (?n - 1)) = m (buf + of_nat (?n - 1))" using assms(2) by (intro out) simp
  moreover have "word_of_int (int ?n - 1) = (of_nat (?n - 1) :: addr)"
    using assms(2) by (simp add: of_nat_diff)
  ultimately have more: "m1 (buf + word_of_int (int ?n - 1)) \<noteq> 0x0A" using char by (simp only: not_False_eq_True)
  have "cstr m1 newline [0x0A]" using nl out by simp
  then have "strcpy m1 (buf + of_nat ?n) newline
      = Some (m1(buf + of_nat ?n := 0x0A, buf + of_nat ?n + 1 := 0), buf + of_nat ?n)"
    using nl(4) by (rule strcpy_char)
  moreover have "?n > 0" "?n \<noteq> 239" using assms(2) by auto
  ultimately have "u_panic buf newline m fmt args
      = Some (m1(buf + of_nat ?n := 0x0A, buf + of_nat ?n + 1 := 0), buf)"
    unfolding u_panic_printed [OF v room(2)] using more by (simp only: diff_zero if_False) simp
  then show ?thesis by simp
qed

text \<open>
  a failed user assertion moves the cursor to the last but one row and hands the kernel the
  description, if there is one, and the assertion with its file and line, cut to the buffer.
\<close>

theorem u_assert_fail_message:
  assumes "cstr m file f" "cstr m msg t" "length f < 2 ^ 29" "length t < 2 ^ 29"
    and "- (2 ^ 31) \<le> line" "line < 2 ^ 31" "unat buf + 240 < 2 ^ 64"
    and d: "case d of None \<Rightarrow> description = 0
      | Some d \<Rightarrow> description \<noteq> 0 \<and> cstr m description d \<and> length d < 2 ^ 29"
    and k: "k = min (length (description_text f line d @ assertion_text f line t)) 239"
  shows "\<exists>m'. u_assert_fail buf m file line msg description = Some (23 * 80, m', buf)
    \<and> bytes m' buf (Suc k) = take k (description_text f line d @ assertion_text f line t) @ [0]
    \<and> (\<forall>x. 240 \<le> unat (x - buf) \<longrightarrow> m' x = m x)"
proof (cases d)
  case None
  have "prints m (str ''%s:%d: user assertion '' @ [0x27] @ str ''%s'' @ [0x27] @ str '' failed'' @ [0x0A])
      [file, word_of_int line, msg] (description_text f line d @ assertion_text f line t)"
    using prints_assertion [OF assms(1-6)] None by (simp add: description_text_def)
  from snprintf_text [OF this assms(7) k] show ?thesis
    using d None by (auto simp: u_assert_fail_def Let_def)
next
  case (Some e)
  with d have e: "description \<noteq> 0" "cstr m description e" "length e < 2 ^ 29" by simp_all
  from snprintf_text [OF prints_description [OF assms(1,2) e(2) assms(3,4) e(3) assms(5,6)] assms(7)]
  show ?thesis using e(1) k Some by (fastforce simp: u_assert_fail_def Let_def simp del: bytes.simps)
qed

end
