(* ===== verification/Rand.thy ===== *)
theory Rand
  imports Prelude
begin

text \<open>
  The pseudorandom number generators of \<open>pset3/lib.cc\<close>: \<open>rand\<close>, \<open>srand\<close>, \<open>rand_engine\<close> and the
  rejection sampling of \<open>uniform_int_distribution\<close>. The generator is a linear congruence modulo
  \<open>2^64\<close>; it is shown to have full period, so the rejection loop always ends. The locale
  \<open>lcg_engine\<close> states what the sampling relies on; both engines interpret it.
\<close>

section \<open>Definitions\<close>

abbreviation RAND_MAX :: u64 where "RAND_MAX \<equiv> 0x7FFFFFFF"
abbreviation LCG_MUL :: u64 where "LCG_MUL \<equiv> 6364136223846793005"

record rand_state =
  rand_seed_set :: bool
  rand_seed :: u64

definition srand :: "u32 \<Rightarrow> rand_state \<Rightarrow> rand_state" where
  "srand seed s = s\<lparr>rand_seed := push_bit 32 (ucast seed) OR ucast seed, rand_seed_set := True\<rparr>"

text \<open>The compare-and-exchange loop, with no interference from another thread.\<close>

definition rand :: "rand_state \<Rightarrow> rand_state \<times> u64" where
  "rand s =
     (let s = (if \<not> rand_seed_set s then srand 819234718 s else s);
          next_rs = rand_seed s * LCG_MUL + 1
      in (s\<lparr>rand_seed := next_rs\<rparr>, drop_bit 33 next_rs AND RAND_MAX))"

definition rand_engine_new :: "u32 \<Rightarrow> u64" where
  "rand_engine_new s = push_bit 32 (ucast s) OR ucast s"

definition rand_engine_call :: "u64 \<Rightarrow> u64 \<times> u64" where
  "rand_engine_call seed =
     (let seed = seed * LCG_MUL + 1 in (seed, drop_bit 33 seed AND RAND_MAX))"

partial_function (option) reject_loop :: "('s \<Rightarrow> 's \<times> u64) \<Rightarrow> u64 \<Rightarrow> 's \<Rightarrow> ('s \<times> u64) option" where
  "reject_loop engine bound s =
     (let (s', r) = engine s in if r \<ge> bound then reject_loop engine bound s' else Some (s', r))"

text \<open>The template at \<open>int\<close> (\<open>is_int\<close>) and at \<open>unsigned\<close>; the arithmetic on \<open>max - min\<close> is done in
  that type, and overflow of \<open>int\<close> is undefined.\<close>

definition uniform_int_distribution ::
  "bool \<Rightarrow> int \<Rightarrow> int \<Rightarrow> ('s \<Rightarrow> 's \<times> u64) \<Rightarrow> 's \<Rightarrow> ('s \<times> int) result option" where
  "uniform_int_distribution is_int lo hi engine s =
     (if \<not> lo \<le> hi then Some (Inl (AssertFail ''min <= max''))
      else if is_int \<and> hi - lo \<ge> 2 ^ 31 then Some (Inl (Undefined ''max - min''))
      else if \<not> hi - lo \<le> uint RAND_MAX then Some (Inl (AssertFail ''max - min <= RAND_MAX''))
      else if is_int \<and> hi - lo + 1 \<ge> 2 ^ 31 then Some (Inl (Undefined ''max - min + 1''))
      else let amount = word_of_int (hi - lo + 1);
               per = (RAND_MAX + 1) div amount;
               bound = per * amount
           in map_option (\<lambda>(s', r). Inr (s', lo + uint (r div per))) (reject_loop engine bound s))"

definition rand_between :: "int \<Rightarrow> int \<Rightarrow> rand_state \<Rightarrow> (rand_state \<times> int) result option" where
  "rand_between lo hi s = uniform_int_distribution True lo hi rand s"

definition rand_engine_unsigned :: "int \<Rightarrow> int \<Rightarrow> u64 \<Rightarrow> (u64 \<times> int) result option" where
  "rand_engine_unsigned lo hi seed = uniform_int_distribution False lo hi rand_engine_call seed"

definition rand_engine_int :: "int \<Rightarrow> int \<Rightarrow> u64 \<Rightarrow> (u64 \<times> int) result option" where
  "rand_engine_int lo hi seed = uniform_int_distribution True lo hi rand_engine_call seed"

section \<open>The linear congruence has full period\<close>

text \<open>The step on integers, for a multiplier that is 1 modulo 4.\<close>

definition lcg_int :: "int \<Rightarrow> int" where
  "lcg_int x = 6364136223846793005 * x + 1"

lemma lcg_pow: "(lcg_int ^^ n) x = 6364136223846793005 ^ n * x + (lcg_int ^^ n) 0"
  by (induction n) (simp_all add: lcg_int_def algebra_simps)

lemma mul_pow2: "\<exists>q. (6364136223846793005 :: int) ^ 2 ^ k = 1 + 4 * 2 ^ k * q"
proof (induction k)
  case 0
  have "(6364136223846793005 :: int) = 1 + 4 * 1591034055961698251" by simp
  then show ?case by (auto intro: exI [of _ 1591034055961698251])
next
  case (Suc k)
  then obtain q where "(6364136223846793005 :: int) ^ 2 ^ k = 1 + 4 * 2 ^ k * q" by blast
  then have "(6364136223846793005 :: int) ^ 2 ^ Suc k = (1 + 4 * 2 ^ k * q) * (1 + 4 * 2 ^ k * q)"
    by (simp add: power_mult power2_eq_square mult.commute [of 2])
  also have "\<dots> = 1 + 4 * 2 ^ Suc k * (q + 2 * 2 ^ k * q * q)" by (simp add: algebra_simps)
  finally show ?case by blast
qed

lemma sum_pow2: "\<exists>q. (lcg_int ^^ (2 ^ k)) 0 = 2 ^ k * (2 * q + 1)"
proof (induction k)
  case 0
  then show ?case by (auto simp: lcg_int_def intro: exI [of _ 0])
next
  case (Suc k)
  then obtain q where q: "(lcg_int ^^ (2 ^ k)) 0 = 2 ^ k * (2 * q + 1)" by blast
  obtain p where p: "(6364136223846793005 :: int) ^ 2 ^ k = 1 + 4 * 2 ^ k * p" using mul_pow2 by blast
  have "(lcg_int ^^ (2 ^ Suc k)) 0 = (lcg_int ^^ (2 ^ k)) ((lcg_int ^^ (2 ^ k)) 0)"
    by (simp add: mult_2 funpow_add)
  also have "\<dots> = (1 + 4 * 2 ^ k * p) * (2 ^ k * (2 * q + 1)) + 2 ^ k * (2 * q + 1)"
    by (subst lcg_pow) (simp only: p q)
  also have "\<dots> = 2 ^ Suc k * (2 * (q + 2 ^ k * p * (2 * q + 1)) + 1)" by (simp add: algebra_simps)
  finally show ?case by blast
qed

lemma lcg_pow2_step: "\<exists>t. (lcg_int ^^ (2 ^ k)) x = x + 2 ^ k + 2 ^ Suc k * t"
proof -
  obtain p where p: "(6364136223846793005 :: int) ^ 2 ^ k = 1 + 4 * 2 ^ k * p" using mul_pow2 by blast
  obtain q where q: "(lcg_int ^^ (2 ^ k)) 0 = 2 ^ k * (2 * q + 1)" using sum_pow2 by blast
  have "(lcg_int ^^ (2 ^ k)) x = x + 2 ^ k + 2 ^ Suc k * (2 * p * x + q)"
    by (subst lcg_pow) (simp add: p q algebra_simps)
  then show ?thesis by blast
qed

lemma lcg_reaches: "\<exists>n. (2 :: int) ^ k dvd (lcg_int ^^ n) x - y"
proof (induction k)
  case (Suc k)
  then obtain n where "(2 :: int) ^ k dvd (lcg_int ^^ n) x - y" by blast
  then obtain c where c: "(lcg_int ^^ n) x - y = 2 ^ k * c" by blast
  show ?case
  proof (cases "even c")
    case True
    then obtain b where "c = 2 * b" by blast
    then have "(lcg_int ^^ n) x - y = 2 ^ Suc k * b" using c by simp
    then show ?thesis by (metis dvd_triv_left)
  next
    case False
    then obtain b where b: "c = 2 * b + 1" by (auto elim: oddE)
    obtain t where "(lcg_int ^^ (2 ^ k)) ((lcg_int ^^ n) x) = (lcg_int ^^ n) x + 2 ^ k + 2 ^ Suc k * t"
      using lcg_pow2_step by blast
    moreover have "(lcg_int ^^ (2 ^ k + n)) x = (lcg_int ^^ (2 ^ k)) ((lcg_int ^^ n) x)"
      by (simp only: funpow_add comp_apply)
    ultimately have "(lcg_int ^^ (2 ^ k + n)) x - y = 2 ^ Suc k * (b + 1 + t)"
      using c b by (simp only:) (simp add: algebra_simps)
    then show ?thesis by (metis dvd_triv_left)
  qed
qed simp

abbreviation lcg :: "u64 \<Rightarrow> u64" where
  "lcg x \<equiv> x * LCG_MUL + 1"

lemma lcg_word: "(lcg ^^ n) (word_of_int x) = word_of_int ((lcg_int ^^ n) x)"
  by (induction n) (simp_all add: lcg_int_def mult.commute)

lemma lcg_full_period: "\<exists>n. (lcg ^^ n) x = y"
proof -
  obtain n where "(2 :: int) ^ 64 dvd (lcg_int ^^ n) (uint x) - uint y" using lcg_reaches by blast
  then have "(word_of_int ((lcg_int ^^ n) (uint x)) :: u64) = word_of_int (uint y)"
    by (simp only: word_of_int_eq_iff take_bit_eq_mod mod_eq_dvd_iff len_num1 len_bit0) simp
  then show ?thesis using lcg_word [of n "uint x"] by auto
qed

section \<open>Rejection sampling\<close>

locale lcg_engine =
  fixes engine :: "'s \<Rightarrow> 's \<times> u64" and seed :: "'s \<Rightarrow> u64"
  assumes engine_step: "\<exists>s'. engine s = (s', drop_bit 33 (lcg (seed s)) AND RAND_MAX) \<and> seed s' = lcg (seed s)"
begin

lemma reject_loop_returns:
  assumes "(lcg ^^ Suc n) (seed s) = 0" "0 < bound"
  shows "\<exists>s' r. reject_loop engine bound s = Some (s', r) \<and> r < bound"
  using assms(1)
proof (induction n arbitrary: s)
  case 0
  obtain s' where "engine s = (s', drop_bit 33 (lcg (seed s)) AND RAND_MAX)" using engine_step by blast
  moreover have "lcg (seed s) = 0" using 0 by simp
  ultimately show ?case using assms(2) by (simp add: reject_loop.simps [of engine bound s])
next
  case (Suc n)
  obtain s' where s': "engine s = (s', drop_bit 33 (lcg (seed s)) AND RAND_MAX)" "seed s' = lcg (seed s)"
    using engine_step by blast
  have "(lcg ^^ Suc n) (seed s') = 0" using Suc.prems s'(2) by (simp only: funpow_Suc_right comp_apply)
  from Suc.IH [OF this] s'(1) show ?case
    by (cases "drop_bit 33 (lcg (seed s)) AND RAND_MAX \<ge> bound")
      (simp_all add: reject_loop.simps [of engine bound s])
qed

lemma uniform_in_range:
  assumes "lo \<le> hi" "hi - lo + 1 < 2 ^ 31 \<or> \<not> is_int \<and> hi - lo + 1 = 2 ^ 31"
  shows "\<exists>s' x. uniform_int_distribution is_int lo hi engine s = Some (Inr (s', x)) \<and> lo \<le> x \<and> x \<le> hi"
proof -
  define A where "A = nat (hi - lo + 1)"
  define amount where "amount = (word_of_int (hi - lo + 1) :: u64)"
  let ?per = "(RAND_MAX + 1) div amount"
  have A: "0 < A" "A \<le> 2 ^ 31" using assms by (auto simp: A_def)
  have unat_amount: "unat amount = A"
    using assms by (simp only: A_def amount_def unsigned_of_int) (auto simp: take_bit_int_eq_self)
  have per: "unat ?per = 2 ^ 31 div A" by (simp add: unat_div unat_amount)
  have "unat ?per * unat amount < 2 ^ 64"
    unfolding per unat_amount by (rule le_less_trans [OF div_times_less_eq_dividend]) simp
  then have "unat (?per * amount) = unat ?per * unat amount"
    unfolding unat_word_ariths by (intro mod_less) simp
  then have bound: "unat (?per * amount) = 2 ^ 31 div A * A"
    unfolding per unat_amount .
  have pos: "0 < 2 ^ 31 div A" using A by (simp add: div_greater_zero_iff)
  then have "0 < ?per * amount" using A bound by (simp add: word_less_nat_alt)
  moreover obtain n where "(lcg ^^ n) (lcg (seed s)) = 0" using lcg_full_period by blast
  then have "(lcg ^^ Suc n) (seed s) = 0" by (simp only: funpow_Suc_right comp_apply)
  ultimately obtain s' r where r: "reject_loop engine (?per * amount) s = Some (s', r)" "r < ?per * amount"
    using reject_loop_returns by blast
  have "unat r div (2 ^ 31 div A) < A"
    using r(2) bound pos by (simp add: word_less_nat_alt div_less_iff_less_mult mult.commute)
  then have "uint (r div ?per) < int A"
    unfolding uint_less_iff unat_div [of r ?per] per .
  then have "lo + uint (r div ?per) \<le> hi" using assms(1) by (simp add: A_def split: if_splits)
  then show ?thesis
    using assms r(1) by (auto simp: uniform_int_distribution_def Let_def amount_def [symmetric] simp del: of_int_add of_int_diff)
qed

end

interpretation engine: lcg_engine rand_engine_call "\<lambda>s. s"
  by unfold_locales (simp add: rand_engine_call_def Let_def)

text \<open>The seed \<open>rand\<close> works from, set or not.\<close>

definition effective_seed :: "rand_state \<Rightarrow> u64" where
  "effective_seed s = rand_seed (if \<not> rand_seed_set s then srand 819234718 s else s)"

interpretation global_rand: lcg_engine rand effective_seed
  by unfold_locales (simp add: rand_def Let_def effective_seed_def srand_def)

section \<open>Properties\<close>

text \<open>
  \<open>C14\<close>: the random number functions return a number in the requested range. For every seed and
  every range of fewer than \<open>2^31\<close> integers (and for the unsigned engine also of \<open>2^31\<close>), the
  rejection loop ends and the result lies between \<open>min\<close> and \<open>max\<close> inclusive.
\<close>

theorem rand_in_range:
  assumes "lo \<le> hi" "hi - lo + 1 < 2 ^ 31"
  shows "(\<exists>s' x. rand_between lo hi s = Some (Inr (s', x)) \<and> lo \<le> x \<and> x \<le> hi)
    \<and> (\<exists>q x. rand_engine_int lo hi p = Some (Inr (q, x)) \<and> lo \<le> x \<and> x \<le> hi)
    \<and> (\<exists>q x. rand_engine_unsigned lo (lo + (2 ^ 31 - 1)) p = Some (Inr (q, x))
          \<and> lo \<le> x \<and> x \<le> lo + (2 ^ 31 - 1))"
  using global_rand.uniform_in_range [of lo hi True s] engine.uniform_in_range [of lo hi True p]
    engine.uniform_in_range [of lo "lo + (2 ^ 31 - 1)" False p] assms
  by (simp add: rand_between_def rand_engine_int_def rand_engine_unsigned_def)

theorem rand_in_range_witness:
  "\<exists>s' x. rand_between 1 6 \<lparr>rand_seed_set = False, rand_seed = 0\<rparr> = Some (Inr (s', x)) \<and> 1 \<le> x \<and> x \<le> 6"
  using rand_in_range [of 1 6 "\<lparr>rand_seed_set = False, rand_seed = 0\<rparr>" 0] by auto

text \<open>
  the is_int functions cannot serve the whole range their interface allows. With
  \<open>max - min = RAND_MAX\<close>, which the header permits, \<open>max - min + 1\<close> overflows \<open>int\<close>, so the call
  is undefined before any number is drawn.
\<close>

theorem rand_full_range_overflows:
  "rand_between lo (lo + 2147483647) s = Some (Inl (Undefined ''max - min + 1''))"
  by (simp add: rand_between_def uniform_int_distribution_def)

end
