(* ===== verification/Allocators.thy ===== *)
theory Allocators
  imports Prelude
begin

text \<open>
  The allocators of \<open>pset1b\<close> over one buffer of 8 MiB: \<open>m61-once.cc\<close> (and \<open>m61-section.cc\<close>,
  which is the same), \<open>m61-lastalloc.cc\<close>, \<open>m61-reuseempty.cc\<close>, \<open>m61-staff.cc\<close> and
  \<open>m61-derp.cc\<close>. The system's \<open>malloc\<close> gives the buffer: its address is the argument \<open>base\<close>,
  0 when there is no memory. A locale states the contract of an allocator: the blocks a client
  holds never overlap.
\<close>

section \<open>Definitions\<close>

abbreviation BUFFER_SIZE :: u64 where "BUFFER_SIZE \<equiv> 0x800000"

record m61_statistics =
  total_count :: u64
  total_bytes :: u64
  active_count :: u64
  active_bytes :: u64

record bump =
  buffer :: addr
  end_buffer :: addr

definition init_buffer :: "addr \<Rightarrow> 's bump_scheme \<Rightarrow> 's bump_scheme result" where
  "init_buffer base s =
     (if buffer s = 0
      then if base = 0 then Inl (AssertFail ''buffer'')
           else Inr (s\<lparr>buffer := base, end_buffer := base + BUFFER_SIZE\<rparr>)
      else Inr s)"

subsection \<open>The allocator that allocates each byte once\<close>

definition once_malloc :: "addr \<Rightarrow> u64 \<Rightarrow> bump \<Rightarrow> (addr \<times> bump) result" where
  "once_malloc base sz s =
     bind_result (init_buffer base s) (\<lambda>s.
     let space = end_buffer s - buffer s in
     if sz > space then Inr (0, s)
     else Inr (buffer s, s\<lparr>buffer := buffer s + sz\<rparr>))"

definition once_free :: "addr \<Rightarrow> bump \<Rightarrow> bump result" where
  "once_free p s = Inr s"

subsection \<open>The allocator that can free the last allocation\<close>

record last_bump = bump +
  last_allocation :: addr

definition last_malloc :: "addr \<Rightarrow> u64 \<Rightarrow> last_bump \<Rightarrow> (addr \<times> last_bump) result" where
  "last_malloc base sz s =
     bind_result (init_buffer base s) (\<lambda>s.
     let space = end_buffer s - buffer s in
     if sz > space then Inr (0, s)
     else Inr (buffer s, s\<lparr>last_allocation := buffer s, buffer := buffer s + sz\<rparr>))"

definition last_free :: "addr \<Rightarrow> last_bump \<Rightarrow> last_bump result" where
  "last_free p s =
     (if p \<noteq> 0 \<and> p = last_allocation s
      then Inr (s\<lparr>buffer := last_allocation s, last_allocation := 0\<rparr>) else Inr s)"

subsection \<open>The allocator that starts over when nothing is allocated\<close>

record reuse_bump = bump +
  reuse_gs :: m61_statistics

definition count_alloc :: "u64 \<Rightarrow> m61_statistics \<Rightarrow> m61_statistics" where
  "count_alloc sz g = g\<lparr>total_bytes := total_bytes g + sz, total_count := total_count g + 1,
     active_bytes := active_bytes g + sz, active_count := active_count g + 1\<rparr>"

definition reuse_malloc :: "addr \<Rightarrow> u64 \<Rightarrow> reuse_bump \<Rightarrow> (addr \<times> reuse_bump) result" where
  "reuse_malloc base sz s =
     bind_result (init_buffer base s) (\<lambda>s.
     let space = end_buffer s - buffer s in
     if sz > space then Inr (0, s)
     else Inr (buffer s, s\<lparr>reuse_gs := count_alloc sz (reuse_gs s), buffer := buffer s + sz\<rparr>))"

definition reuse_free :: "addr \<Rightarrow> reuse_bump \<Rightarrow> reuse_bump result" where
  "reuse_free p s =
     (if p \<noteq> 0
      then let s = s\<lparr>reuse_gs := (reuse_gs s)\<lparr>active_count := active_count (reuse_gs s) - 1\<rparr>\<rparr> in
           if active_count (reuse_gs s) = 0
           then Inr (s\<lparr>buffer := end_buffer s - BUFFER_SIZE, reuse_gs := (reuse_gs s)\<lparr>active_bytes := 0\<rparr>\<rparr>)
           else Inr s
      else Inr s)"

subsection \<open>The allocator that checks its frees\<close>

text \<open>Like \<open>std::map\<close>, \<open>insert\<close> leaves an entry alone that is there already.\<close>

record staff_bump = bump +
  staff_gs :: m61_statistics
  active_allocs :: "addr \<rightharpoonup> u64"

definition staff_malloc :: "addr \<Rightarrow> u64 \<Rightarrow> staff_bump \<Rightarrow> (addr \<times> staff_bump) result" where
  "staff_malloc base sz s =
     bind_result (init_buffer base s) (\<lambda>s.
     let space = end_buffer s - buffer s in
     if sz > space then Inr (0, s)
     else Inr (buffer s, s\<lparr>staff_gs := count_alloc sz (staff_gs s),
            active_allocs := (if active_allocs s (buffer s) = None
              then (active_allocs s)(buffer s \<mapsto> sz) else active_allocs s),
            buffer := buffer s + sz\<rparr>))"

definition staff_free :: "addr \<Rightarrow> staff_bump \<Rightarrow> staff_bump result" where
  "staff_free p s =
     (if p \<noteq> 0
      then case active_allocs s p of
             None \<Rightarrow> Inl (AssertFail ''invalid free'')
           | Some sz \<Rightarrow> Inr (s\<lparr>staff_gs := (staff_gs s)\<lparr>active_count := active_count (staff_gs s) - 1,
                 active_bytes := active_bytes (staff_gs s) - sz\<rparr>,
                 active_allocs := (active_allocs s)(p := None)\<rparr>)
      else Inr s)"

subsection \<open>The allocator with one structure for all blocks\<close>

record allocinfo =
  bsz :: u64
  usz :: u64
  is_free :: bool

text \<open>The map is the list of its entries in the order of their addresses.\<close>

record derp =
  derp_gs :: m61_statistics
  blocks :: "(addr \<times> allocinfo) list"

fun map_assign :: "addr \<Rightarrow> allocinfo \<Rightarrow> (addr \<times> allocinfo) list \<Rightarrow> (addr \<times> allocinfo) list" where
  "map_assign k v [] = [(k, v)]"
| "map_assign k v ((k', v') # xs) =
     (if k < k' then (k, v) # (k', v') # xs
      else if k = k' then (k, v) # xs
      else (k', v') # map_assign k v xs)"

fun find_block :: "u64 \<Rightarrow> (addr \<times> allocinfo) list \<Rightarrow> (addr \<times> allocinfo) option" where
  "find_block sz [] = None"
| "find_block sz ((k, v) # xs) = (if \<not> is_free v \<or> bsz v < sz then find_block sz xs else Some (k, v))"

definition derp_malloc :: "addr \<Rightarrow> u64 \<Rightarrow> derp \<Rightarrow> (addr \<times> derp) result" where
  "derp_malloc base sz s =
     bind_result
       (if blocks s = []
        then if base = 0 then Inl (AssertFail ''buffer'')
             else Inr (s\<lparr>blocks := [(base, \<lparr>bsz = BUFFER_SIZE, usz = 0, is_free = True\<rparr>)]\<rparr>)
        else Inr s) (\<lambda>s.
     case find_block sz (blocks s) of
       None \<Rightarrow> Inr (0, s)
     | Some (k, v) \<Rightarrow>
         let asz = (if sz \<noteq> 0 \<and> sz mod 16 = 0 then sz else (sz OR 15) + 1);
             bs = map_assign (k + asz) \<lparr>bsz = bsz v - asz, usz = 0, is_free = True\<rparr> (blocks s);
             bs = map_assign k \<lparr>bsz = asz, usz = sz, is_free = False\<rparr> bs
         in Inr (k, s\<lparr>blocks := bs, derp_gs := count_alloc sz (derp_gs s)\<rparr>))"

definition derp_free :: "addr \<Rightarrow> derp \<Rightarrow> derp result" where
  "derp_free p s =
     (if p = 0 then Inr s
      else case map_of (blocks s) p of
             None \<Rightarrow> Inl (AssertFail ''invalid free'')
           | Some v \<Rightarrow>
               if is_free v then Inl (AssertFail ''double free'')
               else Inr (s\<lparr>blocks := map_assign p (v\<lparr>is_free := True\<rparr>) (blocks s),
                      derp_gs := (derp_gs s)\<lparr>active_count := active_count (derp_gs s) - 1,
                        active_bytes := active_bytes (derp_gs s) - usz v\<rparr>\<rparr>))"

section \<open>The contract of an allocator\<close>

definition block :: "addr \<times> u64 \<Rightarrow> nat set" where
  "block b = {unat (fst b) ..< unat (fst b) + unat (snd b)}"

definition separate :: "(addr \<times> u64) set \<Rightarrow> bool" where
  "separate L \<longleftrightarrow> (\<forall>b \<in> L. \<forall>c \<in> L. b \<noteq> c \<longrightarrow> block b \<inter> block c = {})"

text \<open>
  The states and the blocks a client holds, when it asks for blocks that are not empty and frees
  blocks it holds.
\<close>

inductive history ::
  "(u64 \<Rightarrow> 's \<Rightarrow> (addr \<times> 's) result) \<Rightarrow> (addr \<Rightarrow> 's \<Rightarrow> 's result) \<Rightarrow> 's \<Rightarrow> 's \<Rightarrow> (addr \<times> u64) set \<Rightarrow> bool"
  for malloc free s0 where
  start: "history malloc free s0 s0 {}"
| allocated: "history malloc free s0 s' (insert (p, sz) L)"
    if "history malloc free s0 s L" "0 < sz" "malloc sz s = Inr (p, s')" "p \<noteq> 0"
| no_memory: "history malloc free s0 s' L"
    if "history malloc free s0 s L" "0 < sz" "malloc sz s = Inr (0, s')"
| freed: "history malloc free s0 s' (L - {(p, sz)})"
    if "history malloc free s0 s L" "(p, sz) \<in> L" "free p s = Inr s'"

text \<open>The buffer of 8 MiB does not wrap around the address space.\<close>

definition good_base :: "addr \<Rightarrow> bool" where
  "good_base base \<longleftrightarrow> base \<noteq> 0 \<and> unat base + unat BUFFER_SIZE < 2 ^ 64"

locale allocator =
  fixes malloc :: "addr \<Rightarrow> u64 \<Rightarrow> 's \<Rightarrow> (addr \<times> 's) result" and free :: "addr \<Rightarrow> 's \<Rightarrow> 's result"
    and s0 :: 's and ok :: "addr \<Rightarrow> 's \<Rightarrow> (addr \<times> u64) set \<Rightarrow> bool"
  assumes ok_start: "good_base base \<Longrightarrow> ok base s0 {}"
    and ok_separate: "ok base s L \<Longrightarrow> separate L"
    and ok_malloc: "good_base base \<Longrightarrow> ok base s L \<Longrightarrow> 0 < sz \<Longrightarrow> malloc base sz s = Inr (p, s') \<Longrightarrow> p \<noteq> 0
      \<Longrightarrow> ok base s' (insert (p, sz) L)"
    and ok_no_memory: "good_base base \<Longrightarrow> ok base s L \<Longrightarrow> malloc base sz s = Inr (0, s') \<Longrightarrow> 0 < sz \<Longrightarrow> ok base s' L"
    and ok_free: "good_base base \<Longrightarrow> ok base s L \<Longrightarrow> (p, sz) \<in> L
      \<Longrightarrow> \<exists>s'. free p s = Inr s' \<and> ok base s' (L - {(p, sz)})"
begin

lemma history_ok: "history (malloc base) free s0 s L \<Longrightarrow> good_base base \<Longrightarrow> ok base s L"
proof (induction rule: history.induct)
  case (freed s L p sz s')
  then show ?case using ok_free [OF freed.prems freed.IH [OF freed.prems] freed.hyps(2)] by auto
qed (auto intro: ok_start ok_malloc ok_no_memory)

lemma history_separate: "history (malloc base) free s0 s L \<Longrightarrow> good_base base \<Longrightarrow> separate L"
  by (rule ok_separate [OF history_ok])

text \<open>A client can free every block it holds.\<close>

lemma history_free:
  "history (malloc base) free s0 s L \<Longrightarrow> good_base base \<Longrightarrow> (p, sz) \<in> L \<Longrightarrow> \<exists>s'. free p s = Inr s'"
  using ok_free [OF _ history_ok] by blast

end

section \<open>Allocators that move a pointer\<close>

text \<open>The blocks of \<open>L\<close> lie below the pointer.\<close>

definition bump_ok :: "addr \<Rightarrow> 's bump_scheme \<Rightarrow> (addr \<times> u64) set \<Rightarrow> bool" where
  "bump_ok base s L \<longleftrightarrow>
     separate L \<and> (if buffer s = 0 then L = {}
       else end_buffer s = base + BUFFER_SIZE \<and> base \<le> buffer s \<and> buffer s \<le> end_buffer s
         \<and> (\<forall>(p, sz) \<in> L. base \<le> p \<and> 0 < sz \<and> unat p + unat sz \<le> unat (buffer s)))"

lemma separate_insert:
  assumes "separate L" "\<And>p a. (p, a) \<in> L \<Longrightarrow> unat p + unat a \<le> unat q"
  shows "separate (insert (q, b) L)"
proof -
  have new: "block (p, a) \<inter> block (q, b) = {}" if "(p, a) \<in> L" for p a
    using assms(2) [OF that] by (auto simp: block_def)
  show ?thesis using assms(1) new unfolding separate_def by fast
qed

lemma separate_subset: "separate L \<Longrightarrow> M \<subseteq> L \<Longrightarrow> separate M"
  unfolding separate_def by blast

lemma init_buffer_ok:
  assumes "good_base base" "bump_ok base s L" "init_buffer base s = Inr s'"
  shows "bump_ok base s' L" "buffer s' \<noteq> 0" "bump.more s' = bump.more s"
proof -
  have le: "base \<le> base + BUFFER_SIZE"
    using assms(1) by (simp add: good_base_def word_le_nat_alt unat_word_ariths)
  show "bump_ok base s' L" "buffer s' \<noteq> 0" "bump.more s' = bump.more s"
    using assms le by (auto simp: init_buffer_def bump_ok_def good_base_def split: if_splits)
qed

text \<open>One allocation: the block at the pointer, and the pointer after it.\<close>

lemma bump_ok_alloc:
  assumes base: "good_base base" and ok: "bump_ok base s L" "buffer s \<noteq> 0"
    and fits: "sz \<le> end_buffer s - buffer s" "0 < sz" and s': "buffer s' = buffer s + sz" "end_buffer s' = end_buffer s"
  shows "bump_ok base s' (insert (buffer s, sz) L)"
proof -
  have e: "unat (end_buffer s) = unat base + unat BUFFER_SIZE" "base \<le> buffer s" "buffer s \<le> end_buffer s"
    "end_buffer s = base + BUFFER_SIZE"
    using ok base by (auto simp: bump_ok_def good_base_def unat_word_ariths)
  have "unat (end_buffer s - buffer s) = unat (end_buffer s) - unat (buffer s)"
    using e(3) by (rule unat_sub)
  then have sum: "unat (buffer s) + unat sz \<le> unat (end_buffer s)"
    using fits(1) e(3) by (simp add: word_le_nat_alt)
  have "unat (end_buffer s) < 2 ^ 64" using unsigned_less [of "end_buffer s", where 'a = nat] by simp
  then have add: "unat (buffer s + sz) = unat (buffer s) + unat sz"
    using sum by (intro unat_add_lem [THEN iffD1]) simp
  have below: "unat p + unat a \<le> unat (buffer s)" if "(p, a) \<in> L" for p a
    using ok that by (auto simp: bump_ok_def)
  have "separate (insert (buffer s, sz) L)"
    using ok(1) below by (intro separate_insert) (auto simp: bump_ok_def)
  moreover have "buffer s' \<noteq> 0" using add fits(2) s'(1) by (metis add_is_0 unat_0 unat_gt_0 less_irrefl)
  moreover have "base \<le> buffer s'" using e(2) add s'(1) by (simp add: word_le_nat_alt)
  moreover have "buffer s' \<le> end_buffer s'" using sum add s' by (simp add: word_le_nat_alt)
  moreover have "\<forall>(p, a) \<in> insert (buffer s, sz) L. base \<le> p \<and> 0 < a \<and> unat p + unat a \<le> unat (buffer s')"
  proof -
    have old: "base \<le> p \<and> 0 < a \<and> unat p + unat a \<le> unat (buffer s')" if "(p, a) \<in> L" for p a
    proof -
      have "base \<le> p" "0 < a" using ok that by (auto simp: bump_ok_def)
      then show ?thesis using below [OF that] add s'(1) by simp
    qed
    then show ?thesis using e(2) fits(2) add s'(1) by auto
  qed
  ultimately show ?thesis using e(4) s'(2) by (simp add: bump_ok_def)
qed

lemma bump_ok_free: "bump_ok base s L \<Longrightarrow> bump_ok base s (L - M)"
  by (auto simp: bump_ok_def intro: separate_subset)

lemma bump_ok_cong:
  "bump_ok base s L \<Longrightarrow> buffer s' = buffer s \<Longrightarrow> end_buffer s' = end_buffer s \<Longrightarrow> bump_ok base s' L"
  by (cases "buffer s = 0") (auto simp: bump_ok_def)

lemma bump_okD:
  assumes "good_base base" "bump_ok base s L" "(p, sz) \<in> L"
  shows "p \<noteq> 0" "p < buffer s" "0 < sz" "base \<le> p" "unat p + unat sz \<le> unat (buffer s)"
proof -
  have b: "buffer s \<noteq> 0" using assms(2,3) by (auto simp: bump_ok_def)
  then show *: "0 < sz" "base \<le> p" "unat p + unat sz \<le> unat (buffer s)"
    using assms(2,3) by (auto simp: bump_ok_def)
  have "0 < unat sz" using *(1) by (simp add: word_less_nat_alt)
  then show "p < buffer s" using *(3) by (simp add: word_less_nat_alt)
  have "0 < unat base" using assms(1) by (simp add: good_base_def unat_gt_0)
  then show "p \<noteq> 0" using *(2) by (auto simp: word_le_nat_alt)
qed

text \<open>A held address is held once, so there are fewer blocks than addresses.\<close>

lemma bump_ok_inj:
  assumes "good_base base" "bump_ok base s L"
  shows "inj_on fst L"
proof (rule inj_onI)
  fix b c assume bc: "b \<in> L" "c \<in> L" "fst b = fst c"
  obtain p x y where [simp]: "b = (p, x)" "c = (p, y)" using bc(3) by (metis prod.collapse)
  have "0 < unat x" "0 < unat y"
    using bump_okD(3) [OF assms, of p] bc by (auto simp: word_less_nat_alt)
  then have "unat p \<in> block b \<inter> block c" by (simp add: block_def)
  then show "b = c" using assms(2) bc(1,2) unfolding bump_ok_def separate_def by blast
qed

lemma bump_ok_card:
  assumes "good_base base" "bump_ok base s L"
  shows "card L < 2 ^ 64"
proof -
  have "fst ` L \<subseteq> UNIV - {0}" using bump_okD(1) [OF assms] by auto
  then have "card (fst ` L) \<le> card (UNIV - {0 :: addr})" by (intro card_mono) auto
  also have "\<dots> < 2 ^ 64" by (simp add: card_Diff_subset card_word)
  finally show ?thesis using card_image [OF bump_ok_inj [OF assms]] by simp
qed

section \<open>The allocators keep the contract\<close>

definition bump_start :: bump where
  "bump_start = \<lparr>buffer = 0, end_buffer = 0\<rparr>"

definition last_start :: last_bump where
  "last_start = \<lparr>buffer = 0, end_buffer = 0, last_allocation = 0\<rparr>"

definition no_statistics :: m61_statistics where
  "no_statistics = \<lparr>total_count = 0, total_bytes = 0, active_count = 0, active_bytes = 0\<rparr>"

definition reuse_start :: reuse_bump where
  "reuse_start = \<lparr>buffer = 0, end_buffer = 0, reuse_gs = no_statistics\<rparr>"

definition staff_start :: staff_bump where
  "staff_start = \<lparr>buffer = 0, end_buffer = 0, staff_gs = no_statistics, active_allocs = Map.empty\<rparr>"

lemmas start_defs = bump_start_def last_start_def reuse_start_def staff_start_def no_statistics_def

lemma bump_ok_start [simp]: "buffer s = 0 \<Longrightarrow> bump_ok base s {}"
  by (simp add: bump_ok_def separate_def)

text \<open>What the allocators share: a first call gets the buffer, and a block is cut off or there is none.\<close>

lemma bump_malloc:
  assumes base: "good_base base" and ok: "bump_ok base s L" and sz: "0 < sz"
    and m: "bind_result (init_buffer base s) (\<lambda>s. let space = end_buffer s - buffer s in
       if sz > space then Inr (0, s) else Inr (buffer s, f s)) = Inr (p, s')"
    and f: "\<And>s. buffer (f s) = buffer s + sz" "\<And>s. end_buffer (f s) = end_buffer s"
  obtains s1 where "init_buffer base s = Inr s1" "bump_ok base s1 L" "buffer s1 \<noteq> 0"
    "bump.more s1 = bump.more s" "if p = 0 then s' = s1
      else p = buffer s1 \<and> s' = f s1 \<and> bump_ok base s' (insert (p, sz) L)"
proof -
  obtain s1 where s1: "init_buffer base s = Inr s1" using m by (cases "init_buffer base s") auto
  note i = init_buffer_ok [OF base ok s1]
  have "if p = 0 then s' = s1 else p = buffer s1 \<and> s' = f s1 \<and> bump_ok base s' (insert (p, sz) L)"
  proof (cases "end_buffer s1 - buffer s1 < sz")
    case True
    then show ?thesis using m s1 by simp
  next
    case False
    then have "bump_ok base (f s1) (insert (buffer s1, sz) L)"
      using bump_ok_alloc [OF base i(1,2) _ sz f] by simp
    then show ?thesis using m s1 False i(2) by (auto simp: Let_def)
  qed
  then show thesis using that s1 i by blast
qed

subsection \<open>Once\<close>

interpretation once: allocator once_malloc once_free bump_start bump_ok
proof
  fix base sz s p s' L
  assume a: "good_base base" "bump_ok base s L" "0 < sz" "once_malloc base sz s = Inr (p, s')"
  show "bump_ok base s' (insert (p, sz) L)" if "p \<noteq> 0"
    using bump_malloc [OF a(1,2,3) a(4) [unfolded once_malloc_def]] that by auto
next
  fix base sz s s' L
  assume a: "good_base base" "bump_ok base s L" "once_malloc base sz s = Inr (0, s')" "0 < sz"
  show "bump_ok base s' L"
    using bump_malloc [OF a(1,2,4) a(3) [unfolded once_malloc_def]] by auto
qed (auto simp: start_defs once_free_def bump_ok_free, auto simp: bump_ok_def)

subsection \<open>The last allocation\<close>

definition last_ok :: "addr \<Rightarrow> last_bump \<Rightarrow> (addr \<times> u64) set \<Rightarrow> bool" where
  "last_ok base s L \<longleftrightarrow> bump_ok base s L \<and>
     (last_allocation s = 0 \<or> buffer s \<noteq> 0 \<and> base \<le> last_allocation s \<and> last_allocation s \<le> buffer s
        \<and> (\<forall>(p, sz) \<in> L. p = last_allocation s \<or> unat p + unat sz \<le> unat (last_allocation s)))"

lemma last_more: "bump.more s = bump.more t \<Longrightarrow> last_allocation s = last_allocation t"
  by (cases s; cases t) simp

lemma last_ok_malloc:
  assumes "good_base base" "last_ok base s L" "0 < sz" "last_malloc base sz s = Inr (p, s')"
  shows "last_ok base s' (if p = 0 then L else insert (p, sz) L)"
proof -
  have ok: "bump_ok base s L" using assms(2) by (simp add: last_ok_def)
  obtain s1 where s1: "init_buffer base s = Inr s1" "bump_ok base s1 L" "buffer s1 \<noteq> 0"
    "bump.more s1 = bump.more s"
    and p: "if p = 0 then s' = s1 else p = buffer s1
      \<and> s' = s1\<lparr>last_allocation := buffer s1, buffer := buffer s1 + sz\<rparr> \<and> bump_ok base s' (insert (p, sz) L)"
    by (rule bump_malloc [OF assms(1) ok assms(3) assms(4) [unfolded last_malloc_def]]) auto
  show ?thesis
  proof (cases "p = 0")
    case True
    have "s1 = s \<or> L = {} \<and> buffer s = 0"
      using s1(1) ok by (auto simp: init_buffer_def bump_ok_def split: if_splits)
    then show ?thesis using True p s1 assms(2) last_more [OF s1(4)] by (auto simp: last_ok_def)
  next
    case False
    have new: "bump_ok base s' (insert (p, sz) L)" "last_allocation s' = p" "p = buffer s1"
      using False p by auto
    have "(q, a) \<in> L \<Longrightarrow> unat q + unat a \<le> unat p" for q a
      using bump_okD(5) [OF assms(1) s1(2)] new(3) by blast
    then show ?thesis
      using False new bump_okD [OF assms(1) new(1) insertI1] by (auto simp: last_ok_def)
  qed
qed

lemma last_ok_free:
  assumes "good_base base" "last_ok base s L" "(p, sz) \<in> L"
  shows "\<exists>s'. last_free p s = Inr s' \<and> last_ok base s' (L - {(p, sz)})"
proof -
  have ok: "bump_ok base s L" using assms(2) by (simp add: last_ok_def)
  note p = bump_okD [OF assms(1) ok assms(3)]
  let ?s = "s\<lparr>buffer := p, last_allocation := 0\<rparr>"
  show ?thesis
  proof (cases "p = last_allocation s")
    case True
    have below: "(q, a) \<in> L - {(p, sz)} \<Longrightarrow> unat q + unat a \<le> unat p" for q a
      using assms(2,3) p(1) True inj_onD [OF bump_ok_inj [OF assms(1) ok], of "(q, a)" "(p, sz)"]
      by (auto simp: last_ok_def)
    have "bump_ok base ?s (L - {(p, sz)})"
      using ok p below bump_okD [OF assms(1) ok] separate_subset [of L "L - {(p, sz)}"]
      by (auto simp: bump_ok_def split: if_splits)
    then show ?thesis using True p(1) by (auto simp: last_free_def last_ok_def)
  next
    case False
    then show ?thesis using assms(2) bump_ok_free [OF ok] by (auto simp: last_free_def last_ok_def)
  qed
qed

interpretation lastalloc: allocator last_malloc last_free last_start last_ok
proof
  show "good_base base \<Longrightarrow> last_ok base last_start {}" for base
    by (simp add: last_ok_def last_start_def)
  show "last_ok base s L \<Longrightarrow> separate L" for base s L
    by (simp add: last_ok_def bump_ok_def)
qed (use last_ok_malloc in fastforce, use last_ok_malloc in fastforce, use last_ok_free in blast)

subsection \<open>Starting over\<close>

definition reuse_ok :: "addr \<Rightarrow> reuse_bump \<Rightarrow> (addr \<times> u64) set \<Rightarrow> bool" where
  "reuse_ok base s L \<longleftrightarrow> bump_ok base s L \<and> active_count (reuse_gs s) = of_nat (card L)"

lemma reuse_more: "bump.more s = bump.more t \<Longrightarrow> reuse_gs s = reuse_gs t"
  by (cases s; cases t) simp

text \<open>The block at the pointer is new.\<close>

lemma bump_ok_new:
  assumes "good_base base" "bump_ok base s L"
  shows "(buffer s, a) \<notin> L"
  using bump_okD(2) [OF assms] by fastforce

lemma reuse_ok_malloc:
  assumes "good_base base" "reuse_ok base s L" "0 < sz" "reuse_malloc base sz s = Inr (p, s')"
  shows "reuse_ok base s' (if p = 0 then L else insert (p, sz) L)"
proof -
  have ok: "bump_ok base s L" using assms(2) by (simp add: reuse_ok_def)
  obtain s1 where s1: "bump_ok base s1 L" "bump.more s1 = bump.more s"
    and p: "if p = 0 then s' = s1 else p = buffer s1
      \<and> s' = s1\<lparr>reuse_gs := count_alloc sz (reuse_gs s1), buffer := buffer s1 + sz\<rparr>
      \<and> bump_ok base s' (insert (p, sz) L)"
    by (rule bump_malloc [OF assms(1) ok assms(3) assms(4) [unfolded reuse_malloc_def]]) auto
  have n: "active_count (reuse_gs s1) = of_nat (card L)"
    using assms(2) reuse_more [OF s1(2)] by (simp add: reuse_ok_def)
  show ?thesis
  proof (cases "p = 0")
    case True
    then show ?thesis using p s1(1) n by (simp add: reuse_ok_def)
  next
    case False
    note p = p [unfolded if_not_P [OF False]]
    have "(p, sz) \<notin> L" using p bump_ok_new [OF assms(1) s1(1)] by simp
    then have "active_count (reuse_gs s') = of_nat (card (insert (p, sz) L))"
      using p n by (simp add: count_alloc_def)
    then have "reuse_ok base s' (insert (p, sz) L)" unfolding reuse_ok_def using p by blast
    then show ?thesis unfolding if_not_P [OF False] .
  qed
qed

text \<open>The counter is 0 exactly when no block is held.\<close>

lemma reuse_ok_none:
  assumes "good_base base" "bump_ok base s L"
  shows "(of_nat (card L) :: u64) = 0 \<longleftrightarrow> L = {}"
  using bump_ok_card [OF assms] by (auto simp: word_of_nat_eq_0_iff dest: nat_dvd_not_less)

lemma held_Suc: "(b :: addr \<times> u64) \<in> L \<Longrightarrow> card L = Suc (card (L - {b}))"
  by (rule card_Suc_Diff1 [OF finite, symmetric])

lemma reuse_ok_free:
  assumes "good_base base" "reuse_ok base s L" "(p, sz) \<in> L"
  shows "\<exists>s'. reuse_free p s = Inr s' \<and> reuse_ok base s' (L - {(p, sz)})"
proof -
  let ?L = "L - {(p, sz)}"
  have ok: "bump_ok base s L" using assms(2) by (simp add: reuse_ok_def)
  note p = bump_okD [OF assms(1) ok assms(3)]
  have n: "active_count (reuse_gs s) - 1 = of_nat (card ?L)"
    using assms(2) held_Suc [OF assms(3)] by (simp add: reuse_ok_def)
  have ok': "bump_ok base s ?L" by (rule bump_ok_free [OF ok])
  have none: "(of_nat (card ?L) :: u64) = 0 \<longleftrightarrow> ?L = {}" by (rule reuse_ok_none [OF assms(1) ok'])
  have "buffer s \<noteq> 0" using p(2) by auto
  then have e: "end_buffer s = base + BUFFER_SIZE" "base \<le> end_buffer s" using ok by (auto simp: bump_ok_def)
  show ?thesis
  proof (cases "?L = {}")
    case True
    have f: "reuse_free p s = Inr (s\<lparr>reuse_gs := (reuse_gs s)\<lparr>active_count := 0, active_bytes := 0\<rparr>, buffer := base\<rparr>)"
      using p(1) n none True e(1) by (simp add: reuse_free_def Let_def)
    have "bump_ok base (s\<lparr>reuse_gs := g, buffer := base\<rparr>) {}" for g
      using e assms(1) by (simp add: bump_ok_def separate_def good_base_def)
    then show ?thesis using f unfolding True reuse_ok_def by simp
  next
    case False
    then have "reuse_free p s = Inr (s\<lparr>reuse_gs := (reuse_gs s)\<lparr>active_count := of_nat (card ?L)\<rparr>\<rparr>)"
      using p(1) n none by (simp add: reuse_free_def Let_def)
    then show ?thesis using ok' by (auto simp: reuse_ok_def intro: bump_ok_cong)
  qed
qed

interpretation reuseempty: allocator reuse_malloc reuse_free reuse_start reuse_ok
proof
  show "good_base base \<Longrightarrow> reuse_ok base reuse_start {}" for base
    by (simp add: reuse_ok_def reuse_start_def no_statistics_def)
  show "reuse_ok base s L \<Longrightarrow> separate L" for base s L
    by (simp add: reuse_ok_def bump_ok_def)
qed (use reuse_ok_malloc in fastforce, use reuse_ok_malloc in fastforce, use reuse_ok_free in blast)

subsection \<open>Checked frees\<close>

text \<open>The map of active allocations is the set of blocks the client holds.\<close>

definition staff_ok :: "addr \<Rightarrow> staff_bump \<Rightarrow> (addr \<times> u64) set \<Rightarrow> bool" where
  "staff_ok base s L \<longleftrightarrow> bump_ok base s L \<and> (\<forall>p sz. active_allocs s p = Some sz \<longleftrightarrow> (p, sz) \<in> L)
     \<and> active_count (staff_gs s) = of_nat (card L) \<and> active_bytes (staff_gs s) = sum snd L"

lemma staff_more:
  "bump.more s = bump.more t \<Longrightarrow> staff_gs s = staff_gs t \<and> active_allocs s = active_allocs t"
  by (cases s; cases t) simp

lemma staff_ok_malloc:
  assumes "good_base base" "staff_ok base s L" "0 < sz" "staff_malloc base sz s = Inr (p, s')"
  shows "staff_ok base s' (if p = 0 then L else insert (p, sz) L)"
proof -
  have ok: "bump_ok base s L" using assms(2) by (simp add: staff_ok_def)
  obtain s1 where s1: "bump_ok base s1 L" "bump.more s1 = bump.more s"
    and p: "if p = 0 then s' = s1 else p = buffer s1
      \<and> s' = s1\<lparr>staff_gs := count_alloc sz (staff_gs s1), active_allocs :=
           (if active_allocs s1 (buffer s1) = None then (active_allocs s1)(buffer s1 \<mapsto> sz) else active_allocs s1),
           buffer := buffer s1 + sz\<rparr>
      \<and> bump_ok base s' (insert (p, sz) L)"
    by (rule bump_malloc [OF assms(1) ok assms(3) assms(4) [unfolded staff_malloc_def]]) auto
  have s: "\<And>p sz. active_allocs s1 p = Some sz \<longleftrightarrow> (p, sz) \<in> L"
    "active_count (staff_gs s1) = of_nat (card L)" "active_bytes (staff_gs s1) = sum snd L"
    using assms(2) staff_more [OF s1(2)] by (auto simp: staff_ok_def)
  show ?thesis
  proof (cases "p = 0")
    case True
    then show ?thesis using p s1(1) s by (simp add: staff_ok_def)
  next
    case False
    note p = p [unfolded if_not_P [OF False]]
    have new: "(p, a) \<notin> L" for a using p bump_ok_new [OF assms(1) s1(1)] by simp
    then have "active_allocs s1 p = None" using s(1) [of p] by (cases "active_allocs s1 p") auto
    then have allocs: "active_allocs s' = (active_allocs s1)(p \<mapsto> sz)" using p by simp
    have "active_allocs s' q = Some a \<longleftrightarrow> (q, a) \<in> insert (p, sz) L" for q a
      using s(1) new by (auto simp: allocs)
    moreover have "active_count (staff_gs s') = of_nat (card (insert (p, sz) L))"
      "active_bytes (staff_gs s') = sum snd (insert (p, sz) L)"
      using p s(2,3) new by (simp_all add: count_alloc_def)
    ultimately have "staff_ok base s' (insert (p, sz) L)" unfolding staff_ok_def using p by blast
    then show ?thesis unfolding if_not_P [OF False] .
  qed
qed

lemma staff_ok_free:
  assumes "good_base base" "staff_ok base s L" "(p, sz) \<in> L"
  shows "\<exists>s'. staff_free p s = Inr s' \<and> staff_ok base s' (L - {(p, sz)})"
proof -
  have ok: "bump_ok base s L" and p: "active_allocs s p = Some sz"
    and allocs: "\<And>q a. active_allocs s q = Some a \<longleftrightarrow> (q, a) \<in> L"
    and n: "active_count (staff_gs s) = of_nat (card L)" "active_bytes (staff_gs s) = sum snd L"
    using assms(2,3) by (auto simp: staff_ok_def)
  let ?s = "s\<lparr>staff_gs := (staff_gs s)\<lparr>active_count := active_count (staff_gs s) - 1,
      active_bytes := active_bytes (staff_gs s) - sz\<rparr>, active_allocs := (active_allocs s)(p := None)\<rparr>"
  have "staff_free p s = Inr ?s"
    using p bump_okD(1) [OF assms(1) ok assms(3)] by (simp add: staff_free_def)
  moreover have "bump_ok base ?s (L - {(p, sz)})"
    by (rule bump_ok_cong [OF bump_ok_free [OF ok]]) simp_all
  moreover have "active_allocs ?s q = Some a \<longleftrightarrow> (q, a) \<in> L - {(p, sz)}" for q a
    using allocs [of q a] p by auto
  moreover have "active_count (staff_gs ?s) = of_nat (card (L - {(p, sz)}))"
    using held_Suc [OF assms(3)] n(1) by simp
  moreover have "active_bytes (staff_gs ?s) = sum snd (L - {(p, sz)})"
    using sum.remove [OF finite assms(3), of snd] n(2) by simp
  ultimately show ?thesis unfolding staff_ok_def by blast
qed

interpretation staff: allocator staff_malloc staff_free staff_start staff_ok
proof
  show "good_base base \<Longrightarrow> staff_ok base staff_start {}" for base
    by (simp add: staff_ok_def staff_start_def no_statistics_def)
  show "staff_ok base s L \<Longrightarrow> separate L" for base s L
    by (simp add: staff_ok_def bump_ok_def)
qed (use staff_ok_malloc in fastforce, use staff_ok_malloc in fastforce, use staff_ok_free in blast)

section \<open>Properties\<close>

text \<open>A client of an allocator at \<open>0x1000\<close>: a block of 16 bytes, one of 8, and the second freed.\<close>

lemma client_history:
  assumes "malloc 16 s0 = Inr (0x1000, s1)" "malloc 8 s1 = Inr (0x1010, s2)" "free 0x1010 s2 = Inr s3"
  shows "history malloc free s0 s3 {(0x1000, 16)}"
proof -
  have "history malloc free s0 s1 {(0x1000, 16)}"
    by (rule history.allocated, rule history.start, simp, rule assms(1), simp)
  then have "history malloc free s0 s2 {(0x1010, 8), (0x1000, 16)}"
    by (rule history.allocated) (simp_all add: assms(2))
  then have "history malloc free s0 s3 ({(0x1010, 8), (0x1000, 16)} - {(0x1010, 8)})"
    by (rule history.freed) (simp_all add: assms(3))
  then show ?thesis by simp
qed

lemmas client_defs = start_defs count_alloc_def init_buffer_def Let_def

text \<open>with \<open>m61-lastalloc.cc\<close>, the blocks a client holds never overlap, whatever it
  allocates and frees, and it can free every block it holds.\<close>

theorem lastalloc_separate:
  assumes "good_base base" "history (last_malloc base) last_free last_start s L"
  shows "separate L \<and> (\<forall>(p, sz) \<in> L. \<exists>s'. last_free p s = Inr s')"
  using lastalloc.history_separate [OF assms(2,1)] lastalloc.history_free [OF assms(2,1)] by auto

theorem lastalloc_separate_witness:
  "\<exists>s :: last_bump. separate {(0x1000 :: addr, 16 :: u64)} \<and> (\<exists>s'. last_free 0x1000 s = Inr s')"
proof -
  have "history (last_malloc 0x1000) last_free last_start
    \<lparr>buffer = 0x1010, end_buffer = 0x801000, last_allocation = 0\<rparr> {(0x1000, 16)}"
    by (rule client_history [where ?s1.0 = "\<lparr>buffer = 0x1010, end_buffer = 0x801000, last_allocation = 0x1000\<rparr>"
          and ?s2.0 = "\<lparr>buffer = 0x1018, end_buffer = 0x801000, last_allocation = 0x1010\<rparr>"])
      (simp_all add: last_malloc_def last_free_def client_defs)
  from lastalloc_separate [OF _ this] show ?thesis by (auto simp: good_base_def)
qed

text \<open>\<open>C23\<close>: with \<open>m61-reuseempty.cc\<close>, the blocks a client holds never overlap, though the
  buffer starts over, and the counter of active allocations is their number.\<close>

theorem reuseempty_separate:
  assumes "good_base base" "history (reuse_malloc base) reuse_free reuse_start s L"
  shows "separate L \<and> active_count (reuse_gs s) = of_nat (card L)"
  using reuseempty.history_separate [OF assms(2,1)] reuseempty.history_ok [OF assms(2,1)]
  by (simp add: reuse_ok_def)

theorem reuseempty_separate_witness:
  "\<exists>s :: reuse_bump. separate {(0x1000 :: addr, 16 :: u64)} \<and> active_count (reuse_gs s) = 1"
proof -
  let ?s = "\<lparr>buffer = 0x1018, end_buffer = 0x801000, reuse_gs =
      \<lparr>total_count = 2, total_bytes = 24, active_count = 1, active_bytes = 24\<rparr>\<rparr>"
  have "history (reuse_malloc 0x1000) reuse_free reuse_start ?s {(0x1000, 16)}"
    by (rule client_history [where ?s1.0 = "\<lparr>buffer = 0x1010, end_buffer = 0x801000, reuse_gs =
            \<lparr>total_count = 1, total_bytes = 16, active_count = 1, active_bytes = 16\<rparr>\<rparr>"
          and ?s2.0 = "\<lparr>buffer = 0x1018, end_buffer = 0x801000, reuse_gs =
            \<lparr>total_count = 2, total_bytes = 24, active_count = 2, active_bytes = 24\<rparr>\<rparr>"])
      (simp_all add: reuse_malloc_def reuse_free_def client_defs)
  from reuseempty_separate [OF _ this] show ?thesis by (intro exI [of _ ?s]) (simp add: good_base_def)
qed

text \<open>\<open>C22\<close>: \<open>m61-staff.cc\<close> refines the set of blocks a client holds: the blocks never
  overlap, the map and the statistics are those of the set, and \<open>free\<close> succeeds exactly for the
  null pointer and the addresses of held blocks.\<close>

theorem staff_refines_held:
  assumes "good_base base" "history (staff_malloc base) staff_free staff_start s L"
  shows "separate L \<and> Map.graph (active_allocs s) = L
    \<and> active_count (staff_gs s) = of_nat (card L) \<and> active_bytes (staff_gs s) = sum snd L
    \<and> (\<forall>p. (\<exists>s'. staff_free p s = Inr s') \<longleftrightarrow> p = 0 \<or> p \<in> fst ` L)"
proof -
  have ok: "staff_ok base s L" by (rule staff.history_ok [OF assms(2,1)])
  then have L: "Map.graph (active_allocs s) = L" by (auto simp: staff_ok_def Map.graph_def)
  have "(\<exists>s'. staff_free p s = Inr s') \<longleftrightarrow> p = 0 \<or> p \<in> fst ` L" for p
    unfolding L [symmetric] by (force simp: staff_free_def Map.graph_def split: option.splits)
  then show ?thesis
    using ok L staff.history_separate [OF assms(2,1)] by (simp add: staff_ok_def)
qed

theorem staff_refines_held_witness:
  "\<exists>s :: staff_bump. Map.graph (active_allocs s) = {(0x1000, 16)} \<and> active_bytes (staff_gs s) = 16
     \<and> \<not> (\<exists>s'. staff_free 0x1010 s = Inr s')"
proof -
  let ?s = "\<lparr>buffer = 0x1018, end_buffer = 0x801000, staff_gs =
      \<lparr>total_count = 2, total_bytes = 24, active_count = 1, active_bytes = 16\<rparr>,
      active_allocs = [0x1000 \<mapsto> 16]\<rparr>"
  have "history (staff_malloc 0x1000) staff_free staff_start ?s {(0x1000, 16)}"
    by (rule client_history [where ?s1.0 = "\<lparr>buffer = 0x1010, end_buffer = 0x801000, staff_gs =
            \<lparr>total_count = 1, total_bytes = 16, active_count = 1, active_bytes = 16\<rparr>,
            active_allocs = [0x1000 \<mapsto> 16]\<rparr>"
          and ?s2.0 = "\<lparr>buffer = 0x1018, end_buffer = 0x801000, staff_gs =
            \<lparr>total_count = 2, total_bytes = 24, active_count = 2, active_bytes = 24\<rparr>,
            active_allocs = [0x1000 \<mapsto> 16, 0x1010 \<mapsto> 8]\<rparr>"])
      (simp_all add: staff_malloc_def staff_free_def client_defs fun_eq_iff)
  from staff_refines_held [OF _ this] show ?thesis by (intro exI [of _ ?s]) (simp add: good_base_def)
qed

text \<open>\<open>m61-derp.cc\<close> splits a block it fits exactly, and the empty rest takes the entry
  of the next block: after the frees and allocations below, a client cannot free a block it holds.\<close>

definition derp_start :: derp where
  "derp_start = \<lparr>derp_gs = no_statistics, blocks = []\<rparr>"

theorem derp_exact_fit_loses_block:
  "bind_result (derp_malloc 0x1000 16 derp_start) (\<lambda>(p, s).
   bind_result (derp_malloc 0x1000 16 s) (\<lambda>(q, s).
   bind_result (derp_free p s) (\<lambda>s.
   bind_result (derp_malloc 0x1000 16 s) (\<lambda>(r, s).
   derp_free q s)))) = Inl (AssertFail ''double free'')"
  by (simp add: derp_malloc_def derp_free_def derp_start_def client_defs)

end
