(* ===== verification/Shell.thy ===== *)
theory Shell
  imports Prelude
begin

text \<open>
  The command lines of the shell in \<open>pset4\<close>: the tokenizer and the parsers of \<open>helpers.cc\<close> and
  \<open>sh61.hh\<close>, and \<open>run_line\<close> of \<open>sh61.cc\<close>. A character array is a list, a pointer into it an
  index; a read past its end is an error.
\<close>

section \<open>Definitions\<close>

abbreviation "TYPE_NORMAL \<equiv> 0 :: int"
abbreviation "TYPE_REDIRECT_OP \<equiv> 1 :: int"
abbreviation "TYPE_SEQUENCE \<equiv> 2 :: int"
abbreviation "TYPE_EOL \<equiv> 3 :: int"
abbreviation "TYPE_BACKGROUND \<equiv> 4 :: int"
abbreviation "TYPE_PIPE \<equiv> 5 :: int"
abbreviation "TYPE_AND \<equiv> 6 :: int"
abbreviation "TYPE_OR \<equiv> 7 :: int"
abbreviation "TYPE_LPAREN \<equiv> 8 :: int"
abbreviation "TYPE_RPAREN \<equiv> 9 :: int"
abbreviation "TYPE_OTHER \<equiv> - 1 :: int"

abbreviation "NUL \<equiv> CHR 0x00"
abbreviation "DQUOTE \<equiv> CHR 0x22"
abbreviation "SQUOTE \<equiv> CHR 0x27"
abbreviation "BACKSLASH \<equiv> CHR 0x5C"

text \<open>\<open>isspace\<close> and \<open>isdigit\<close> of the C library.\<close>

definition is_space :: "char \<Rightarrow> bool" where
  "is_space c \<longleftrightarrow> c = CHR '' '' \<or> (9 \<le> (of_char c :: nat) \<and> of_char c \<le> (13 :: nat))"

definition is_digit :: "char \<Rightarrow> bool" where
  "is_digit c \<longleftrightarrow> 48 \<le> (of_char c :: nat) \<and> of_char c \<le> (57 :: nat)"

definition isshellspecial :: "char \<Rightarrow> bool" where
  "isshellspecial c \<longleftrightarrow> c = CHR ''<'' \<or> c = CHR ''>'' \<or> c = CHR ''&'' \<or> c = CHR ''|'' \<or> c = CHR '';''
     \<or> c = CHR ''('' \<or> c = CHR '')'' \<or> c = CHR ''#''"

abbreviation past_end :: "'a result" where "past_end \<equiv> Inl (OutOfBounds ''command line'')"

subsection \<open>The tokenizer\<close>

text \<open>The loops \<open>while (p != e && test( *p)) ++p\<close>.\<close>

function skip_while :: "(char \<Rightarrow> bool) \<Rightarrow> string \<Rightarrow> nat \<Rightarrow> nat \<Rightarrow> nat result" where
  "skip_while test cs p e =
     (if p = e then Inr p
      else if length cs \<le> p then past_end
      else if test (cs ! p) then skip_while test cs (Suc p) e else Inr p)"
  by auto
termination by (relation "measure (\<lambda>(test, cs, p, e). length cs - p)") auto

definition skip_shell_space :: "string \<Rightarrow> nat \<Rightarrow> nat \<Rightarrow> nat result" where
  "skip_shell_space cs s e =
     bind_result (skip_while is_space cs s e) (\<lambda>s.
     Inr (if s \<noteq> e \<and> cs ! s = CHR ''#'' then e else s))"

record shell_tokenizer =
  tk_s :: nat
  tk_end :: nat
  tk_type :: int
  tk_quoted :: bool
  tk_len :: u32

text \<open>The loop over an ordinary word, with its local variables \<open>curquote\<close> and \<open>_quoted\<close>.\<close>

function word_loop :: "string \<Rightarrow> nat \<Rightarrow> nat \<Rightarrow> char \<Rightarrow> bool \<Rightarrow> (nat \<times> bool) result" where
  "word_loop cs p e curquote quoted =
     (if p = e then Inr (p, quoted)
      else if length cs \<le> p then past_end
      else if \<not> (curquote \<noteq> NUL \<or> (\<not> is_space (cs ! p) \<and> \<not> isshellspecial (cs ! p))) then Inr (p, quoted)
      else if (cs ! p = DQUOTE \<or> cs ! p = SQUOTE) \<and> curquote = NUL then word_loop cs (p + 1) e (cs ! p) True
      else if cs ! p = curquote then word_loop cs (p + 1) e NUL quoted
      else if cs ! p = BACKSLASH \<and> p + 1 \<noteq> e \<and> curquote \<noteq> SQUOTE then word_loop cs (p + 2) e curquote True
      else word_loop cs (p + 1) e curquote quoted)"
  by auto
termination by (relation "measure (\<lambda>(cs, p, e, curquote, quoted). length cs - p)") auto

definition one_char_type :: "char \<Rightarrow> int" where
  "one_char_type c =
     (if c = CHR '';'' then TYPE_SEQUENCE
      else if c = CHR ''&'' then TYPE_BACKGROUND
      else if c = CHR ''|'' then TYPE_PIPE
      else if c = CHR ''('' then TYPE_LPAREN
      else if c = CHR '')'' then TYPE_RPAREN
      else TYPE_OTHER)"

text \<open>The end, type and flag of the token at \<open>s\<close>.\<close>

definition read_token :: "string \<Rightarrow> nat \<Rightarrow> nat \<Rightarrow> (nat \<times> int \<times> bool) result" where
  "read_token cs s e =
     bind_result (skip_while is_digit cs s e) (\<lambda>p.
     if p \<noteq> e \<and> (cs ! p = CHR ''<'' \<or> cs ! p = CHR ''>'')
     then let p = p + 1 in
       if p \<noteq> e \<and> length cs \<le> p then past_end
       else if p \<noteq> e \<and> cs ! p = CHR ''>'' then Inr (p + 1, TYPE_REDIRECT_OP, False)
       else bind_result (skip_while is_digit cs p e) (\<lambda>p. Inr (p, TYPE_REDIRECT_OP, False))
     else if p = s \<and> (cs ! p = CHR ''&'' \<or> cs ! p = CHR ''|'') \<and> p + 1 \<noteq> e \<and> length cs \<le> p + 1
     then past_end
     else if p = s \<and> (cs ! p = CHR ''&'' \<or> cs ! p = CHR ''|'') \<and> p + 1 \<noteq> e \<and> cs ! (p + 1) = cs ! p
     then Inr (p + 2, if cs ! p = CHR ''&'' then TYPE_AND else TYPE_OR, False)
     else if p = s \<and> isshellspecial (cs ! p) then Inr (p + 1, one_char_type (cs ! p), False)
     else bind_result (word_loop cs p e NUL False) (\<lambda>(p, quoted). Inr (p, TYPE_NORMAL, quoted)))"

definition next_token :: "string \<Rightarrow> shell_tokenizer \<Rightarrow> shell_tokenizer result" where
  "next_token cs it =
     bind_result (skip_shell_space cs (tk_s it + unat (tk_len it)) (tk_end it)) (\<lambda>s.
     if s = tk_end it
     then Inr (it\<lparr>tk_s := s, tk_len := 0, tk_quoted := False, tk_type := TYPE_EOL\<rparr>)
     else bind_result (read_token cs s (tk_end it)) (\<lambda>(p, type, quoted).
       Inr (it\<lparr>tk_s := s, tk_len := of_nat (p - s), tk_quoted := quoted, tk_type := type\<rparr>)))"

definition tokenizer :: "string \<Rightarrow> nat \<Rightarrow> nat \<Rightarrow> shell_tokenizer result" where
  "tokenizer cs first fin =
     next_token cs \<lparr>tk_s = first, tk_end = fin, tk_type = 0, tk_quoted = False, tk_len = 0\<rparr>"

text \<open>The loop of \<open>shell_tokenizer::str\<close> over a token with quotes or escapes.\<close>

partial_function (option) str_loop :: "string \<Rightarrow> nat \<Rightarrow> u32 \<Rightarrow> u32 \<Rightarrow> char \<Rightarrow> string \<Rightarrow> string result option" where
  "str_loop cs s len pos curquote build =
     (if pos = len then Some (Inr build)
      else if length cs \<le> s + unat pos then Some past_end
      else let c = cs ! (s + unat pos) in
        if (c = DQUOTE \<or> c = SQUOTE) \<and> curquote = NUL then str_loop cs s len (pos + 1) c build
        else if c = curquote then str_loop cs s len (pos + 1) NUL build
        else if c = BACKSLASH \<and> length cs \<le> s + unat (pos + 1) then Some past_end
        else if c = BACKSLASH \<and> cs ! (s + unat (pos + 1)) \<noteq> NUL \<and> curquote \<noteq> SQUOTE
        then str_loop cs s len (pos + 2) curquote (build @ [cs ! (s + unat (pos + 1))])
        else str_loop cs s len (pos + 1) curquote (build @ [c]))"

definition token_str :: "string \<Rightarrow> shell_tokenizer \<Rightarrow> string result option" where
  "token_str cs it =
     (if \<not> tk_quoted it
      then Some (if length cs < tk_s it + unat (tk_len it) then past_end
                 else Inr (take (unat (tk_len it)) (drop (tk_s it) cs)))
      else str_loop cs (tk_s it) (tk_len it) 0 NUL [])"

definition type_name :: "int \<Rightarrow> string" where
  "type_name type =
     (if type = TYPE_NORMAL then ''TYPE_NORMAL''
      else if type = TYPE_REDIRECT_OP then ''TYPE_REDIRECT_OP''
      else if type = TYPE_SEQUENCE then ''TYPE_SEQUENCE''
      else if type = TYPE_EOL then ''TYPE_EOL''
      else if type = TYPE_BACKGROUND then ''TYPE_BACKGROUND''
      else if type = TYPE_AND then ''TYPE_AND''
      else if type = TYPE_OR then ''TYPE_OR''
      else if type = TYPE_PIPE then ''TYPE_PIPE''
      else if type = TYPE_LPAREN then ''TYPE_LPAREN''
      else if type = TYPE_RPAREN then ''TYPE_RPAREN''
      else if type = TYPE_OTHER then ''TYPE_OTHER''
      else ''TYPE_UNKNOWN'')"

subsection \<open>The parsers\<close>

record shell_parser =
  ps_s :: nat
  ps_stop :: nat
  ps_end :: nat

definition TYPEMASK_CONDITIONAL :: u64 where
  "TYPEMASK_CONDITIONAL =
     push_bit (nat TYPE_SEQUENCE) 1 OR push_bit (nat TYPE_EOL) 1 OR push_bit (nat TYPE_BACKGROUND) 1"

definition TYPEMASK_PIPELINE :: u64 where
  "TYPEMASK_PIPELINE = TYPEMASK_CONDITIONAL OR push_bit (nat TYPE_AND) 1 OR push_bit (nat TYPE_OR) 1"

definition TYPEMASK_COMMAND :: u64 where
  "TYPEMASK_COMMAND = TYPEMASK_PIPELINE OR push_bit (nat TYPE_PIPE) 1"

definition shell_parser_at :: "string \<Rightarrow> nat \<Rightarrow> nat \<Rightarrow> nat \<Rightarrow> shell_parser result" where
  "shell_parser_at cs first stop fin =
     bind_result (skip_shell_space cs first stop) (\<lambda>s. Inr \<lparr>ps_s = s, ps_stop = stop, ps_end = fin\<rparr>)"

text \<open>The constructor for a string, which a null character ends.\<close>

definition command_line_parser :: "string \<Rightarrow> shell_parser result" where
  "command_line_parser cs =
     (let n = length (takeWhile (\<lambda>c. c \<noteq> NUL) cs) in
      if n = length cs then past_end else shell_parser_at cs 0 n n)"

definition parser_str :: "string \<Rightarrow> shell_parser \<Rightarrow> string" where
  "parser_str cs par = take (ps_stop par - ps_s par) (drop (ps_s par) cs)"

definition parser_empty :: "shell_parser \<Rightarrow> bool" where
  "parser_empty par \<longleftrightarrow> ps_s par = ps_stop par"

definition parser_end :: "string \<Rightarrow> shell_parser \<Rightarrow> shell_parser result" where
  "parser_end cs par = shell_parser_at cs (ps_stop par) (ps_stop par) (ps_end par)"

definition token_begin :: "string \<Rightarrow> shell_parser \<Rightarrow> shell_tokenizer result" where
  "token_begin cs par = tokenizer cs (ps_s par) (ps_stop par)"

definition token_ne_parser :: "shell_tokenizer \<Rightarrow> shell_parser \<Rightarrow> bool" where
  "token_ne_parser it par \<longleftrightarrow> tk_s it \<noteq> ps_s par \<or> tk_end it \<noteq> ps_stop par"

definition next_op :: "string \<Rightarrow> shell_parser \<Rightarrow> int result" where
  "next_op cs par = bind_result (tokenizer cs (ps_stop par) (ps_end par)) (\<lambda>it. Inr (tk_type it))"

definition next_op_name :: "string \<Rightarrow> shell_parser \<Rightarrow> string result" where
  "next_op_name cs par =
     bind_result (tokenizer cs (ps_stop par) (ps_end par)) (\<lambda>it. Inr (type_name (tk_type it)))"

definition in_mask :: "u64 \<Rightarrow> int \<Rightarrow> bool" where
  "in_mask fl type \<longleftrightarrow> fl AND push_bit (nat type) 1 \<noteq> 0"

partial_function (option) find_delimiter :: "string \<Rightarrow> u64 \<Rightarrow> shell_tokenizer \<Rightarrow> shell_tokenizer result option" where
  "find_delimiter cs fl it =
     (if 0 \<le> tk_type it \<and> \<not> in_mask fl (tk_type it)
      then bind_ro (Some (next_token cs it)) (find_delimiter cs fl)
      else Some (Inr it))"

text \<open>The loop \<open>while (p > s && isspace(p[-1])) --p\<close>.\<close>

fun trim_space :: "string \<Rightarrow> nat \<Rightarrow> nat \<Rightarrow> nat" where
  "trim_space cs s 0 = 0"
| "trim_space cs s (Suc p) = (if s < Suc p \<and> is_space (cs ! p) then trim_space cs s p else Suc p)"

definition first_delimited :: "string \<Rightarrow> u64 \<Rightarrow> shell_parser \<Rightarrow> shell_parser result option" where
  "first_delimited cs fl par =
     bind_ro (Some (tokenizer cs (ps_s par) (ps_stop par))) (\<lambda>it.
     bind_ro (find_delimiter cs fl it) (\<lambda>it.
     Some (shell_parser_at cs (ps_s par) (trim_space cs (ps_s par) (tk_s it)) (ps_stop par))))"

definition next_delimited :: "string \<Rightarrow> u64 \<Rightarrow> shell_parser \<Rightarrow> shell_parser result option" where
  "next_delimited cs fl par =
     bind_ro (Some (tokenizer cs (ps_stop par) (ps_end par))) (\<lambda>it.
     bind_ro (if 0 \<le> tk_type it \<and> in_mask fl (tk_type it) then Some (next_token cs it) else Some (Inr it)) (\<lambda>it.
     let s = tk_s it in
     bind_ro (find_delimiter cs fl it) (\<lambda>it.
     Some (Inr (par\<lparr>ps_s := s, ps_stop := trim_space cs s (tk_s it)\<rparr>)))))"

definition conditional_begin :: "string \<Rightarrow> shell_parser \<Rightarrow> shell_parser result option" where
  "conditional_begin cs = first_delimited cs TYPEMASK_CONDITIONAL"

definition pipeline_begin :: "string \<Rightarrow> shell_parser \<Rightarrow> shell_parser result option" where
  "pipeline_begin cs = first_delimited cs TYPEMASK_PIPELINE"

definition command_begin :: "string \<Rightarrow> shell_parser \<Rightarrow> shell_parser result option" where
  "command_begin cs = first_delimited cs TYPEMASK_COMMAND"

definition conditional_next :: "string \<Rightarrow> shell_parser \<Rightarrow> shell_parser result option" where
  "conditional_next cs = next_delimited cs TYPEMASK_CONDITIONAL"

definition pipeline_next :: "string \<Rightarrow> shell_parser \<Rightarrow> shell_parser result option" where
  "pipeline_next cs = next_delimited cs TYPEMASK_PIPELINE"

definition command_next :: "string \<Rightarrow> shell_parser \<Rightarrow> shell_parser result option" where
  "command_next cs = next_delimited cs TYPEMASK_COMMAND"

subsection \<open>Running a line\<close>

text \<open>\<open>command::run\<close> checks its arguments; it does not run them yet.\<close>

record command =
  args :: "string list"
  pid :: int

definition command_run :: "command \<Rightarrow> unit result" where
  "command_run c =
     bind_result (assert_that (pid c = - 1) ''this->pid == -1'') (\<lambda>_.
     assert_that (0 < length (args c)) ''this->args.size() > 0'')"

partial_function (option) push_tokens :: "string \<Rightarrow> shell_parser \<Rightarrow> shell_tokenizer \<Rightarrow> command \<Rightarrow> command result option" where
  "push_tokens cs fin tok c =
     (if token_ne_parser tok fin
      then bind_ro (token_str cs tok) (\<lambda>w.
           bind_ro (Some (next_token cs tok)) (\<lambda>tok.
           push_tokens cs fin tok (c\<lparr>args := args c @ [w]\<rparr>)))
      else Some (Inr c))"

text \<open>\<open>run_line\<close>, with the arguments it runs as its value.\<close>

definition run_line :: "string \<Rightarrow> shell_parser \<Rightarrow> string list result option" where
  "run_line cs clp =
     bind_ro (Some (token_begin cs clp)) (\<lambda>tok.
     bind_ro (Some (parser_end cs clp)) (\<lambda>fin.
     bind_ro (push_tokens cs fin tok \<lparr>args = [], pid = - 1\<rparr>) (\<lambda>c.
     bind_ro (Some (command_run c)) (\<lambda>_. Some (Inr (args c))))))"

declare str_loop.simps [code] find_delimiter.simps [code] push_tokens.simps [code]
declare skip_while.simps [simp del] word_loop.simps [simp del]

section \<open>Tokens\<close>

lemma skip_while_ok:
  assumes "p \<le> e" "e \<le> length cs"
  shows "\<exists>q. skip_while test cs p e = Inr q \<and> p \<le> q \<and> q \<le> e \<and> (\<forall>i \<in> {p ..< q}. test (cs ! i))
    \<and> (q \<noteq> e \<longrightarrow> \<not> test (cs ! q))"
  using assms
proof (induction test cs p e rule: skip_while.induct)
  case (1 test cs p e)
  show ?case
  proof (cases "p \<noteq> e \<and> test (cs ! p)")
    case True
    then obtain q where "skip_while test cs (Suc p) e = Inr q" "Suc p \<le> q" "q \<le> e"
      "\<forall>i \<in> {Suc p ..< q}. test (cs ! i)" "q \<noteq> e \<longrightarrow> \<not> test (cs ! q)"
      using 1 by auto
    then show ?thesis using True 1(2,3)
      by (subst skip_while.simps) (force simp: le_less_Suc_eq not_le order_less_le Suc_le_eq)
  next
    case False
    then show ?thesis using 1(2,3) by (subst skip_while.simps) auto
  qed
qed

text \<open>The loop stops at a character that ends the word, or passes one or two characters.\<close>

lemma word_loop_step:
  assumes "p < e" "e \<le> length cs"
  shows "curquote = NUL \<and> (is_space (cs ! p) \<or> isshellspecial (cs ! p)) \<and> word_loop cs p e curquote d = Inr (p, d)
    \<or> (\<exists>k c b. word_loop cs p e curquote d = word_loop cs k e c b \<and> p < k \<and> k \<le> e)"
proof -
  have p: "p \<noteq> e" "\<not> length cs \<le> p" using assms by auto
  consider (stop) "curquote = NUL \<and> (is_space (cs ! p) \<or> isshellspecial (cs ! p))"
    | (escape) "\<not> (curquote = NUL \<and> (is_space (cs ! p) \<or> isshellspecial (cs ! p)))"
      "\<not> ((cs ! p = DQUOTE \<or> cs ! p = SQUOTE) \<and> curquote = NUL)" "cs ! p \<noteq> curquote"
      "cs ! p = BACKSLASH" "p + 1 \<noteq> e" "curquote \<noteq> SQUOTE"
    | (one) "\<not> (curquote = NUL \<and> (is_space (cs ! p) \<or> isshellspecial (cs ! p)))"
      "((cs ! p = DQUOTE \<or> cs ! p = SQUOTE) \<and> curquote = NUL) \<or> cs ! p = curquote
        \<or> cs ! p \<noteq> BACKSLASH \<or> p + 1 = e \<or> curquote = SQUOTE"
    by blast
  then show ?thesis
  proof cases
    case stop
    then show ?thesis using p by (subst word_loop.simps) auto
  next
    case escape
    then have "word_loop cs p e curquote d = word_loop cs (p + 2) e curquote True"
      using p by (subst word_loop.simps) auto
    moreover have "p + 2 \<le> e" using escape(5) assms(1) by simp
    ultimately show ?thesis by (metis less_add_same_cancel1 zero_less_numeral)
  next
    case one
    have "word_loop cs p e curquote d =
        (if (cs ! p = DQUOTE \<or> cs ! p = SQUOTE) \<and> curquote = NUL then word_loop cs (p + 1) e (cs ! p) True
         else if cs ! p = curquote then word_loop cs (p + 1) e NUL d else word_loop cs (p + 1) e curquote d)"
      using p one by (subst word_loop.simps) auto
    then have "\<exists>c b. word_loop cs p e curquote d = word_loop cs (p + 1) e c b"
      by (simp only: split: if_split) blast
    moreover have "p + 1 \<le> e" using assms(1) by simp
    ultimately show ?thesis by (metis less_add_one)
  qed
qed

lemma word_loop_ok:
  assumes "p \<le> e" "e \<le> length cs"
  shows "\<exists>q d'. word_loop cs p e cq d = Inr (q, d') \<and> p \<le> q \<and> q \<le> e"
  using assms(1)
proof (induction "e - p" arbitrary: p cq d rule: less_induct)
  case less
  show ?case
  proof (cases "p = e")
    case True
    then show ?thesis by (subst word_loop.simps) simp
  next
    case False
    then have "p < e" using less.prems by simp
    from word_loop_step [OF this assms(2), of cq d] show ?thesis
    proof (elim disjE exE conjE)
      fix k c b assume "word_loop cs p e cq d = word_loop cs k e c b" "p < k" "k \<le> e"
      then show ?thesis using less.hyps [of k c b] by fastforce
    qed (use less.prems in auto)
  qed
qed

text \<open>The loop passes an ordinary character.\<close>

lemma word_loop_moves:
  assumes "p < e" "e \<le> length cs" "\<not> is_space (cs ! p)" "\<not> isshellspecial (cs ! p)"
  shows "\<exists>q d'. word_loop cs p e NUL d = Inr (q, d') \<and> p < q \<and> q \<le> e"
  using word_loop_step [OF assms(1,2), of NUL d] word_loop_ok [OF _ assms(2)] assms(3,4)
  by (metis order_less_le_trans)

lemma read_token_ok:
  assumes "s < e" "e \<le> length cs" "\<not> is_space (cs ! s)" "cs ! s \<noteq> CHR ''#''"
  shows "\<exists>p t d. read_token cs s e = Inr (p, t, d) \<and> s < p \<and> p \<le> e \<and> 0 \<le> t \<and> t \<noteq> TYPE_EOL"
proof -
  obtain p where p: "skip_while is_digit cs s e = Inr p" "s \<le> p" "p \<le> e"
    "p \<noteq> e \<longrightarrow> \<not> is_digit (cs ! p)"
    using skip_while_ok [of s e cs is_digit] assms(1,2) by auto
  consider (redirect) "p \<noteq> e" "cs ! p = CHR ''<'' \<or> cs ! p = CHR ''>''"
    | (operator) "p = s" "\<not> (cs ! p = CHR ''<'' \<or> cs ! p = CHR ''>'')" "isshellspecial (cs ! p)"
    | (word) "p \<noteq> s \<or> \<not> isshellspecial (cs ! p)" "\<not> (p \<noteq> e \<and> (cs ! p = CHR ''<'' \<or> cs ! p = CHR ''>''))"
    using assms(1) by blast
  then show ?thesis
  proof cases
    case redirect
    then obtain q where "skip_while is_digit cs (p + 1) e = Inr q" "p + 1 \<le> q" "q \<le> e"
      using skip_while_ok [of "p + 1" e cs is_digit] p(3) assms(2) by auto
    then show ?thesis using redirect p assms by (auto simp: read_token_def Let_def)
  next
    case operator
    then show ?thesis using p assms
      by (auto simp: read_token_def one_char_type_def isshellspecial_def)
  next
    case word
    have "\<exists>q d. word_loop cs p e NUL False = Inr (q, d) \<and> s < q \<and> q \<le> e"
    proof (cases "p = s")
      case True
      then show ?thesis using word_loop_moves [of s e cs] word assms by auto
    next
      case False
      then show ?thesis using word_loop_ok [OF p(3) assms(2), of NUL False] p(2) by fastforce
    qed
    then obtain q d where "word_loop cs p e NUL False = Inr (q, d)" "s < q" "q \<le> e" by blast
    then show ?thesis
      using word p assms by (auto simp: read_token_def isshellspecial_def)
  qed
qed

text \<open>Nothing but spaces and at most one comment lies between two tokens.\<close>

definition gap :: "string \<Rightarrow> nat \<Rightarrow> nat \<Rightarrow> nat \<Rightarrow> bool" where
  "gap cs e k s \<longleftrightarrow> k \<le> s \<and> s \<le> e \<and> (\<exists>h \<in> {k .. s}. (\<forall>i \<in> {k ..< h}. is_space (cs ! i))
     \<and> (h = s \<or> cs ! h = CHR ''#'' \<and> s = e))"

lemma skip_shell_space_ok:
  assumes "k \<le> e" "e \<le> length cs"
  shows "\<exists>s. skip_shell_space cs k e = Inr s \<and> gap cs e k s
    \<and> (s \<noteq> e \<longrightarrow> \<not> is_space (cs ! s) \<and> cs ! s \<noteq> CHR ''#'')"
proof -
  obtain q where "skip_while is_space cs k e = Inr q" "k \<le> q" "q \<le> e" "\<forall>i \<in> {k ..< q}. is_space (cs ! i)"
    "q \<noteq> e \<longrightarrow> \<not> is_space (cs ! q)"
    using skip_while_ok [OF assms, of is_space] by auto
  then show ?thesis by (auto simp: skip_shell_space_def gap_def intro!: bexI [of _ q])
qed

definition token_end :: "shell_tokenizer \<Rightarrow> nat" where
  "token_end it = tk_s it + unat (tk_len it)"

text \<open>A token of a region: at the end, or an operator or word that is not empty.\<close>

definition good_token :: "string \<Rightarrow> nat \<Rightarrow> shell_tokenizer \<Rightarrow> bool" where
  "good_token cs e it \<longleftrightarrow> tk_end it = e \<and> token_end it \<le> e \<and>
     (if tk_s it = e then tk_type it = TYPE_EOL else tk_s it < token_end it
        \<and> 0 \<le> tk_type it \<and> tk_type it \<noteq> TYPE_EOL \<and> \<not> is_space (cs ! tk_s it) \<and> cs ! tk_s it \<noteq> CHR ''#'')"

lemma next_token_ok:
  assumes "token_end it \<le> e" "tk_end it = e" "e \<le> length cs" "e < 2 ^ 32"
  shows "\<exists>it'. next_token cs it = Inr it' \<and> good_token cs e it' \<and> gap cs e (token_end it) (tk_s it')"
proof -
  obtain s where s: "skip_shell_space cs (token_end it) e = Inr s" "gap cs e (token_end it) s"
    "s \<noteq> e \<longrightarrow> \<not> is_space (cs ! s) \<and> cs ! s \<noteq> CHR ''#''"
    using skip_shell_space_ok [OF assms(1,3)] by auto
  show ?thesis
  proof (cases "s = e")
    case True
    then show ?thesis using s assms(2) by (simp add: next_token_def token_end_def good_token_def)
  next
    case False
    then have "s < e" using s(2) by (simp add: gap_def)
    then obtain p t d where p: "read_token cs s e = Inr (p, t, d)" "s < p" "p \<le> e" "0 \<le> t" "t \<noteq> TYPE_EOL"
      using read_token_ok [OF _ assms(3)] s(3) False by blast
    then have "unat (of_nat (p - s) :: u32) = p - s" using assms(4) by (simp only: unat_of_nat) simp
    then show ?thesis
      using s p False assms(2) by (simp add: next_token_def token_end_def good_token_def)
  qed
qed

lemma tokenizer_ok:
  assumes "k \<le> e" "e \<le> length cs" "e < 2 ^ 32"
  shows "\<exists>it. tokenizer cs k e = Inr it \<and> good_token cs e it \<and> gap cs e k (tk_s it)"
  using next_token_ok [of "\<lparr>tk_s = k, tk_end = e, tk_type = 0, tk_quoted = False, tk_len = 0\<rparr>" e cs] assms
  by (simp add: tokenizer_def token_end_def)

text \<open>The loop \<open>for (; tok; ++tok)\<close> over the tokens.\<close>

partial_function (option) tokens_from :: "string \<Rightarrow> shell_tokenizer \<Rightarrow> shell_tokenizer list result option" where
  "tokens_from cs it =
     (if tk_s it = tk_end it then Some (Inr [])
      else bind_ro (Some (next_token cs it)) (\<lambda>it'.
           bind_ro (tokens_from cs it') (\<lambda>toks. Some (Inr (it # toks)))))"

definition line_tokens :: "string \<Rightarrow> shell_tokenizer list result option" where
  "line_tokens cs =
     bind_ro (Some (command_line_parser cs)) (\<lambda>par.
     bind_ro (Some (token_begin cs par)) (tokens_from cs))"

text \<open>The tokens lie in the text from \<open>k\<close> to \<open>e\<close> in order, with only gaps between them.\<close>

fun laid_out :: "string \<Rightarrow> nat \<Rightarrow> nat \<Rightarrow> shell_tokenizer list \<Rightarrow> bool" where
  "laid_out cs e k [] \<longleftrightarrow> gap cs e k e"
| "laid_out cs e k (it # its) \<longleftrightarrow>
     gap cs e k (tk_s it) \<and> tk_s it < token_end it \<and> token_end it \<le> e
     \<and> 0 \<le> tk_type it \<and> tk_type it \<noteq> TYPE_EOL \<and> laid_out cs e (token_end it) its"

lemma tokens_from_ok:
  assumes "good_token cs e it" "e \<le> length cs" "e < 2 ^ 32"
  shows "\<exists>toks. tokens_from cs it = Some (Inr toks) \<and> (\<forall>k. gap cs e k (tk_s it) \<longrightarrow> laid_out cs e k toks)"
  using assms(1)
proof (induction "e - tk_s it" arbitrary: it rule: less_induct)
  case less
  show ?case
  proof (cases "tk_s it = e")
    case True
    then show ?thesis using less.prems by (subst tokens_from.simps) (simp add: good_token_def)
  next
    case False
    then have it: "tk_end it = e" "tk_s it < token_end it" "token_end it \<le> e" "0 \<le> tk_type it" "tk_type it \<noteq> TYPE_EOL"
      using less.prems by (auto simp: good_token_def)
    obtain it' where it': "next_token cs it = Inr it'" "good_token cs e it'" "gap cs e (token_end it) (tk_s it')"
      using next_token_ok [OF it(3,1) assms(2,3)] by blast
    have "e - tk_s it' < e - tk_s it" using it it'(3) by (auto simp: gap_def)
    from less.hyps [OF this it'(2)] obtain toks where "tokens_from cs it' = Some (Inr toks)"
      "laid_out cs e (token_end it) toks" using it'(3) by blast
    then show ?thesis using it it'(1) False by (subst tokens_from.simps) simp
  qed
qed

text \<open>A line of text in a character array.\<close>

definition is_line :: "string \<Rightarrow> bool" where
  "is_line t \<longleftrightarrow> NUL \<notin> set t \<and> length t < 2 ^ 32"

lemma line_length: "is_line t \<Longrightarrow> length (takeWhile (\<lambda>c. c \<noteq> NUL) (t @ [NUL])) = length t"
  by (subst takeWhile_append2) (auto simp: is_line_def)

lemma command_line_parser_ok:
  assumes "is_line t"
  shows "\<exists>s. command_line_parser (t @ [NUL]) = Inr \<lparr>ps_s = s, ps_stop = length t, ps_end = length t\<rparr>
    \<and> gap (t @ [NUL]) (length t) 0 s \<and> s \<le> length t
    \<and> (s \<noteq> length t \<longrightarrow> \<not> is_space ((t @ [NUL]) ! s) \<and> (t @ [NUL]) ! s \<noteq> CHR ''#'')"
proof -
  obtain s where "skip_shell_space (t @ [NUL]) 0 (length t) = Inr s" "gap (t @ [NUL]) (length t) 0 s"
    "s \<noteq> length t \<longrightarrow> \<not> is_space ((t @ [NUL]) ! s) \<and> (t @ [NUL]) ! s \<noteq> CHR ''#''"
    using skip_shell_space_ok [of 0 "length t" "t @ [NUL]"] by auto
  then show ?thesis
    by (simp add: command_line_parser_def shell_parser_at_def Let_def line_length [OF assms]) (simp add: gap_def)
qed

text \<open>At a character that starts a token, the gap before it is empty.\<close>

lemma gap_at_token:
  assumes "gap cs e s s'" "s \<noteq> e \<longrightarrow> \<not> is_space (cs ! s) \<and> cs ! s \<noteq> CHR ''#''"
  shows "s' = s"
proof -
  obtain h where h: "h \<in> {s .. s'}" "\<forall>i \<in> {s ..< h}. is_space (cs ! i)" "h = s' \<or> cs ! h = CHR ''#'' \<and> s' = e"
    using assms(1) by (auto simp: gap_def)
  show ?thesis
  proof (cases "s = e")
    case True
    then show ?thesis using assms(1) by (simp add: gap_def)
  next
    case False
    then have "\<not> is_space (cs ! s)" using assms(2) by simp
    then have "h = s" using h(1,2) by force
    then show ?thesis using h(3) assms(2) False by auto
  qed
qed

lemma line_tokens_ok:
  assumes "is_line t"
  shows "\<exists>toks. line_tokens (t @ [NUL]) = Some (Inr toks) \<and> laid_out (t @ [NUL]) (length t) 0 toks"
proof -
  let ?cs = "t @ [NUL]" and ?e = "length t"
  obtain s where s: "command_line_parser ?cs = Inr \<lparr>ps_s = s, ps_stop = ?e, ps_end = ?e\<rparr>" "gap ?cs ?e 0 s" "s \<le> ?e"
    "s \<noteq> ?e \<longrightarrow> \<not> is_space (?cs ! s) \<and> ?cs ! s \<noteq> CHR ''#''"
    using command_line_parser_ok [OF assms] by blast
  have e: "?e \<le> length ?cs" "?e < 2 ^ 32" using assms by (simp_all add: is_line_def)
  obtain it where it: "tokenizer ?cs s ?e = Inr it" "good_token ?cs ?e it" "gap ?cs ?e s (tk_s it)"
    using tokenizer_ok [OF s(3) e] by blast
  have "tk_s it = s" by (rule gap_at_token [OF it(3) s(4)])
  then show ?thesis
    using tokens_from_ok [OF it(2) e] s(1,2) it(1) by (auto simp: line_tokens_def token_begin_def)
qed

section \<open>Quoting\<close>

text \<open>
  The ways to write a word: as it is, with escaped characters, and with parts in single or double
  quotes.
\<close>

inductive quoting :: "string \<Rightarrow> string \<Rightarrow> bool" where
  nothing: "quoting [] []"
| plain: "quoting (c # q) (c # w)"
    if "quoting q w" "\<not> is_space c" "\<not> isshellspecial c" "c \<notin> {NUL, SQUOTE, DQUOTE, BACKSLASH}"
| escaped: "quoting (BACKSLASH # c # q) (c # w)"
    if "quoting q w" "c \<noteq> NUL"
| quoted: "quoting (x # u @ x # q) (u @ w)"
    if "quoting q w" "x \<in> {SQUOTE, DQUOTE}" "x \<notin> set u" "NUL \<notin> set u" "x = DQUOTE \<longrightarrow> BACKSLASH \<notin> set u"

definition has_quotes :: "string \<Rightarrow> bool" where
  "has_quotes q \<longleftrightarrow> SQUOTE \<in> set q \<or> DQUOTE \<in> set q \<or> BACKSLASH \<in> set q"

lemma drop_Cons_nth:
  assumes "drop p cs = c # xs"
  shows "p < length cs" "cs ! p = c" "drop (Suc p) cs = xs"
proof -
  show p: "p < length cs" using assms by (metis drop_all list.discI not_le)
  then show "cs ! p = c" "drop (Suc p) cs = xs" using assms by (simp_all add: Cons_nth_drop_Suc [symmetric])
qed

lemma word_loop_quoted:
  assumes "drop p cs = u @ x # rest" "x \<notin> set u" "x = DQUOTE \<longrightarrow> BACKSLASH \<notin> set u" "x \<in> {SQUOTE, DQUOTE}"
    "p + length u < e"
  shows "word_loop cs p e x d = word_loop cs (p + length u + 1) e NUL d"
  using assms
proof (induction u arbitrary: p)
  case Nil
  then show ?case using drop_Cons_nth [of p cs x rest] by (subst word_loop.simps) auto
next
  case (Cons c u)
  then have p: "p < length cs" "cs ! p = c" "drop (Suc p) cs = u @ x # rest"
    using drop_Cons_nth [of p cs c "u @ x # rest"] by auto
  have "word_loop cs p e x d = word_loop cs (p + 1) e x d"
    using Cons.prems p(1,2) by (subst word_loop.simps) auto
  then show ?case using Cons.IH [of "p + 1"] Cons.prems p(3) by simp
qed

lemma word_loop_quoting:
  assumes "quoting q w" "drop p cs = q @ rest" "p + length q \<le> e" "e \<le> length cs"
  shows "word_loop cs p e NUL d = word_loop cs (p + length q) e NUL (d \<or> has_quotes q)"
  using assms
proof (induction q w arbitrary: p d rule: quoting.induct)
  case nothing
  then show ?case by (simp add: has_quotes_def)
next
  case (plain q w c)
  then have p: "p < length cs" "cs ! p = c" "drop (Suc p) cs = q @ rest"
    using drop_Cons_nth [of p cs c "q @ rest"] by auto
  have "word_loop cs p e NUL d = word_loop cs (p + 1) e NUL d"
    using plain.hyps plain.prems p(1,2) by (subst word_loop.simps) auto
  then show ?case using plain.IH [of "p + 1" d] plain.hyps plain.prems p(3)
    by (auto simp: has_quotes_def)
next
  case (escaped q w c)
  then have p: "p < length cs" "cs ! p = BACKSLASH" "drop (Suc p) cs = c # q @ rest"
    using drop_Cons_nth [of p cs BACKSLASH "c # q @ rest"] by auto
  have b: "\<not> is_space BACKSLASH" "\<not> isshellspecial BACKSLASH" by (simp_all add: is_space_def isshellspecial_def)
  have "word_loop cs p e NUL d = word_loop cs (p + 2) e NUL True"
    using escaped.prems p(1,2) b by (subst word_loop.simps) auto
  then show ?case using escaped.IH [of "p + 2" True] escaped.prems drop_Cons_nth(3) [OF p(3)]
    by (simp add: has_quotes_def)
next
  case (quoted q w x u)
  then have p: "p < length cs" "cs ! p = x" "drop (Suc p) cs = u @ x # q @ rest"
    using drop_Cons_nth [of p cs x "u @ x # q @ rest"] by auto
  have b: "\<not> is_space x" "\<not> isshellspecial x" "x \<noteq> NUL" using quoted.hyps
    by (auto simp: is_space_def isshellspecial_def)
  have "word_loop cs p e NUL d = word_loop cs (p + 1) e x True"
    using quoted.hyps quoted.prems p(1,2) b by (subst word_loop.simps) auto
  also have "\<dots> = word_loop cs (p + 1 + length u + 1) e NUL True"
    using word_loop_quoted [of "p + 1" cs u x "q @ rest" e True] quoted.hyps quoted.prems p(3) by simp
  also have "\<dots> = word_loop cs (p + length (x # u @ x # q)) e NUL True"
  proof -
    have "drop (p + 1 + length u + 1) cs = q @ rest"
      using arg_cong [OF p(3), of "drop (length u + 1)"] by (simp add: add.commute)
    then show ?thesis using quoted.IH [of "p + 1 + length u + 1" True] quoted.prems
      by (simp add: algebra_simps)
  qed
  finally show ?case using quoted.hyps(2) by (auto simp: has_quotes_def)
qed

text \<open>A word without quotes stands for itself.\<close>

lemma quoting_plain: "quoting q w \<Longrightarrow> \<not> has_quotes q \<Longrightarrow> q = w"
  by (induction rule: quoting.induct) (auto simp: has_quotes_def)

lemma quoting_starts:
  assumes "quoting (c # q) w"
  shows "\<not> is_space c \<and> \<not> isshellspecial c \<and> c \<noteq> NUL"
  using assms by (cases rule: quoting.cases) (auto simp: is_space_def isshellspecial_def)

lemma quoting_no_NUL: "quoting q w \<Longrightarrow> NUL \<notin> set q"
  by (induction rule: quoting.induct) auto

text \<open>After the word comes the end, a space or a comment.\<close>

definition word_ends :: "string \<Rightarrow> bool" where
  "word_ends rest \<longleftrightarrow> (case rest of [] \<Rightarrow> True | c # _ \<Rightarrow> is_space c \<or> c = CHR ''#'')"

lemma digit_ordinary:
  assumes "is_digit c"
  shows "\<not> is_space c" "\<not> isshellspecial c" "c \<notin> {NUL, SQUOTE, DQUOTE, BACKSLASH}"
  using assms by (auto simp: is_digit_def is_space_def isshellspecial_def)

lemma skip_digits_quoting:
  assumes "quoting q w" "drop s cs = q @ rest" "s + length q \<le> e" "e \<le> length cs"
    "s + length q = e \<or> rest \<noteq> [] \<and> word_ends rest"
  shows "\<exists>p. skip_while is_digit cs s e = Inr p \<and> s \<le> p \<and> p \<le> e
    \<and> (p = e \<or> cs ! p \<noteq> CHR ''<'' \<and> cs ! p \<noteq> CHR ''>'')
    \<and> word_loop cs s e NUL d = word_loop cs p e NUL d"
  using assms(1,2,3,5)
proof (induction q arbitrary: s w)
  case Nil
  show ?case
  proof (cases "s = e")
    case True
    then show ?thesis by (subst skip_while.simps) simp
  next
    case False
    then obtain c r where c: "drop s cs = c # r" "is_space c \<or> c = CHR ''#''"
      using Nil by (cases rest) (auto simp: word_ends_def)
    then have "\<not> is_digit c" by (auto simp: is_digit_def is_space_def)
    moreover have "c \<noteq> CHR ''<''" "c \<noteq> CHR ''>''" using c(2) by (auto simp: is_space_def)
    ultimately show ?thesis using False Nil.prems(3) drop_Cons_nth [OF c(1)]
      by (subst skip_while.simps) auto
  qed
next
  case (Cons c q)
  then have p: "s < length cs" "cs ! s = c" "drop (Suc s) cs = q @ rest" "s \<noteq> e"
    using drop_Cons_nth [of s cs c "q @ rest"] by auto
  show ?case
  proof (cases "is_digit c")
    case True
    from Cons.prems(1) obtain w' where w': "quoting q w'"
      using digit_ordinary(3) [OF True] by (cases rule: quoting.cases) auto
    have "word_loop cs s e NUL d = word_loop cs (Suc s) e NUL d"
      using p digit_ordinary [OF True] by (subst word_loop.simps) auto
    moreover have "skip_while is_digit cs s e = skip_while is_digit cs (Suc s) e"
      using p True by (subst skip_while.simps) auto
    ultimately show ?thesis using Cons.IH [OF w' p(3)] Cons.prems(3,4) by fastforce
  next
    case False
    then have "skip_while is_digit cs s e = Inr s" using p by (subst skip_while.simps) auto
    then show ?thesis using quoting_starts [OF Cons.prems(1)] p Cons.prems(3)
      by (auto simp: isshellspecial_def)
  qed
qed

lemma read_token_quoting:
  assumes "quoting q w" "q \<noteq> []" "drop s cs = q @ rest" "s + length q \<le> e" "e \<le> length cs"
    "s + length q = e \<or> rest \<noteq> [] \<and> word_ends rest"
  shows "read_token cs s e = Inr (s + length q, TYPE_NORMAL, has_quotes q)"
proof -
  obtain p where p: "skip_while is_digit cs s e = Inr p" "s \<le> p" "p \<le> e"
    "p = e \<or> cs ! p \<noteq> CHR ''<'' \<and> cs ! p \<noteq> CHR ''>''"
    "word_loop cs s e NUL False = word_loop cs p e NUL False"
    using skip_digits_quoting [OF assms(1,3,4,5,6)] by blast
  obtain c q' where q: "q = c # q'" using assms(2) by (cases q) auto
  then have s: "cs ! s = c" using drop_Cons_nth [of s cs c "q' @ rest"] assms(3) by simp
  have c: "\<not> isshellspecial c" using quoting_starts assms(1) q by blast
  have stop: "word_loop cs (s + length q) e NUL d = Inr (s + length q, d)" for d
  proof (cases "s + length q = e")
    case True
    then show ?thesis by (subst word_loop.simps) simp
  next
    case False
    have "drop (s + length q) cs = drop (length q) (drop s cs)" by (simp add: add.commute)
    then have "drop (s + length q) cs = rest" using assms(3) by simp
    then obtain c where "drop (s + length q) cs = c # tl rest" "is_space c \<or> c = CHR ''#''"
      using assms(6) False by (cases rest) (auto simp: word_ends_def)
    then show ?thesis using False drop_Cons_nth [of "s + length q" cs c]
      by (subst word_loop.simps) (auto simp: isshellspecial_def)
  qed
  have "word_loop cs p e NUL False = Inr (s + length q, has_quotes q)"
    using word_loop_quoting [OF assms(1,3,4,5), of False] stop p(5) by simp
  then show ?thesis using p s c by (auto simp: read_token_def isshellspecial_def)
qed

subsection \<open>The text of a token\<close>

lemma unat_pos_add:
  fixes pos :: u32
  assumes "unat pos + n < 2 ^ 32"
  shows "unat (pos + of_nat n) = unat pos + n"
  using assms by (simp add: unat_word_ariths unat_of_nat)

lemma unat_pos_add_numeral:
  fixes pos :: u32
  shows "unat pos + 1 < 2 ^ 32 \<Longrightarrow> unat (pos + 1) = unat pos + 1"
    "unat pos + 2 < 2 ^ 32 \<Longrightarrow> unat (pos + 2) = unat pos + 2"
  using unat_pos_add [of pos 1] unat_pos_add [of pos 2] by simp_all

lemma str_loop_quoted:
  assumes "drop (s + unat pos) cs = u @ x # rest" "x \<notin> set u" "NUL \<notin> set u" "x = DQUOTE \<longrightarrow> BACKSLASH \<notin> set u"
    "x \<in> {SQUOTE, DQUOTE}" "unat pos + length u < unat len"
  shows "str_loop cs s len pos x b = str_loop cs s len (pos + of_nat (length u + 1)) NUL (b @ u)"
  using assms
proof (induction u arbitrary: pos b)
  case Nil
  then show ?case using drop_Cons_nth [of "s + unat pos" cs x rest]
    by (subst str_loop.simps) (auto simp: Let_def)
next
  case (Cons c u)
  have bound: "unat pos + 1 < 2 ^ 32" using Cons.prems(6) unsigned_less [of len, where 'a = nat] by simp
  note pos = unat_pos_add_numeral(1) [OF bound]
  have p: "s + unat pos < length cs" "cs ! (s + unat pos) = c" "drop (Suc (s + unat pos)) cs = u @ x # rest"
    using drop_Cons_nth [of "s + unat pos" cs c "u @ x # rest"] Cons.prems(1) by auto
  have "Suc (s + unat pos) < length cs" using arg_cong [OF p(3), of length] by simp
  then have "str_loop cs s len pos x b = str_loop cs s len (pos + 1) x (b @ [c])"
    using Cons.prems p(1,2) pos by (subst str_loop.simps) (auto simp: Let_def)
  then show ?case using Cons.IH [of "pos + 1" "b @ [c]"] Cons.prems p(3) pos by (simp add: add.assoc)
qed

lemma str_loop_quoting:
  assumes "quoting q w" "drop (s + unat pos) cs = q @ rest" "unat pos + length q = unat len"
  shows "str_loop cs s len pos NUL b = Some (Inr (b @ w))"
  using assms
proof (induction q w arbitrary: pos b rule: quoting.induct)
  case nothing
  then have "pos = len" by (simp add: word_unat_eq_iff)
  then show ?case by (subst str_loop.simps) simp
next
  case (plain q w c)
  have p: "s + unat pos < length cs" "cs ! (s + unat pos) = c" "drop (Suc (s + unat pos)) cs = q @ rest"
    using drop_Cons_nth [of "s + unat pos" cs c "q @ rest"] plain.prems(1) by auto
  have bound: "unat pos + 1 < 2 ^ 32" using plain.prems(2) unsigned_less [of len, where 'a = nat] by simp
  note pos = unat_pos_add_numeral(1) [OF bound]
  have "str_loop cs s len pos NUL b = str_loop cs s len (pos + 1) NUL (b @ [c])"
    using plain.hyps plain.prems(2) p(1,2) by (subst str_loop.simps) (auto simp: Let_def)
  then show ?case using plain.IH [of "pos + 1" "b @ [c]"] plain.prems p(3) pos by simp
next
  case (escaped q w c)
  have p: "s + unat pos < length cs" "cs ! (s + unat pos) = BACKSLASH" "drop (Suc (s + unat pos)) cs = c # q @ rest"
    using drop_Cons_nth [of "s + unat pos" cs BACKSLASH "c # q @ rest"] escaped.prems(1) by auto
  have bound: "unat pos + 2 < 2 ^ 32" using escaped.prems(2) unsigned_less [of len, where 'a = nat] by simp
  note pos = unat_pos_add_numeral(2) [OF bound] unat_pos_add_numeral(1) [of pos]
  have c: "Suc (s + unat pos) < length cs" "cs ! Suc (s + unat pos) = c" "drop (s + unat pos + 2) cs = q @ rest"
    using drop_Cons_nth [OF p(3)] by auto
  have "str_loop cs s len pos NUL b = str_loop cs s len (pos + 2) NUL (b @ [c])"
    using escaped.hyps escaped.prems(2) p(1,2) c(1,2) bound pos(2) by (subst str_loop.simps) (auto simp: Let_def)
  then show ?case using escaped.IH [of "pos + 2" "b @ [c]"] escaped.prems c(3) pos(1) by (simp add: add.assoc)
next
  case (quoted q w x u)
  have p: "s + unat pos < length cs" "cs ! (s + unat pos) = x" "drop (Suc (s + unat pos)) cs = u @ x # q @ rest"
    using drop_Cons_nth [of "s + unat pos" cs x "u @ x # q @ rest"] quoted.prems(1) by auto
  have bound: "unat pos + (length u + 2) < 2 ^ 32"
    using quoted.prems(2) unsigned_less [of len, where 'a = nat] by simp
  have pos: "unat (pos + 1) = unat pos + 1" "unat (pos + of_nat (length u + 2)) = unat pos + (length u + 2)"
    using unat_pos_add_numeral(1) [of pos] unat_pos_add [OF bound] bound by simp_all
  have "str_loop cs s len pos NUL b = str_loop cs s len (pos + 1) x b"
    using quoted.hyps quoted.prems(2) p(1,2) by (subst str_loop.simps) (auto simp: Let_def)
  also have "\<dots> = str_loop cs s len (pos + 1 + of_nat (length u + 1)) NUL (b @ u)"
    by (rule str_loop_quoted [where rest = "q @ rest"]) (use quoted.hyps quoted.prems(2) p(3) pos in auto)
  also have "\<dots> = str_loop cs s len (pos + of_nat (length u + 2)) NUL (b @ u)"
    by (simp add: algebra_simps)
  also have "\<dots> = Some (Inr ((b @ u) @ w))"
  proof (rule quoted.IH)
    show "drop (s + unat (pos + of_nat (length u + 2))) cs = q @ rest"
      using arg_cong [OF p(3), of "drop (length u + 1)"] unfolding pos(2) by (simp add: add.commute add.left_commute)
  qed (use quoted.prems(2) pos(2) in simp)
  finally show ?case by simp
qed

section \<open>The words of a line\<close>

text \<open>A line that writes the words \<open>ws\<close>, between spaces and perhaps before a comment.\<close>

inductive command_text :: "string \<Rightarrow> string list \<Rightarrow> bool" where
  blank: "command_text b []"
    if "\<forall>c \<in> set b. is_space c"
| comment: "command_text (b @ CHR ''#'' # u) []"
    if "\<forall>c \<in> set b. is_space c" "NUL \<notin> set u"
| word: "command_text (b @ q @ t) (w # ws)"
    if "\<forall>c \<in> set b. is_space c" "quoting q w" "q \<noteq> []" "command_text t ws" "word_ends t"

lemma not_space_NUL [simp]: "\<not> is_space NUL" "\<not> is_space (CHR ''#'')"
  by (simp_all add: is_space_def)

lemma command_text_no_NUL: "command_text t ws \<Longrightarrow> NUL \<notin> set t"
  by (induction rule: command_text.induct) (auto dest: quoting_no_NUL)

lemma skip_blank:
  assumes "drop k cs = b @ rest" "\<forall>c \<in> set b. is_space c" "k + length b \<le> e" "e \<le> length cs"
    "k + length b = e \<or> rest \<noteq> [] \<and> \<not> is_space (hd rest)"
  shows "skip_while is_space cs k e = Inr (k + length b)"
  using assms
proof (induction b arbitrary: k)
  case Nil
  then show ?case by (cases rest) (auto simp: skip_while.simps [of _ cs k e] dest: drop_Cons_nth)
next
  case (Cons c b)
  then have p: "k < length cs" "cs ! k = c" "drop (Suc k) cs = b @ rest"
    using drop_Cons_nth [of k cs c "b @ rest"] by auto
  then show ?case using Cons.IH [of "Suc k"] Cons.prems by (subst skip_while.simps) auto
qed

text \<open>The position \<open>k\<close> of a line that continues with \<open>t\<close>.\<close>

definition continues :: "string \<Rightarrow> nat \<Rightarrow> string \<Rightarrow> bool" where
  "continues cs k t \<longleftrightarrow> drop k cs = t @ [NUL] \<and> Suc (k + length t) = length cs \<and> length cs \<le> 2 ^ 32"

lemma continues_drop: "continues cs k (a @ t) \<Longrightarrow> continues cs (k + length a) t"
  by (auto simp: continues_def add.commute [of k] simp flip: drop_drop)

lemma skip_none:
  assumes "\<forall>c \<in> set b. is_space c" "continues cs k (b @ r)" "r = [] \<or> hd r = CHR ''#''"
  shows "skip_shell_space cs k (length cs - 1) = Inr (length cs - 1)"
proof -
  let ?e = "length cs - 1"
  have r: "continues cs (k + length b) r" by (rule continues_drop [OF assms(2)])
  have "skip_while is_space cs k ?e = Inr (k + length b)"
  proof (rule skip_blank)
    show "drop k cs = b @ r @ [NUL]" using assms(2) by (simp add: continues_def)
    show "k + length b = ?e \<or> r @ [NUL] \<noteq> [] \<and> \<not> is_space (hd (r @ [NUL]))"
      using assms(3) by (cases r) auto
  qed (use assms(1,2) in \<open>auto simp: continues_def\<close>)
  moreover have "k + length b \<noteq> ?e \<Longrightarrow> cs ! (k + length b) = CHR ''#''"
    using r assms(3) drop_Cons_nth(2) [of "k + length b" cs "hd r" "tl r @ [NUL]"]
    by (cases r) (auto simp: continues_def)
  ultimately show ?thesis by (auto simp: skip_shell_space_def)
qed

lemma skip_to_word:
  assumes "\<forall>c \<in> set b. is_space c" "continues cs k (b @ q @ t)" "quoting q w" "q \<noteq> []"
  shows "skip_shell_space cs k (length cs - 1) = Inr (k + length b)"
proof -
  let ?e = "length cs - 1"
  obtain c q' where q: "q = c # q'" using assms(4) by (cases q) auto
  have c: "\<not> is_space c" "c \<noteq> CHR ''#''" using quoting_starts assms(3) q by (auto simp: isshellspecial_def)
  have r: "continues cs (k + length b) (q @ t)" by (rule continues_drop [OF assms(2)])
  have "skip_while is_space cs k ?e = Inr (k + length b)"
  proof (rule skip_blank)
    show "drop k cs = b @ q @ t @ [NUL]" using assms(2) by (simp add: continues_def)
  qed (use assms(1,2) q c in \<open>auto simp: continues_def\<close>)
  moreover have "cs ! (k + length b) = c"
    using r drop_Cons_nth(2) [of "k + length b" cs c "q' @ t @ [NUL]"] q by (simp add: continues_def)
  ultimately show ?thesis using c by (simp add: skip_shell_space_def)
qed

text \<open>The token of a word, and its text.\<close>

lemma word_token:
  assumes "\<forall>c \<in> set b. is_space c" "continues cs (token_end it) (b @ q @ t)" "quoting q w" "q \<noteq> []"
    "word_ends t" "tk_end it = length cs - 1"
  obtains it' where "next_token cs it = Inr it'" "tk_end it' = length cs - 1" "tk_s it' = token_end it + length b"
    "tk_s it' \<noteq> length cs - 1" "token_end it' = tk_s it' + length q" "token_str cs it' = Some (Inr w)"
    "continues cs (token_end it') t"
proof
  let ?e = "length cs - 1" and ?s = "token_end it + length b"
  let ?it = "it\<lparr>tk_s := ?s, tk_len := of_nat (length q), tk_quoted := has_quotes q, tk_type := TYPE_NORMAL\<rparr>"
  have s: "continues cs ?s (q @ t)" by (rule continues_drop [OF assms(2)])
  then have d: "drop ?s cs = q @ t @ [NUL]" "Suc (?s + length q + length t) = length cs" "length cs \<le> 2 ^ 32"
    by (simp_all add: continues_def)
  have len: "unat (of_nat (length q) :: u32) = length q" using d(2,3) by (simp add: unat_of_nat)
  have "read_token cs ?s ?e = Inr (?s + length q, TYPE_NORMAL, has_quotes q)"
    by (rule read_token_quoting [OF assms(3,4) d(1)])
      (use d(2) assms(5) in \<open>auto simp: word_ends_def split: list.splits\<close>)
  moreover have "?s \<noteq> ?e" using d(2) assms(4) by (cases q) auto
  ultimately show "next_token cs it = Inr ?it" "tk_s ?it \<noteq> ?e"
    using skip_to_word [OF assms(1,2,3,4)] assms(6) by (simp_all add: next_token_def token_end_def)
  show "token_end ?it = tk_s ?it + length q" using len by (simp add: token_end_def)
  then show "continues cs (token_end ?it) t" using continues_drop [OF s] by simp
  show "token_str cs ?it = Some (Inr w)"
  proof (cases "has_quotes q")
    case True
    have "str_loop cs ?s (of_nat (length q)) 0 NUL [] = Some (Inr ([] @ w))"
      by (rule str_loop_quoting [OF assms(3), where rest = "t @ [NUL]"]) (simp_all add: d(1) len)
    then show ?thesis using True by (simp add: token_str_def)
  next
    case False
    then show ?thesis using quoting_plain [OF assms(3)] d len by (simp add: token_str_def)
  qed
qed (use assms(6) in simp_all)

lemma push_tokens_text:
  assumes "command_text t ws" "continues cs (token_end it) t" "tk_end it = length cs - 1"
    "ps_s fin = length cs - 1" "ps_stop fin = length cs - 1"
  shows "\<exists>it'. next_token cs it = Inr it'
    \<and> push_tokens cs fin it' c = Some (Inr (c\<lparr>args := args c @ ws\<rparr>))"
  using assms(1,2,3)
proof (induction t ws arbitrary: it c rule: command_text.induct)
  case (blank b)
  then have "skip_shell_space cs (token_end it) (length cs - 1) = Inr (length cs - 1)"
    using skip_none [of b cs "token_end it" "[]"] by simp
  then show ?case using assms(4,5) blank.prems(2)
    by (auto simp: next_token_def token_end_def token_ne_parser_def push_tokens.simps)
next
  case (comment b u)
  then have "skip_shell_space cs (token_end it) (length cs - 1) = Inr (length cs - 1)"
    using skip_none [of b cs "token_end it" "CHR ''#'' # u"] by simp
  then show ?case using assms(4,5) comment.prems(2)
    by (auto simp: next_token_def token_end_def token_ne_parser_def push_tokens.simps)
next
  case (word b q w t ws)
  obtain it' where it': "next_token cs it = Inr it'" "tk_end it' = length cs - 1" "tk_s it' \<noteq> length cs - 1"
    "token_str cs it' = Some (Inr w)" "continues cs (token_end it') t"
    by (rule word_token [OF word.hyps(1) word.prems(1) word.hyps(2,3,5) word.prems(2)])
  let ?c = "c\<lparr>args := args c @ [w]\<rparr>"
  obtain it'' where "next_token cs it' = Inr it''"
    "push_tokens cs fin it'' ?c = Some (Inr (?c\<lparr>args := args ?c @ ws\<rparr>))"
    using word.IH [OF it'(5,2)] by blast
  then have "push_tokens cs fin it' c = Some (Inr (c\<lparr>args := args c @ w # ws\<rparr>))"
    using it'(3,4) assms(4) by (subst push_tokens.simps) (simp add: token_ne_parser_def)
  then show ?case using it'(1) by blast
qed

text \<open>The parser of a line starts at its first word.\<close>

lemma parser_text:
  assumes "command_text t ws" "is_line t"
  obtains s t' where "command_line_parser (t @ [NUL]) = Inr \<lparr>ps_s = s, ps_stop = length t, ps_end = length t\<rparr>"
    "continues (t @ [NUL]) s t'" "command_text t' ws"
proof -
  let ?cs = "t @ [NUL]" and ?e = "length t"
  have par: "command_line_parser ?cs = shell_parser_at ?cs 0 ?e ?e"
    by (simp add: command_line_parser_def Let_def line_length [OF assms(2)])
  have c: "continues ?cs 0 t" using assms(2) by (simp add: continues_def is_line_def)
  have "\<exists>s t'. skip_shell_space ?cs 0 ?e = Inr s \<and> continues ?cs s t' \<and> command_text t' ws"
    using assms(1)
  proof cases
    case blank
    then show ?thesis using skip_none [of t ?cs 0 "[]"] c continues_drop [of ?cs 0 t "[]"] command_text.blank [of "[]"]
      by (intro exI [of _ ?e] exI [of _ "[]"]) auto
  next
    case (comment b u)
    then have "skip_shell_space ?cs 0 ?e = Inr ?e" using skip_none [of b ?cs 0 "CHR ''#'' # u"] c by simp
    moreover have "continues ?cs ?e []" using continues_drop [of ?cs 0 t "[]"] c by simp
    ultimately show ?thesis using comment(2) command_text.blank [of "[]"] by auto
  next
    case (word b q w t1 ws1)
    then have "skip_shell_space ?cs 0 ?e = Inr (length b)" using skip_to_word [of b ?cs 0 q t1 w] c by simp
    moreover have "continues ?cs (length b) (q @ t1)" using continues_drop [of ?cs 0 b "q @ t1"] c word(1) by simp
    moreover have "command_text (q @ t1) ws" using command_text.word [of "[]" q w t1 ws1] word by simp
    ultimately show ?thesis by blast
  qed
  then show thesis using that par by (auto simp: shell_parser_at_def)
qed

section \<open>Regions\<close>

text \<open>The loop \<open>while (par) { ...; ++par; }\<close> of a parser.\<close>

partial_function (option) regions_from :: "string \<Rightarrow> u64 \<Rightarrow> shell_parser \<Rightarrow> shell_parser list result option" where
  "regions_from cs fl par =
     (if parser_empty par then Some (Inr [])
      else bind_ro (next_delimited cs fl par) (\<lambda>par'.
           bind_ro (regions_from cs fl par') (\<lambda>pars. Some (Inr (par # pars)))))"

definition line_regions :: "u64 \<Rightarrow> string \<Rightarrow> shell_parser list result option" where
  "line_regions fl cs =
     bind_ro (Some (command_line_parser cs)) (\<lambda>par.
     bind_ro (first_delimited cs fl par) (regions_from cs fl))"

lemma dropWhile_shorter: "takeWhile P xs \<noteq> [] \<Longrightarrow> length (dropWhile P xs) - Suc 0 < length xs"
  by (cases xs) (auto simp: less_Suc_eq_le intro: order_trans [OF diff_le_self length_dropWhile_le])

text \<open>A token list cut at its delimiters: each run of other tokens, with what follows it.\<close>

function runs :: "(int \<Rightarrow> bool) \<Rightarrow> shell_tokenizer list \<Rightarrow> (shell_tokenizer list \<times> shell_tokenizer list) list" where
  "runs delim toks =
     (let run = takeWhile (\<lambda>k. \<not> delim (tk_type k)) toks; rest = dropWhile (\<lambda>k. \<not> delim (tk_type k)) toks
      in if run = [] then [] else (run, rest) # runs delim (tl rest))"
  by auto
termination
  by (relation "measure (\<lambda>(delim, toks). length toks)") (auto dest: dropWhile_shorter)

declare runs.simps [simp del]

text \<open>The start, end and operator of the region of a run.\<close>

definition next_start :: "nat \<Rightarrow> shell_tokenizer list \<Rightarrow> nat" where
  "next_start e rest = (case rest of [] \<Rightarrow> e | k # _ \<Rightarrow> tk_s k)"

definition next_type :: "shell_tokenizer list \<Rightarrow> int" where
  "next_type rest = (case rest of [] \<Rightarrow> TYPE_EOL | k # _ \<Rightarrow> tk_type k)"

definition run_region :: "string \<Rightarrow> nat \<Rightarrow> shell_tokenizer list \<times> shell_tokenizer list \<Rightarrow> nat \<times> nat \<times> int result" where
  "run_region cs e = (\<lambda>(run, rest).
     (tk_s (hd run), trim_space cs (tk_s (hd run)) (next_start e rest), Inr (next_type rest)))"

definition parser_region :: "string \<Rightarrow> shell_parser \<Rightarrow> nat \<times> nat \<times> int result" where
  "parser_region cs par = (ps_s par, ps_stop par, next_op cs par)"

lemma next_token_tokenizer: "next_token cs it = tokenizer cs (token_end it) (tk_end it)"
  by (cases it) (auto simp: next_token_def tokenizer_def token_end_def bind_result_def split: sum.split prod.split)

text \<open>A token of the line \<open>cs\<close>, as the tokenizer finds it again at its start.\<close>

definition token_at :: "string \<Rightarrow> shell_tokenizer \<Rightarrow> bool" where
  "token_at cs it \<longleftrightarrow> good_token cs (length cs - 1) it \<and> tokenizer cs (tk_s it) (length cs - 1) = Inr it"

definition short_line :: "string \<Rightarrow> bool" where
  "short_line cs \<longleftrightarrow> cs \<noteq> [] \<and> length cs \<le> 2 ^ 32"

lemma skip_at_token:
  assumes "s \<le> e" "e \<le> length cs" "s \<noteq> e \<longrightarrow> \<not> is_space (cs ! s) \<and> cs ! s \<noteq> CHR ''#''"
  shows "skip_shell_space cs s e = Inr s"
  using assms by (auto simp: skip_shell_space_def skip_while.simps [of _ cs s e])

lemma tokenizer_cong: "skip_shell_space cs k e = skip_shell_space cs k' e \<Longrightarrow> tokenizer cs k e = tokenizer cs k' e"
  by (auto simp: tokenizer_def next_token_def bind_result_def split: sum.split prod.split)

text \<open>Spaces before a token do not change it.\<close>

lemma tokenizer_at:
  assumes "short_line cs" "good_token cs (length cs - 1) it" "k \<le> tk_s it" "\<forall>i \<in> {k ..< tk_s it}. is_space (cs ! i)"
  shows "tokenizer cs k (length cs - 1) = tokenizer cs (tk_s it) (length cs - 1)"
proof -
  let ?e = "length cs - 1"
  have s: "tk_s it \<le> ?e" "tk_s it \<noteq> ?e \<longrightarrow> \<not> is_space (cs ! tk_s it) \<and> cs ! tk_s it \<noteq> CHR ''#''"
    using assms(2) by (auto simp: good_token_def token_end_def split: if_splits)
  obtain h where h: "skip_while is_space cs k ?e = Inr h" "k \<le> h" "h \<le> ?e" "\<forall>i \<in> {k ..< h}. is_space (cs ! i)"
    "h \<noteq> ?e \<longrightarrow> \<not> is_space (cs ! h)"
    using skip_while_ok [of k ?e cs is_space] assms(3) s(1) by auto
  have "h = tk_s it"
  proof (rule ccontr)
    assume "h \<noteq> tk_s it"
    then consider "h < tk_s it" | "tk_s it < h" by linarith
    then show False
    proof cases
      case 1
      then show False using h s(1) assms(4) by auto
    next
      case 2
      then show False using h(2-4) s assms(3) by auto
    qed
  qed
  then have "skip_shell_space cs k ?e = skip_shell_space cs (tk_s it) ?e"
    using h(1) skip_at_token [of "tk_s it" ?e cs] s by (auto simp: skip_shell_space_def)
  then show ?thesis by (rule tokenizer_cong)
qed

lemma tokenizer_token_at:
  assumes "short_line cs" "k \<le> length cs - 1"
  shows "\<exists>it. tokenizer cs k (length cs - 1) = Inr it \<and> token_at cs it \<and> k \<le> tk_s it"
proof -
  let ?e = "length cs - 1"
  have e: "?e \<le> length cs" "?e < 2 ^ 32" using assms(1) by (cases cs; simp add: short_line_def)+
  obtain it where it: "tokenizer cs k ?e = Inr it" "good_token cs ?e it" "gap cs ?e k (tk_s it)"
    using tokenizer_ok [OF assms(2) e] by blast
  have s: "tk_s it \<le> ?e" "tk_s it \<noteq> ?e \<longrightarrow> \<not> is_space (cs ! tk_s it) \<and> cs ! tk_s it \<noteq> CHR ''#''"
    using it(2) by (auto simp: good_token_def token_end_def split: if_splits)
  have "skip_shell_space cs k ?e = Inr (tk_s it)"
    using it(1) by (auto simp: tokenizer_def next_token_def bind_result_Inr_iff split: if_splits)
  then have "tokenizer cs (tk_s it) ?e = tokenizer cs k ?e"
    using skip_at_token [of "tk_s it" ?e cs] s by (intro tokenizer_cong) simp
  then show ?thesis using it by (auto simp: token_at_def gap_def)
qed

lemma next_token_at:
  assumes "short_line cs" "token_at cs it"
  shows "\<exists>it'. next_token cs it = Inr it' \<and> token_at cs it' \<and> token_end it \<le> tk_s it'"
  using tokenizer_token_at [OF assms(1), of "token_end it"] assms(2)
  by (simp add: next_token_tokenizer token_at_def good_token_def)

lemma bind_ro_Inr_iff:
  "bind_ro r f = Some (Inr y) \<longleftrightarrow> (\<exists>x. r = Some (Inr x) \<and> f x = Some (Inr y))"
proof (cases r)
  case (Some a)
  then show ?thesis by (cases a) simp_all
qed simp

lemma tokens_from_at:
  assumes "short_line cs" "token_at cs it"
  obtains toks where "tokens_from cs it = Some (Inr toks)"
  using tokens_from_ok [of cs "length cs - 1" it] assms by (cases cs) (auto simp: token_at_def short_line_def)

lemma token_atD:
  assumes "token_at cs it"
  shows "tk_end it = length cs - 1" "tk_s it \<le> length cs - 1" "0 \<le> tk_type it"
    "tk_s it = length cs - 1 \<longleftrightarrow> tk_type it = TYPE_EOL"
    "tk_s it \<noteq> length cs - 1 \<longrightarrow> tk_s it < token_end it \<and> \<not> is_space (cs ! tk_s it) \<and> cs ! tk_s it \<noteq> CHR ''#''"
  using assms by (auto simp: token_at_def good_token_def token_end_def split: if_splits)

text \<open>The loop to the next delimiter drops the tokens before it.\<close>

lemma find_delimiter_ok:
  assumes "short_line cs" "token_at cs it" "tokens_from cs it = Some (Inr toks)" "in_mask fl TYPE_EOL"
  shows "\<exists>it'. find_delimiter cs fl it = Some (Inr it') \<and> token_at cs it' \<and> tk_s it \<le> tk_s it'
    \<and> in_mask fl (tk_type it')
    \<and> tokens_from cs it' = Some (Inr (dropWhile (\<lambda>k. \<not> in_mask fl (tk_type k)) toks))
    \<and> (toks = [] \<or> in_mask fl (tk_type (hd toks)) \<longleftrightarrow> it' = it)
    \<and> (it' \<noteq> it \<longrightarrow> tk_s it < tk_s it')"
  using assms(2,3)
proof (induction toks arbitrary: it)
  case Nil
  have "tk_s it = tk_end it"
  proof (rule ccontr)
    assume "tk_s it \<noteq> tk_end it"
    then show False using Nil(2) by (subst (asm) tokens_from.simps) (auto simp: bind_ro_Inr_iff)
  qed
  then have "tk_type it = TYPE_EOL" using token_atD(1,4) [OF Nil(1)] by simp
  then show ?case using Nil assms(4) by (subst find_delimiter.simps) simp
next
  case (Cons k toks)
  have s: "tk_s it \<noteq> tk_end it" using Cons.prems(2) by (subst (asm) tokens_from.simps) (auto split: if_splits)
  obtain it1 where it1: "next_token cs it = Inr it1" "token_at cs it1" "token_end it \<le> tk_s it1"
    using next_token_at [OF assms(1) Cons.prems(1)] by blast
  have k: "k = it" "tokens_from cs it1 = Some (Inr toks)"
    using Cons.prems(2) s it1(1) by (subst (asm) tokens_from.simps; auto simp: bind_ro_Inr_iff)+
  note at = token_atD [OF Cons.prems(1)]
  show ?case
  proof (cases "in_mask fl (tk_type it)")
    case True
    then show ?thesis using Cons.prems k(1) by (subst find_delimiter.simps) simp
  next
    case False
    have lt: "tk_s it < tk_s it1" using at(1,5) s it1(3) by simp
    obtain it' where it': "find_delimiter cs fl it1 = Some (Inr it')" "token_at cs it'" "tk_s it1 \<le> tk_s it'"
      "in_mask fl (tk_type it')" "tokens_from cs it' = Some (Inr (dropWhile (\<lambda>k. \<not> in_mask fl (tk_type k)) toks))"
      using Cons.IH [OF it1(2) k(2)] by blast
    moreover have "find_delimiter cs fl it = find_delimiter cs fl it1"
      using False at(3) it1(1) by (subst find_delimiter.simps) simp
    ultimately show ?thesis using False k(1) lt by auto
  qed
qed

lemma trim_space_ok:
  "s \<le> p \<Longrightarrow> s \<le> trim_space cs s p \<and> trim_space cs s p \<le> p \<and> (\<forall>i \<in> {trim_space cs s p ..< p}. is_space (cs ! i))
    \<and> (trim_space cs s p \<noteq> s \<longrightarrow> \<not> is_space (cs ! (trim_space cs s p - 1)))"
  by (induction p) (auto simp: less_Suc_eq)

lemma trim_space_same [simp]: "trim_space cs s s = s"
  by (cases s) simp_all

lemma trim_space_empty:
  assumes "s \<le> p" "s \<noteq> p \<longrightarrow> \<not> is_space (cs ! s)"
  shows "trim_space cs s p = s \<longleftrightarrow> p = s"
  using trim_space_ok [OF assms(1), of cs] assms by (cases "p = s") force+

lemma tokens_from_head:
  assumes "tokens_from cs it = Some (Inr toks)"
  shows "toks = [] \<longleftrightarrow> tk_s it = tk_end it" "toks \<noteq> [] \<Longrightarrow> hd toks = it"
  using assms by (subst (asm) tokens_from.simps; auto simp: bind_ro_Inr_iff split: if_splits)+

lemma next_start_at:
  assumes "token_at cs it" "tokens_from cs it = Some (Inr rest)"
  shows "next_start (length cs - 1) rest = tk_s it" "next_type rest = tk_type it"
  using tokens_from_head [OF assms(2)] token_atD(1,4) [OF assms(1)]
  by (auto simp: next_start_def next_type_def split: list.splits)

lemma tokens_from_tl:
  assumes "short_line cs" "token_at cs it" "tokens_from cs it = Some (Inr toks)" "next_token cs it = Inr it'" "token_at cs it'"
    "token_end it \<le> tk_s it'"
  shows "tokens_from cs it' = Some (Inr (tl toks))"
proof (cases "tk_s it = tk_end it")
  case True
  then have "tk_s it' = tk_end it'"
    using token_atD(1,2) [OF assms(2)] token_atD(1,2) [OF assms(5)] assms(6) by (simp add: token_end_def)
  then show ?thesis using True tokens_from_head(1) [OF assms(3)] by (subst tokens_from.simps) simp
next
  case False
  then show ?thesis using assms(3,4)
    by (subst (asm) tokens_from.simps) (auto simp: bind_ro_Inr_iff)
qed

text \<open>The operator after a region is the delimiter that ends it.\<close>

lemma tokenizer_trimmed:
  assumes "short_line cs" "token_at cs it" "s \<le> tk_s it"
  shows "tokenizer cs (trim_space cs s (tk_s it)) (length cs - 1) = Inr it"
proof -
  have "tokenizer cs (trim_space cs s (tk_s it)) (length cs - 1) = tokenizer cs (tk_s it) (length cs - 1)"
    by (rule tokenizer_at) (use assms trim_space_ok [OF assms(3), of cs] in \<open>auto simp: token_at_def\<close>)
  then show ?thesis using assms(2) by (simp add: token_at_def)
qed

abbreviation region_at :: "string \<Rightarrow> shell_tokenizer \<Rightarrow> shell_tokenizer \<Rightarrow> shell_parser" where
  "region_at cs it it' \<equiv>
     \<lparr>ps_s = tk_s it, ps_stop = trim_space cs (tk_s it) (tk_s it'), ps_end = length cs - 1\<rparr>"

lemma regions_from_ok:
  assumes "short_line cs" "in_mask fl TYPE_EOL" "token_at cs it" "tokens_from cs it = Some (Inr toks)"
    "find_delimiter cs fl it = Some (Inr it')"
  shows "\<exists>pars. regions_from cs fl (region_at cs it it') = Some (Inr pars)
    \<and> map (parser_region cs) pars = map (run_region cs (length cs - 1)) (runs (in_mask fl) toks)"
  using assms(3,4,5)
proof (induction "length toks" arbitrary: toks it it' rule: less_induct)
  case less
  let ?run = "takeWhile (\<lambda>k. \<not> in_mask fl (tk_type k)) toks" and ?rest = "dropWhile (\<lambda>k. \<not> in_mask fl (tk_type k)) toks"
  have it': "token_at cs it'" "tk_s it \<le> tk_s it'" "in_mask fl (tk_type it')"
    "tokens_from cs it' = Some (Inr ?rest)" "toks = [] \<or> in_mask fl (tk_type (hd toks)) \<longleftrightarrow> it' = it"
    "it' \<noteq> it \<longrightarrow> tk_s it < tk_s it'"
    using find_delimiter_ok [OF assms(1) less.prems(1,2) assms(2)] less.prems(3) by auto
  note at = token_atD [OF less.prems(1)] and at' = token_atD [OF it'(1)]
  show ?case
  proof (cases "it' = it")
    case True
    then have "?run = []" using it'(5) by (cases toks) auto
    then have "runs (in_mask fl) toks = []" by (subst runs.simps) simp
    then show ?thesis using True by (subst regions_from.simps) (simp add: parser_empty_def)
  next
    case False
    then have toks: "toks \<noteq> []" "hd toks = it" "\<not> in_mask fl (tk_type it)"
      using it'(5) tokens_from_head(2) [OF less.prems(2)] by auto
    then have run: "?run \<noteq> []" "hd ?run = it" by (cases toks; simp)+
    have rest: "next_start (length cs - 1) ?rest = tk_s it'" "next_type ?rest = tk_type it'"
      by (rule next_start_at [OF it'(1,4)])+
    obtain it2 where it2: "next_token cs it' = Inr it2" "token_at cs it2" "token_end it' \<le> tk_s it2"
      using next_token_at [OF assms(1) it'(1)] by blast
    have toks2: "tokens_from cs it2 = Some (Inr (tl ?rest))"
      by (rule tokens_from_tl [OF assms(1) it'(1,4) it2])
    obtain it3 where it3: "find_delimiter cs fl it2 = Some (Inr it3)"
      using find_delimiter_ok [OF assms(1) it2(2) toks2 assms(2)] by blast
    have "length (tl ?rest) < length toks" using dropWhile_shorter [OF run(1)] by simp
    from less.hyps [OF this it2(2) toks2 it3] obtain pars where
      pars: "regions_from cs fl (region_at cs it2 it3) = Some (Inr pars)"
        "map (parser_region cs) pars = map (run_region cs (length cs - 1)) (runs (in_mask fl) (tl ?rest))" by blast
    let ?par = "region_at cs it it'"
    have tok: "tokenizer cs (ps_stop ?par) (ps_end ?par) = Inr it'"
      using tokenizer_trimmed [OF assms(1) it'(1,2)] by simp
    have "tk_s it \<noteq> length cs - 1" using it'(6) False at'(2) by auto
    then have "\<not> parser_empty ?par"
      using trim_space_empty [OF it'(2), of cs] it'(6) False at(5) by (auto simp: parser_empty_def)
    moreover have "next_delimited cs fl ?par = Some (Inr (region_at cs it2 it3))"
      using tok it'(3) at'(3) it2(1) it3 by (simp add: next_delimited_def Let_def)
    ultimately have "regions_from cs fl ?par = Some (Inr (?par # pars))"
      using pars(1) by (subst regions_from.simps) simp
    moreover have "runs (in_mask fl) toks = (?run, ?rest) # runs (in_mask fl) (tl ?rest)"
      using run(1) by (subst runs.simps) (simp add: Let_def)
    moreover have "parser_region cs ?par = run_region cs (length cs - 1) (?run, ?rest)"
      using tok rest run by (simp add: parser_region_def run_region_def next_op_def)
    ultimately show ?thesis using pars(2) by auto
  qed
qed

lemma line_regions_ok:
  assumes "is_line t" "in_mask fl TYPE_EOL"
  shows "\<exists>toks pars. line_tokens (t @ [NUL]) = Some (Inr toks) \<and> line_regions fl (t @ [NUL]) = Some (Inr pars)
    \<and> map (parser_region (t @ [NUL])) pars = map (run_region (t @ [NUL]) (length t)) (runs (in_mask fl) toks)"
proof -
  let ?cs = "t @ [NUL]" and ?e = "length t"
  have short: "short_line ?cs" and e: "length ?cs - 1 = ?e" using assms(1) by (simp_all add: short_line_def is_line_def)
  obtain s where par: "command_line_parser ?cs = Inr \<lparr>ps_s = s, ps_stop = ?e, ps_end = ?e\<rparr>" and s: "s \<le> ?e"
    "s \<noteq> ?e \<longrightarrow> \<not> is_space (?cs ! s) \<and> ?cs ! s \<noteq> CHR ''#''"
    using command_line_parser_ok [OF assms(1)] by blast
  have ec: "?e \<le> length ?cs" "?e < 2 ^ 32" using assms(1) by (simp_all add: is_line_def)
  obtain it where it: "tokenizer ?cs s ?e = Inr it" "gap ?cs ?e s (tk_s it)" "token_at ?cs it"
    using tokenizer_ok [OF s(1) ec] tokenizer_token_at [OF short, of s] s(1) by auto
  have start: "tk_s it = s" by (rule gap_at_token [OF it(2) s(2)])
  obtain toks where toks: "tokens_from ?cs it = Some (Inr toks)" by (rule tokens_from_at [OF short it(3)])
  obtain it' where it': "find_delimiter ?cs fl it = Some (Inr it')" "tk_s it \<le> tk_s it'" "token_at ?cs it'"
    using find_delimiter_ok [OF short it(3) toks assms(2)] by blast
  have "skip_shell_space ?cs s (trim_space ?cs s (tk_s it')) = Inr s"
  proof (rule skip_at_token)
    have "s \<le> tk_s it'" using it'(2) start by simp
    note trim = trim_space_ok [OF this, of ?cs] and e' = token_atD(2) [OF it'(3)]
    show "s \<le> trim_space ?cs s (tk_s it')" "trim_space ?cs s (tk_s it') \<le> length ?cs" using trim e' by auto
    show "s \<noteq> trim_space ?cs s (tk_s it') \<longrightarrow> \<not> is_space (?cs ! s) \<and> ?cs ! s \<noteq> CHR ''#''"
      using trim e' s by auto
  qed
  then have "first_delimited ?cs fl \<lparr>ps_s = s, ps_stop = ?e, ps_end = ?e\<rparr> = Some (Inr (region_at ?cs it it'))"
    using it(1) it'(1) start by (simp add: first_delimited_def shell_parser_at_def)
  then show ?thesis
    using regions_from_ok [OF short assms(2) it(3) toks it'(1)] par it(1) toks e
    by (auto simp: line_regions_def line_tokens_def token_begin_def)
qed

section \<open>Properties\<close>

text \<open>\<open>C17\<close>: \<open>run_line\<close> reads back the words of a line, however they are quoted: with escapes,
  single quotes or double quotes, any spaces between them and a comment after them. A line with no
  word fails the assertion on the arguments of \<open>command::run\<close>.\<close>

theorem run_line_reads_words:
  assumes "command_text t ws" "is_line t"
  shows "bind_ro (Some (command_line_parser (t @ [NUL]))) (run_line (t @ [NUL])) =
    Some (if ws = [] then Inl (AssertFail ''this->args.size() > 0'') else Inr ws)"
proof -
  let ?cs = "t @ [NUL]" and ?e = "length t"
  obtain s t' where par: "command_line_parser ?cs = Inr \<lparr>ps_s = s, ps_stop = ?e, ps_end = ?e\<rparr>"
    and t': "continues ?cs s t'" "command_text t' ws" by (rule parser_text [OF assms])
  let ?fin = "\<lparr>ps_s = ?e, ps_stop = ?e, ps_end = ?e\<rparr>"
  have fin: "parser_end ?cs \<lparr>ps_s = s, ps_stop = ?e, ps_end = ?e\<rparr> = Inr ?fin"
    by (simp add: parser_end_def shell_parser_at_def skip_shell_space_def skip_while.simps)
  obtain it where it: "tokenizer ?cs s ?e = Inr it"
    "push_tokens ?cs ?fin it \<lparr>args = [], pid = - 1\<rparr> = Some (Inr \<lparr>args = ws, pid = - 1\<rparr>)"
    using push_tokens_text [OF t'(2), of ?cs "\<lparr>tk_s = s, tk_end = ?e, tk_type = 0, tk_quoted = False, tk_len = 0\<rparr>" ?fin
        "\<lparr>args = [], pid = - 1\<rparr>"] t'(1) by (auto simp: token_end_def tokenizer_def)
  then show ?thesis
    using par fin by (simp add: run_line_def token_begin_def command_run_def assert_that_def)
qed

text \<open>The line \<open>echo "a b"\ c # d\<close>.\<close>

lemma quoted_line:
  "command_text (''echo'' @ '' '' @ [DQUOTE] @ ''a b'' @ [DQUOTE, BACKSLASH, CHR '' '', CHR ''c''] @ '' # d'')
     [''echo'', ''a b c'']"
proof -
  have "quoting ''echo'' ''echo''"
    by (intro quoting.plain quoting.nothing) (simp_all add: is_space_def isshellspecial_def)
  moreover have "quoting ([DQUOTE] @ ''a b'' @ [DQUOTE, BACKSLASH, CHR '' '', CHR ''c'']) ''a b c''"
    using quoting.quoted [OF quoting.escaped [OF quoting.plain [OF quoting.nothing, of "CHR ''c''"], of "CHR '' ''"],
        of DQUOTE "''a b''"]
    by (simp add: is_space_def isshellspecial_def)
  moreover have "command_text '' # d'' []"
    using command_text.comment [of "'' ''" "'' d''"] by (simp add: is_space_def)
  ultimately have "command_text ('' '' @ ([DQUOTE] @ ''a b'' @ [DQUOTE, BACKSLASH, CHR '' '', CHR ''c'']) @ '' # d'')
      [''a b c'']"
    by (intro command_text.word) (simp_all add: word_ends_def is_space_def)
  from command_text.word [OF _ \<open>quoting ''echo'' ''echo''\<close> _ this, of "[]"] show ?thesis
    by (simp add: word_ends_def is_space_def)
qed

theorem run_line_reads_words_witness:
  "\<exists>t. length t = 17 \<and>
     bind_ro (Some (command_line_parser (t @ [NUL]))) (run_line (t @ [NUL])) = Some (Inr [''echo'', ''a b c''])"
  using run_line_reads_words [OF quoted_line]
  by (intro exI [of _ "''echo'' @ '' '' @ [DQUOTE] @ ''a b'' @ [DQUOTE, BACKSLASH, CHR '' '', CHR ''c''] @ '' # d''"])
    (simp add: is_line_def)

text \<open>\<open>C19\<close>: splitting any line into tokens ends, reads nothing past its end, and leaves nothing
  out: the tokens follow each other in order, none is empty, and between them are only spaces,
  with at most one comment at the end.\<close>

theorem tokens_cover_line:
  assumes "is_line t"
  shows "\<exists>toks. line_tokens (t @ [NUL]) = Some (Inr toks) \<and> laid_out (t @ [NUL]) (length t) 0 toks"
  by (rule line_tokens_ok [OF assms])

theorem tokens_cover_line_witness:
  "\<exists>toks. line_tokens (''a&& b'' @ [NUL]) = Some (Inr toks) \<and> laid_out (''a&& b'' @ [NUL]) (length ''a&& b'') 0 toks"
  using tokens_cover_line [of "''a&& b''"] by (simp add: is_line_def)



text \<open>\<open>shell_tokenizer::str\<close> runs past the end of a region that ends with a backslash
  after a quoted part, as the parsers cut it from the line \<open>"a"\ ; b\<close>, where the trimmed space is
  escaped.\<close>

theorem token_str_overruns:
  "bind_ro (Some (command_line_parser ([DQUOTE, CHR ''a'', DQUOTE, BACKSLASH] @ '' ; b'' @ [NUL]))) (\<lambda>par.
   bind_ro (conditional_begin ([DQUOTE, CHR ''a'', DQUOTE, BACKSLASH] @ '' ; b'' @ [NUL]) par) (\<lambda>par.
   bind_ro (Some (token_begin ([DQUOTE, CHR ''a'', DQUOTE, BACKSLASH] @ '' ; b'' @ [NUL]) par))
     (token_str ([DQUOTE, CHR ''a'', DQUOTE, BACKSLASH] @ '' ; b'' @ [NUL])))) = Some past_end"
  by code_simp

end
