(* ===== verification/Io61.thy ===== *)
theory Io61
  imports Prelude "HOL-Library.Multiset"
begin

text \<open>
  Input and output of \<open>pset5\<close>: \<open>slow-io61.cc\<close> (and the handout \<open>io61.cc\<close>, which is the same),
  \<open>syscall-io61.cc\<close>, the bytewise functions of \<open>helpers.cc\<close>, and the programs \<open>cat61\<close>,
  \<open>blockcat61\<close>, \<open>reverse61\<close> and \<open>stridecat61\<close>. The system calls are a parameter; a locale states what
  the programs rely on in \<open>io61_read\<close> and \<open>io61_write\<close>.
\<close>

section \<open>Definitions\<close>

subsection \<open>System calls\<close>

text \<open>A failed call gives the value of \<open>errno\<close>; \<open>os_fstat\<close> gives the size of a regular file.\<close>

record 'w os =
  os_read :: "int \<Rightarrow> nat \<Rightarrow> 'w \<Rightarrow> (int + byte list) \<times> 'w"
  os_write :: "int \<Rightarrow> byte list \<Rightarrow> 'w \<Rightarrow> (int + nat) \<times> 'w"
  os_lseek :: "int \<Rightarrow> int \<Rightarrow> 'w \<Rightarrow> (int + int) \<times> 'w"
  os_close :: "int \<Rightarrow> 'w \<Rightarrow> int \<times> 'w"
  os_fstat :: "int \<Rightarrow> 'w \<Rightarrow> int option"
  os_open :: "string \<Rightarrow> u32 \<Rightarrow> 'w \<Rightarrow> (int + int) \<times> 'w"

record 'w io_state =
  errno :: int
  world :: 'w

definition sys_read :: "'w os \<Rightarrow> int \<Rightarrow> nat \<Rightarrow> 'w io_state \<Rightarrow> int \<times> byte list \<times> 'w io_state" where
  "sys_read os fd n st =
     (case os_read os fd n (world st) of
        (Inl e, w) \<Rightarrow> (- 1, [], st\<lparr>errno := e, world := w\<rparr>)
      | (Inr bs, w) \<Rightarrow> (int (length bs), bs, st\<lparr>world := w\<rparr>))"

definition sys_write :: "'w os \<Rightarrow> int \<Rightarrow> byte list \<Rightarrow> 'w io_state \<Rightarrow> int \<times> 'w io_state" where
  "sys_write os fd bs st =
     (case os_write os fd bs (world st) of
        (Inl e, w) \<Rightarrow> (- 1, st\<lparr>errno := e, world := w\<rparr>)
      | (Inr n, w) \<Rightarrow> (int n, st\<lparr>world := w\<rparr>))"

definition sys_lseek :: "'w os \<Rightarrow> int \<Rightarrow> int \<Rightarrow> 'w io_state \<Rightarrow> int \<times> 'w io_state" where
  "sys_lseek os fd off st =
     (case os_lseek os fd off (world st) of
        (Inl e, w) \<Rightarrow> (- 1, st\<lparr>errno := e, world := w\<rparr>)
      | (Inr r, w) \<Rightarrow> (r, st\<lparr>world := w\<rparr>))"

subsection \<open>Files\<close>

abbreviation "O_RDONLY \<equiv> 0 :: u32"
abbreviation "O_WRONLY \<equiv> 1 :: u32"
abbreviation "O_ACCMODE \<equiv> 3 :: u32"

record io61_file =
  fd :: int
  mode :: u32

definition io61_fdopen :: "int \<Rightarrow> u32 \<Rightarrow> io61_file result" where
  "io61_fdopen n m = bind_result (assert_that (0 \<le> n) ''fd >= 0'') (\<lambda>_. Inr \<lparr>fd = n, mode = m\<rparr>)"

definition io61_flush :: "io61_file \<Rightarrow> int" where
  "io61_flush f = 0"

definition io61_close :: "'w os \<Rightarrow> io61_file \<Rightarrow> 'w io_state \<Rightarrow> int \<times> 'w io_state" where
  "io61_close os f st = (let (r, w) = os_close os (fd f) (world st) in (r, st\<lparr>world := w\<rparr>))"

definition io61_open_check :: "'w os \<Rightarrow> string option \<Rightarrow> u32 \<Rightarrow> 'w io_state \<Rightarrow> (io61_file \<times> 'w io_state) result" where
  "io61_open_check os filename m st =
     (let (n, st) =
        (case filename of
           Some name \<Rightarrow> (case os_open os name m (world st) of
               (Inl e, w) \<Rightarrow> (- 1, st\<lparr>errno := e, world := w\<rparr>)
             | (Inr n, w) \<Rightarrow> (n, st\<lparr>world := w\<rparr>))
         | None \<Rightarrow> (if m AND O_ACCMODE = O_RDONLY then 0 else 1, st))
      in if n < 0 then Inl (Panic ''exit(1)'')
         else bind_result (io61_fdopen n (m AND O_ACCMODE)) (\<lambda>f. Inr (f, st)))"

definition io61_filesize :: "'w os \<Rightarrow> io61_file \<Rightarrow> 'w io_state \<Rightarrow> int" where
  "io61_filesize os f st = (case os_fstat os (fd f) (world st) of None \<Rightarrow> - 1 | Some n \<Rightarrow> n)"

definition io61_seek :: "'w os \<Rightarrow> io61_file \<Rightarrow> int \<Rightarrow> 'w io_state \<Rightarrow> int \<times> 'w io_state" where
  "io61_seek os f off st =
     (let (r, st) = sys_lseek os (fd f) off st in (if r = - 1 then - 1 else 0, st))"

subsection \<open>Reading and writing\<close>

definition io61_readc :: "'w os \<Rightarrow> io61_file \<Rightarrow> 'w io_state \<Rightarrow> (int \<times> 'w io_state) result" where
  "io61_readc os f st =
     (let (nr, bs, st) = sys_read os (fd f) 1 st in
      if nr \<noteq> 1
      then bind_result (assert_that (nr = 0 \<or> nr = - 1) ''nr == 0 || nr == -1'') (\<lambda>_.
           Inr (- 1, if nr = 0 then st\<lparr>errno := 0\<rparr> else st))
      else Inr (uint (hd bs), st))"

definition io61_writec :: "'w os \<Rightarrow> io61_file \<Rightarrow> int \<Rightarrow> 'w io_state \<Rightarrow> (int \<times> 'w io_state) result" where
  "io61_writec os f c st =
     (let (nw, st) = sys_write os (fd f) [of_int c] st in
      if nw \<noteq> 1
      then bind_result (assert_that (nw = 0 \<or> nw = - 1) ''nw == 0 || nw == -1'') (\<lambda>_. Inr (- 1, st))
      else Inr (0, st))"

text \<open>The loops of \<open>io61_read\<close> and \<open>io61_write\<close>: \<open>n\<close> more bytes, those read so far in \<open>buf\<close>.\<close>

fun read_loop :: "'w os \<Rightarrow> io61_file \<Rightarrow> nat \<Rightarrow> byte list \<Rightarrow> 'w io_state \<Rightarrow> (byte list \<times> 'w io_state) result" where
  "read_loop os f 0 buf st = Inr (buf, st)"
| "read_loop os f (Suc n) buf st =
     bind_result (io61_readc os f st) (\<lambda>(ch, st).
     if ch = - 1 then Inr (buf, st) else read_loop os f n (buf @ [of_int ch]) st)"

fun write_loop :: "'w os \<Rightarrow> io61_file \<Rightarrow> byte list \<Rightarrow> nat \<Rightarrow> 'w io_state \<Rightarrow> (nat \<times> 'w io_state) result" where
  "write_loop os f [] nwritten st = Inr (nwritten, st)"
| "write_loop os f (b # bs) nwritten st =
     bind_result (io61_writec os f (uint b) st) (\<lambda>(r, st).
     if r = - 1 then Inr (nwritten, st) else write_loop os f bs (nwritten + 1) st)"

text \<open>\<open>slow-io61.cc\<close>. The result is the value returned and the bytes now in the buffer.\<close>

definition slow_read :: "'w os \<Rightarrow> io61_file \<Rightarrow> nat \<Rightarrow> 'w io_state \<Rightarrow> (int \<times> byte list \<times> 'w io_state) result" where
  "slow_read os f sz st =
     bind_result (read_loop os f sz [] st) (\<lambda>(buf, st).
     Inr (if length buf = 0 \<and> sz \<noteq> 0 \<and> errno st \<noteq> 0 then - 1 else int (length buf), buf, st))"

definition slow_write :: "'w os \<Rightarrow> io61_file \<Rightarrow> byte list \<Rightarrow> 'w io_state \<Rightarrow> (int \<times> 'w io_state) result" where
  "slow_write os f buf st =
     bind_result (write_loop os f buf 0 st) (\<lambda>(nwritten, st).
     Inr (if nwritten = 0 \<and> length buf \<noteq> 0 then - 1 else int nwritten, st))"

text \<open>\<open>syscall-io61.cc\<close>: one system call each.\<close>

definition syscall_read :: "'w os \<Rightarrow> io61_file \<Rightarrow> nat \<Rightarrow> 'w io_state \<Rightarrow> (int \<times> byte list \<times> 'w io_state) result" where
  "syscall_read os f sz st = Inr (sys_read os (fd f) sz st)"

definition syscall_write :: "'w os \<Rightarrow> io61_file \<Rightarrow> byte list \<Rightarrow> 'w io_state \<Rightarrow> (int \<times> 'w io_state) result" where
  "syscall_write os f buf st = Inr (sys_write os (fd f) buf st)"

text \<open>The options \<open>-R\<close> and \<open>-W\<close> of the programs.\<close>

fun read_bytes :: "'w os \<Rightarrow> io61_file \<Rightarrow> nat \<Rightarrow> byte list \<Rightarrow> 'w io_state \<Rightarrow> (byte list \<times> 'w io_state) result" where
  "read_bytes os f 0 buf st = Inr (buf, st)"
| "read_bytes os f (Suc n) buf st =
     bind_result (io61_readc os f st) (\<lambda>(ch, st).
     if ch < 0 then Inr (buf, st) else read_bytes os f n (buf @ [of_int ch]) st)"

fun write_bytes :: "'w os \<Rightarrow> io61_file \<Rightarrow> byte list \<Rightarrow> nat \<Rightarrow> 'w io_state \<Rightarrow> (nat \<times> 'w io_state) result" where
  "write_bytes os f [] nw st = Inr (nw, st)"
| "write_bytes os f (b # bs) nw st =
     bind_result (io61_writec os f (uint b) st) (\<lambda>(r, st).
     if r < 0 then Inr (nw, st) else write_bytes os f bs (nw + 1) st)"

definition io61_read_bytewise :: "'w os \<Rightarrow> io61_file \<Rightarrow> nat \<Rightarrow> 'w io_state \<Rightarrow> (int \<times> byte list \<times> 'w io_state) result" where
  "io61_read_bytewise os f sz st =
     bind_result (read_bytes os f sz [] st) (\<lambda>(buf, st). Inr (int (length buf), buf, st))"

definition io61_write_bytewise :: "'w os \<Rightarrow> io61_file \<Rightarrow> byte list \<Rightarrow> 'w io_state \<Rightarrow> (int \<times> 'w io_state) result" where
  "io61_write_bytewise os f buf st =
     bind_result (write_bytes os f buf 0 st) (\<lambda>(nw, st). Inr (int nw, st))"

subsection \<open>Programs\<close>

type_synonym 'w reader = "'w os \<Rightarrow> io61_file \<Rightarrow> nat \<Rightarrow> 'w io_state \<Rightarrow> (int \<times> byte list \<times> 'w io_state) result"
type_synonym 'w writer = "'w os \<Rightarrow> io61_file \<Rightarrow> byte list \<Rightarrow> 'w io_state \<Rightarrow> (int \<times> 'w io_state) result"

text \<open>\<open>io61_args::after_write\<close>; the delay of option \<open>-y\<close> changes nothing the programs see.\<close>

definition after_write :: "bool \<Rightarrow> io61_file \<Rightarrow> 'w io_state \<Rightarrow> 'w io_state result" where
  "after_write flush f st =
     (if flush then bind_result (assert_that (io61_flush f = 0) ''r == 0'') (\<lambda>_. Inr st) else Inr st)"

definition close_files :: "'w os \<Rightarrow> io61_file \<Rightarrow> io61_file \<Rightarrow> 'w io_state \<Rightarrow> 'w io_state" where
  "close_files os inpf outf st = snd (io61_close os outf (snd (io61_close os inpf st)))"

fun cat_loop :: "'w os \<Rightarrow> bool \<Rightarrow> io61_file \<Rightarrow> io61_file \<Rightarrow> nat \<Rightarrow> 'w io_state \<Rightarrow> 'w io_state result" where
  "cat_loop os flush inpf outf 0 st = Inr st"
| "cat_loop os flush inpf outf (Suc file_size) st =
     bind_result (io61_readc os inpf st) (\<lambda>(ch, st).
     if ch = - 1 then Inr st
     else bind_result (io61_writec os outf ch st) (\<lambda>(r, st).
          bind_result (assert_that (r = 0) ''r == 0'') (\<lambda>_.
          bind_result (after_write flush outf st) (cat_loop os flush inpf outf file_size))))"

definition cat61 :: "'w os \<Rightarrow> bool \<Rightarrow> u64 \<Rightarrow> io61_file \<Rightarrow> io61_file \<Rightarrow> 'w io_state \<Rightarrow> 'w io_state result" where
  "cat61 os flush file_size inpf outf st =
     bind_result (cat_loop os flush inpf outf (unat file_size) st) (\<lambda>st. Inr (close_files os inpf outf st))"

partial_function (option) blockcat_loop ::
  "'w reader \<Rightarrow> 'w writer \<Rightarrow> 'w os \<Rightarrow> bool \<Rightarrow> nat \<Rightarrow> io61_file \<Rightarrow> io61_file \<Rightarrow> 'w io_state \<Rightarrow> 'w io_state result option" where
  "blockcat_loop rd wr os flush block_size inpf outf st =
     bind_ro (Some (rd os inpf block_size st)) (\<lambda>(nr, buf, st).
     if nr \<le> 0 then Some (Inr st)
     else bind_ro (Some (wr os outf (take (nat nr) buf) st)) (\<lambda>(nw, st).
          bind_ro (Some (assert_that (nw = nr) ''nw == nr'')) (\<lambda>_.
          bind_ro (Some (after_write flush outf st)) (\<lambda>st.
          blockcat_loop rd wr os flush block_size inpf outf st))))"

definition blockcat61 ::
  "'w reader \<Rightarrow> 'w writer \<Rightarrow> 'w os \<Rightarrow> bool \<Rightarrow> nat \<Rightarrow> io61_file \<Rightarrow> io61_file \<Rightarrow> 'w io_state \<Rightarrow> 'w io_state result option" where
  "blockcat61 rd wr os flush block_size inpf outf st =
     bind_ro (blockcat_loop rd wr os flush block_size inpf outf st) (\<lambda>st. Some (Inr (close_files os inpf outf st)))"

fun reverse_loop :: "'w os \<Rightarrow> bool \<Rightarrow> bool \<Rightarrow> io61_file \<Rightarrow> io61_file \<Rightarrow> nat \<Rightarrow> 'w io_state \<Rightarrow> 'w io_state result" where
  "reverse_loop os flush quiet inpf outf 0 st = Inr st"
| "reverse_loop os flush quiet inpf outf (Suc file_size) st =
     (let (r, st) = io61_seek os inpf (int file_size) st in
      bind_result (assert_that (r = 0 \<or> quiet) ''r == 0 || args.quiet'') (\<lambda>_.
      bind_result (io61_readc os inpf st) (\<lambda>(ch, st).
      bind_result (assert_that (0 \<le> ch) ''ch >= 0'') (\<lambda>_.
      bind_result (io61_writec os outf ch st) (\<lambda>(r, st).
      bind_result (assert_that (r = 0) ''r == 0'') (\<lambda>_.
      bind_result (after_write flush outf st) (reverse_loop os flush quiet inpf outf file_size)))))))"

text \<open>The part of \<open>reverse61\<close> after the input file is open.\<close>

definition reverse61 ::
  "'w os \<Rightarrow> bool \<Rightarrow> bool \<Rightarrow> u64 \<Rightarrow> io61_file \<Rightarrow> io61_file \<Rightarrow> 'w io_state \<Rightarrow> 'w io_state result" where
  "reverse61 os flush quiet file_size inpf outf st =
     (let (r, st) = io61_seek os inpf 0 st in
      if r < 0 then Inl (Panic ''exit(1)'')
      else let file_size = (if sint file_size < 0 then of_int (io61_filesize os inpf st) else file_size) in
        if sint file_size < 0 then Inl (Panic ''exit(1)'')
        else bind_result (reverse_loop os flush quiet inpf outf (unat file_size) st) (\<lambda>st.
             Inr (close_files os inpf outf st)))"

partial_function (option) stride_loop ::
  "'w reader \<Rightarrow> 'w writer \<Rightarrow> 'w os \<Rightarrow> u64 \<Rightarrow> u64 \<Rightarrow> u64 \<Rightarrow> io61_file \<Rightarrow> io61_file \<Rightarrow> u64 \<Rightarrow> u64 \<Rightarrow> 'w io_state
    \<Rightarrow> 'w io_state result option" where
  "stride_loop rd wr os blksize stride file_size inpf outf pos written st =
     (if \<not> written < file_size then Some (Inr st)
      else let (r, st) = io61_seek os inpf (sint pos) st in
        bind_ro (Some (assert_that (0 \<le> r) ''r >= 0'')) (\<lambda>_.
        let block_size = (if file_size < pos + blksize then file_size - pos else blksize) in
        bind_ro (Some (rd os inpf (unat block_size) st)) (\<lambda>(nr, buf, st).
        if nr \<le> 0 then Some (Inr st)
        else bind_ro (Some (wr os outf (take (nat nr) buf) st)) (\<lambda>(nw, st).
          bind_ro (Some (assert_that (nw = nr) ''nw == nr'')) (\<lambda>_.
          let written = written + of_int nw in
          bind_ro (Some (after_write False outf st)) (\<lambda>st.
          let pos = pos + stride in
          stride_loop rd wr os blksize stride file_size inpf outf
            (if file_size \<le> pos then (pos mod stride) + blksize else pos) written st))))))"

definition stridecat61 ::
  "'w reader \<Rightarrow> 'w writer \<Rightarrow> 'w os \<Rightarrow> u64 \<Rightarrow> u64 \<Rightarrow> u64 \<Rightarrow> u64 \<Rightarrow> io61_file \<Rightarrow> io61_file \<Rightarrow> 'w io_state
    \<Rightarrow> 'w io_state result option" where
  "stridecat61 rd wr os blksize stride initial_offset file_size inpf outf st =
     (let (r, st) = io61_seek os inpf 0 st in
      if r < 0 then Some (Inl (Panic ''exit(1)''))
      else let file_size = (if sint file_size < 0 then of_int (io61_filesize os inpf st) else file_size) in
        if sint file_size < 0 then Some (Inl (Panic ''exit(1)''))
        else bind_ro (stride_loop rd wr os blksize stride file_size inpf outf initial_offset 0 st) (\<lambda>st.
             Some (Inr (close_files os inpf outf st))))"

declare blockcat_loop.simps [code] stride_loop.simps [code]

section \<open>What the programs rely on\<close>

text \<open>An input with the bytes \<open>in_data\<close>, read up to \<open>in_pos\<close>, and the bytes written to an output.\<close>

record view =
  in_data :: "byte list"
  in_pos :: nat
  out_data :: "byte list"

abbreviation unread :: "view \<Rightarrow> byte list" where
  "unread w \<equiv> drop (in_pos w) (in_data w)"

text \<open>
  The behaviour of \<open>read\<close> and \<open>write\<close> on files, pipes and terminals without errors: a read gives
  some of the next bytes, none only at the end; a write takes some of the bytes.
\<close>

definition stream_os :: "'w os \<Rightarrow> io61_file \<Rightarrow> io61_file \<Rightarrow> ('w \<Rightarrow> view) \<Rightarrow> bool" where
  "stream_os os inpf outf v \<longleftrightarrow>
     (\<forall>n w. \<exists>bs w'. os_read os (fd inpf) n w = (Inr bs, w') \<and> length bs \<le> n \<and> bs = take (length bs) (unread (v w))
        \<and> (bs = [] \<longrightarrow> n = 0 \<or> unread (v w) = []) \<and> v w' = (v w)\<lparr>in_pos := in_pos (v w) + length bs\<rparr>)
     \<and> (\<forall>bs w. \<exists>k w'. os_write os (fd outf) bs w = (Inr k, w') \<and> k \<le> length bs \<and> (bs \<noteq> [] \<longrightarrow> 0 < k)
        \<and> v w' = (v w)\<lparr>out_data := out_data (v w) @ take k bs\<rparr>)"

text \<open>A regular output file takes all the bytes of a write.\<close>

definition full_writes :: "'w os \<Rightarrow> io61_file \<Rightarrow> bool" where
  "full_writes os outf \<longleftrightarrow> (\<forall>bs w. fst (os_write os (fd outf) bs w) = Inr (length bs))"

text \<open>A regular input file has a size, and a position that can be set.\<close>

definition seekable :: "'w os \<Rightarrow> io61_file \<Rightarrow> ('w \<Rightarrow> view) \<Rightarrow> bool" where
  "seekable os inpf v \<longleftrightarrow>
     (\<forall>off w. 0 \<le> off \<longrightarrow> (\<exists>w'. os_lseek os (fd inpf) off w = (Inr off, w') \<and> v w' = (v w)\<lparr>in_pos := nat off\<rparr>))
     \<and> (\<forall>w. os_fstat os (fd inpf) w = Some (int (length (in_data (v w)))))"

lemma stream_read:
  assumes "stream_os os inpf outf v"
  obtains bs w' where "os_read os (fd inpf) n w = (Inr bs, w')" "length bs \<le> n" "bs = take (length bs) (unread (v w))"
    "bs = [] \<longrightarrow> n = 0 \<or> unread (v w) = []" "v w' = (v w)\<lparr>in_pos := in_pos (v w) + length bs\<rparr>"
  using assms unfolding stream_os_def by meson

lemma stream_write:
  assumes "stream_os os inpf outf v"
  obtains k w' where "os_write os (fd outf) bs w = (Inr k, w')" "k \<le> length bs" "bs \<noteq> [] \<longrightarrow> 0 < k"
    "v w' = (v w)\<lparr>out_data := out_data (v w) @ take k bs\<rparr>"
  using assms unfolding stream_os_def by meson

text \<open>The interface of \<open>io61_read\<close> and \<open>io61_write\<close> to the programs.\<close>

locale io_library =
  fixes rd :: "'w reader" and wr :: "'w writer"
    and contract :: "'w os \<Rightarrow> io61_file \<Rightarrow> io61_file \<Rightarrow> ('w \<Rightarrow> view) \<Rightarrow> bool"
  assumes rd: "contract os inpf outf v \<Longrightarrow> \<exists>bs st'. rd os inpf n st = Inr (int (length bs), bs, st')
      \<and> length bs \<le> n \<and> bs = take (length bs) (unread (v (world st)))
      \<and> (bs = [] \<longrightarrow> n = 0 \<or> unread (v (world st)) = [])
      \<and> v (world st') = (v (world st))\<lparr>in_pos := in_pos (v (world st)) + length bs\<rparr>"
    and wr: "contract os inpf outf v \<Longrightarrow> \<exists>st'. wr os outf bs st = Inr (int (length bs), st')
      \<and> v (world st') = (v (world st))\<lparr>out_data := out_data (v (world st)) @ bs\<rparr>"
begin

lemma blockcat_loop_copies:
  assumes "contract os inpf outf v" "0 < bs"
  shows "\<exists>st'. blockcat_loop rd wr os flush bs inpf outf st = Some (Inr st')
    \<and> v (world st') = (v (world st))\<lparr>in_pos := in_pos (v (world st)) + length (unread (v (world st))),
        out_data := out_data (v (world st)) @ unread (v (world st))\<rparr>"
proof (induction "length (unread (v (world st)))" arbitrary: st rule: less_induct)
  case less
  let ?w = "v (world st)"
  obtain buf st1 where r: "rd os inpf bs st = Inr (int (length buf), buf, st1)" "buf = take (length buf) (unread ?w)"
    "buf = [] \<longrightarrow> unread ?w = []" "v (world st1) = ?w\<lparr>in_pos := in_pos ?w + length buf\<rparr>"
    using rd [OF assms(1), of bs st] assms(2) by auto
  show ?case
  proof (cases "buf = []")
    case True
    then show ?thesis using r by (subst blockcat_loop.simps) (cases ?w; simp)
  next
    case False
    obtain st2 where w: "wr os outf buf st1 = Inr (int (length buf), st2)"
      "v (world st2) = (v (world st1))\<lparr>out_data := out_data (v (world st1)) @ buf\<rparr>"
      using wr [OF assms(1), of buf st1] by blast
    have step: "blockcat_loop rd wr os flush bs inpf outf st = blockcat_loop rd wr os flush bs inpf outf st2"
      using r(1) w(1) False by (subst blockcat_loop.simps) (simp add: after_write_def io61_flush_def)
    have rest: "unread (v (world st2)) = drop (length buf) (unread ?w)"
      using r(4) w(2) by (simp add: add.commute)
    have split: "unread ?w = buf @ unread (v (world st2))"
      unfolding rest using r(2) by (metis append_take_drop_id)
    then have "length (unread (v (world st2))) < length (unread ?w)" using False by simp
    from less.hyps [OF this] obtain st3 where "blockcat_loop rd wr os flush bs inpf outf st2 = Some (Inr st3)"
      "v (world st3) = (v (world st2))\<lparr>in_pos := in_pos (v (world st2)) + length (unread (v (world st2))),
        out_data := out_data (v (world st2)) @ unread (v (world st2))\<rparr>" by blast
    then show ?thesis using step r(4) w(2) arg_cong [OF split, of length] unfolding split by (simp add: add.assoc)
  qed
qed

end

section \<open>The library of \<open>slow-io61.cc\<close>\<close>

lemma readc_ok:
  assumes "stream_os os inpf outf v"
  shows "\<exists>st'. io61_readc os inpf st = Inr (case unread (v (world st)) of [] \<Rightarrow> - 1 | b # _ \<Rightarrow> uint b, st')
    \<and> v (world st') = (v (world st))\<lparr>in_pos := in_pos (v (world st)) + length (take 1 (unread (v (world st))))\<rparr>
    \<and> (unread (v (world st)) = [] \<longrightarrow> errno st' = 0)"
proof -
  let ?w = "v (world st)"
  obtain bs w' where r: "os_read os (fd inpf) 1 (world st) = (Inr bs, w')" "length bs \<le> 1" "bs = take (length bs) (unread ?w)"
    "bs = [] \<longrightarrow> unread ?w = []" "v w' = ?w\<lparr>in_pos := in_pos ?w + length bs\<rparr>"
    using stream_read [OF assms, of 1 "world st"] by (metis One_nat_def nat.distinct(1))
  show ?thesis
  proof (cases "unread ?w")
    case Nil
    then have "bs = []" using r(3) by simp
    then show ?thesis using Nil r(1,5) by (simp add: io61_readc_def sys_read_def)
  next
    case (Cons b rest)
    then have "length bs = 1" using r(2,4) by (cases bs) auto
    then have "bs = [b]" using r(3) Cons by (cases bs) auto
    then show ?thesis using Cons r(1,5) by (simp add: io61_readc_def sys_read_def)
  qed
qed

lemma writec_ok:
  assumes "stream_os os inpf outf v"
  shows "\<exists>st'. io61_writec os outf c st = Inr (0, st')
    \<and> v (world st') = (v (world st))\<lparr>out_data := out_data (v (world st)) @ [of_int c]\<rparr>"
proof -
  obtain k w' where "os_write os (fd outf) [of_int c] (world st) = (Inr k, w')" "k = 1"
    "v w' = (v (world st))\<lparr>out_data := out_data (v (world st)) @ take k [of_int c]\<rparr>"
    by (rule stream_write [OF assms, of "[of_int c]" "world st"]) force
  then show ?thesis by (simp add: io61_writec_def sys_write_def)
qed

text \<open>The state after reading \<open>n\<close> bytes.\<close>

abbreviation advance :: "nat \<Rightarrow> view \<Rightarrow> view" where
  "advance n w \<equiv> w\<lparr>in_pos := in_pos w + n\<rparr>"

lemma uint_char [simp]: "uint (b :: byte) = - 1 \<longleftrightarrow> False" "uint b < 0 \<longleftrightarrow> False"
proof -
  have "uint b \<noteq> - 1" "\<not> uint b < 0" using uint_ge_0 [of b] by (linarith, linarith)
  then show "uint b = - 1 \<longleftrightarrow> False" "uint b < 0 \<longleftrightarrow> False" by blast+
qed

lemma read_loops_ok:
  assumes "stream_os os inpf outf v"
  shows "\<exists>st'. read_loop os inpf n buf st = Inr (buf @ take n (unread (v (world st))), st')
      \<and> v (world st') = advance (length (take n (unread (v (world st))))) (v (world st))
      \<and> (length (unread (v (world st))) < n \<longrightarrow> errno st' = 0)" (is "?slow n buf st")
    and "\<exists>st'. read_bytes os inpf n buf st = Inr (buf @ take n (unread (v (world st))), st')
      \<and> v (world st') = advance (length (take n (unread (v (world st))))) (v (world st))" (is "?bytes n buf st")
proof -
  have "?slow n buf st \<and> ?bytes n buf st"
  proof (induction n arbitrary: buf st)
    case (Suc n)
    let ?w = "v (world st)"
    obtain st1 where c: "io61_readc os inpf st = Inr (case unread ?w of [] \<Rightarrow> - 1 | b # _ \<Rightarrow> uint b, st1)"
      "v (world st1) = ?w\<lparr>in_pos := in_pos ?w + length (take 1 (unread ?w))\<rparr>" "unread ?w = [] \<longrightarrow> errno st1 = 0"
      using readc_ok [OF assms] by blast
    show ?case
    proof (cases "unread ?w")
      case Nil
      then show ?thesis using c by simp
    next
      case (Cons b rest)
      have v1: "v (world st1) = ?w\<lparr>in_pos := in_pos ?w + 1\<rparr>" "unread (v (world st1)) = rest"
        using c(2) Cons by (simp_all add: drop_Suc tl_drop [symmetric])
      show ?thesis using Suc.IH [of "buf @ [b]" st1] c(1) Cons v1 by auto
    qed
  qed simp
  then show "?slow n buf st" "?bytes n buf st" by simp_all
qed

lemma write_loops_ok:
  assumes "stream_os os inpf outf v"
  shows "\<exists>st'. write_loop os outf bs n st = Inr (n + length bs, st')
      \<and> v (world st') = (v (world st))\<lparr>out_data := out_data (v (world st)) @ bs\<rparr>" (is "?slow bs n st")
    and "\<exists>st'. write_bytes os outf bs n st = Inr (n + length bs, st')
      \<and> v (world st') = (v (world st))\<lparr>out_data := out_data (v (world st)) @ bs\<rparr>" (is "?bytes bs n st")
proof -
  have "?slow bs n st \<and> ?bytes bs n st"
  proof (induction bs arbitrary: n st)
    case (Cons b bs)
    obtain st1 where c: "io61_writec os outf (uint b) st = Inr (0, st1)"
      "v (world st1) = (v (world st))\<lparr>out_data := out_data (v (world st)) @ [b]\<rparr>"
      using writec_ok [OF assms, of "uint b" st] by auto
    then show ?case using Cons.IH [of "n + 1" st1] by auto
  qed simp
  then show "?slow bs n st" "?bytes bs n st" by simp_all
qed

lemma slow_read_ok:
  assumes "stream_os os inpf outf v"
  shows "\<exists>st'. slow_read os inpf n st = Inr (int (length (take n (unread (v (world st))))), take n (unread (v (world st))), st')
    \<and> v (world st') = advance (length (take n (unread (v (world st))))) (v (world st))"
proof -
  obtain st' where "read_loop os inpf n [] st = Inr (take n (unread (v (world st))), st')"
    "v (world st') = advance (length (take n (unread (v (world st))))) (v (world st))"
    "length (unread (v (world st))) < n \<longrightarrow> errno st' = 0"
    using read_loops_ok(1) [OF assms, of n "[]" st] by auto
  then show ?thesis by (cases n) (auto simp: slow_read_def)
qed

interpretation slow: io_library slow_read slow_write stream_os
proof
  fix os :: "'a os" and inpf outf v n and st :: "'a io_state" and bs
  assume os: "stream_os os inpf outf v"
  let ?bs = "take n (unread (v (world st)))"
  show "\<exists>bs st'. slow_read os inpf n st = Inr (int (length bs), bs, st') \<and> length bs \<le> n
      \<and> bs = take (length bs) (unread (v (world st))) \<and> (bs = [] \<longrightarrow> n = 0 \<or> unread (v (world st)) = [])
      \<and> v (world st') = advance (length bs) (v (world st))"
    using slow_read_ok [OF os, of n st] by (intro exI [of _ ?bs]) (auto simp: min_def)
  show "\<exists>st'. slow_write os outf bs st = Inr (int (length bs), st')
      \<and> v (world st') = (v (world st))\<lparr>out_data := out_data (v (world st)) @ bs\<rparr>"
    using write_loops_ok(1) [OF os, of bs 0 st] by (auto simp: slow_write_def)
qed

interpretation bytewise: io_library io61_read_bytewise io61_write_bytewise stream_os
proof
  fix os :: "'a os" and inpf outf v n and st :: "'a io_state" and bs
  assume os: "stream_os os inpf outf v"
  let ?bs = "take n (unread (v (world st)))"
  show "\<exists>bs st'. io61_read_bytewise os inpf n st = Inr (int (length bs), bs, st') \<and> length bs \<le> n
      \<and> bs = take (length bs) (unread (v (world st))) \<and> (bs = [] \<longrightarrow> n = 0 \<or> unread (v (world st)) = [])
      \<and> v (world st') = advance (length bs) (v (world st))"
    using read_loops_ok(2) [OF os, of n "[]" st]
    by (intro exI [of _ ?bs]) (auto simp: io61_read_bytewise_def min_def)
  show "\<exists>st'. io61_write_bytewise os outf bs st = Inr (int (length bs), st')
      \<and> v (world st') = (v (world st))\<lparr>out_data := out_data (v (world st)) @ bs\<rparr>"
    using write_loops_ok(2) [OF os, of bs 0 st] by (auto simp: io61_write_bytewise_def)
qed

text \<open>One system call for each write is enough on an output that takes all the bytes.\<close>

definition full_stream_os :: "'w os \<Rightarrow> io61_file \<Rightarrow> io61_file \<Rightarrow> ('w \<Rightarrow> view) \<Rightarrow> bool" where
  "full_stream_os os inpf outf v \<longleftrightarrow> stream_os os inpf outf v \<and> full_writes os outf"

interpretation one_call: io_library syscall_read syscall_write full_stream_os
proof
  fix os :: "'a os" and inpf outf v n and st :: "'a io_state" and bs
  assume "full_stream_os os inpf outf v"
  then have os: "stream_os os inpf outf v" and full: "full_writes os outf" by (simp_all add: full_stream_os_def)
  show "\<exists>bs st'. syscall_read os inpf n st = Inr (int (length bs), bs, st') \<and> length bs \<le> n
      \<and> bs = take (length bs) (unread (v (world st))) \<and> (bs = [] \<longrightarrow> n = 0 \<or> unread (v (world st)) = [])
      \<and> v (world st') = advance (length bs) (v (world st))"
    by (rule stream_read [OF os, of n "world st"]) (auto simp: syscall_read_def sys_read_def)
  obtain k w' where w: "os_write os (fd outf) bs (world st) = (Inr k, w')"
    "v w' = (v (world st))\<lparr>out_data := out_data (v (world st)) @ take k bs\<rparr>"
    by (rule stream_write [OF os, of bs "world st"]) blast
  moreover have "k = length bs" using full w(1) unfolding full_writes_def by (metis fst_conv sum.inject(2))
  ultimately show "\<exists>st'. syscall_write os outf bs st = Inr (int (length bs), st')
      \<and> v (world st') = (v (world st))\<lparr>out_data := out_data (v (world st)) @ bs\<rparr>"
    by (simp add: syscall_write_def sys_write_def)
qed

section \<open>One character at a time\<close>

lemma cat_loop_ok:
  assumes "stream_os os inpf outf v"
  shows "\<exists>st'. cat_loop os flush inpf outf n st = Inr st'
    \<and> out_data (v (world st')) = out_data (v (world st)) @ take n (unread (v (world st)))"
proof (induction n arbitrary: st)
  case (Suc n)
  let ?w = "v (world st)"
  obtain st1 where c: "io61_readc os inpf st = Inr (case unread ?w of [] \<Rightarrow> - 1 | b # _ \<Rightarrow> uint b, st1)"
    "v (world st1) = ?w\<lparr>in_pos := in_pos ?w + length (take 1 (unread ?w))\<rparr>"
    using readc_ok [OF assms] by blast
  show ?case
  proof (cases "unread ?w")
    case Nil
    then show ?thesis using c by simp
  next
    case (Cons b rest)
    obtain st2 where w: "io61_writec os outf (uint b) st1 = Inr (0, st2)"
      "v (world st2) = (v (world st1))\<lparr>out_data := out_data (v (world st1)) @ [b]\<rparr>"
      using writec_ok [OF assms, of "uint b" st1] by auto
    have "unread (v (world st2)) = rest" "out_data (v (world st2)) = out_data ?w @ [b]"
      using c(2) w(2) Cons by (simp_all add: drop_Suc tl_drop [symmetric])
    then show ?thesis using Suc.IH [of st2] c(1) w(1) Cons by (auto simp: after_write_def io61_flush_def)
  qed
qed simp

lemma seek_ok:
  assumes "seekable os inpf v" "0 \<le> off"
  shows "\<exists>st'. io61_seek os inpf off st = (0, st') \<and> v (world st') = (v (world st))\<lparr>in_pos := nat off\<rparr>"
proof -
  obtain w' where "os_lseek os (fd inpf) off (world st) = (Inr off, w')" "v w' = (v (world st))\<lparr>in_pos := nat off\<rparr>"
    using assms unfolding seekable_def by blast
  then show ?thesis using assms(2) by (simp add: io61_seek_def sys_lseek_def)
qed

lemma reverse_loop_ok:
  assumes "stream_os os inpf outf v" "seekable os inpf v" "n \<le> length (in_data (v (world st)))"
  shows "\<exists>st'. reverse_loop os flush quiet inpf outf n st = Inr st'
    \<and> in_data (v (world st')) = in_data (v (world st))
    \<and> out_data (v (world st')) = out_data (v (world st)) @ rev (take n (in_data (v (world st))))"
  using assms(3)
proof (induction n arbitrary: st)
  case (Suc n)
  let ?w = "v (world st)"
  obtain st0 where s: "io61_seek os inpf (int n) st = (0, st0)" "v (world st0) = ?w\<lparr>in_pos := n\<rparr>"
    using seek_ok [OF assms(2), of "int n" st] by auto
  have here: "unread (v (world st0)) = in_data ?w ! n # drop (Suc n) (in_data ?w)"
    using s(2) Suc.prems by (simp add: Cons_nth_drop_Suc)
  obtain st1 where c: "io61_readc os inpf st0 = Inr (uint (in_data ?w ! n), st1)"
    "in_data (v (world st1)) = in_data ?w" "out_data (v (world st1)) = out_data ?w"
    using readc_ok [OF assms(1), of st0] here s(2) by auto
  obtain st2 where w: "io61_writec os outf (uint (in_data ?w ! n)) st1 = Inr (0, st2)"
    "v (world st2) = (v (world st1))\<lparr>out_data := out_data (v (world st1)) @ [in_data ?w ! n]\<rparr>"
    using writec_ok [OF assms(1), of "uint (in_data ?w ! n)" st1] by auto
  have st2: "in_data (v (world st2)) = in_data ?w" "out_data (v (world st2)) = out_data ?w @ [in_data ?w ! n]"
    using w(2) c(2,3) by simp_all
  have "reverse_loop os flush quiet inpf outf (Suc n) st = reverse_loop os flush quiet inpf outf n st2"
    using s(1) c(1) w(1) by (simp add: after_write_def io61_flush_def)
  moreover have "rev (take (Suc n) (in_data ?w)) = in_data ?w ! n # rev (take n (in_data ?w))"
    using Suc.prems by (simp add: take_Suc_conv_app_nth)
  ultimately show ?case using Suc.IH [of st2] Suc.prems st2 by auto
qed simp

section \<open>Strides\<close>

text \<open>The positions below \<open>n\<close> by their remainder modulo \<open>s\<close>, and those from \<open>p\<close> on.\<close>

definition stride_order :: "nat \<Rightarrow> nat \<Rightarrow> nat list" where
  "stride_order s n = concat (map (\<lambda>r. filter (\<lambda>i. i mod s = r) [0 ..< n]) [0 ..< s])"

definition stride_rest :: "nat \<Rightarrow> nat \<Rightarrow> nat \<Rightarrow> nat list" where
  "stride_rest s n p = filter (\<lambda>i. i mod s = p mod s \<and> p \<le> i) [0 ..< n]
     @ concat (map (\<lambda>r. filter (\<lambda>i. i mod s = r) [0 ..< n]) [Suc (p mod s) ..< s])"

lemma stride_rest_0: "0 < s \<Longrightarrow> stride_rest s n 0 = stride_order s n"
  by (simp add: stride_rest_def stride_order_def upt_conv_Cons)

lemma mset_stride_order:
  assumes "0 < s"
  shows "mset (stride_order s n) = mset [0 ..< n]"
proof -
  have "mset (concat (map (\<lambda>r. filter (\<lambda>i. i mod s = r) xs) [0 ..< m])) = filter_mset (\<lambda>i. i mod s < m) (mset xs)"
    for m and xs :: "nat list"
  proof (induction m)
    case (Suc m)
    have "filter_mset (\<lambda>i. i mod s < Suc m) (mset xs) =
        filter_mset (\<lambda>i. i mod s < m) (mset xs) + filter_mset (\<lambda>i. i mod s = m) (mset xs)"
      by (auto simp: less_Suc_eq multiset_eq_iff)
    then show ?case using Suc by simp
  qed simp
  moreover have "i mod s < s" for i using assms by simp
  ultimately show ?thesis by (simp add: stride_order_def)
qed

lemma same_remainder_above:
  assumes "0 < s"
  shows "i mod s = p mod s \<and> p < i \<longleftrightarrow> i mod s = p mod s \<and> p + s \<le> (i :: nat)"
proof
  assume *: "i mod s = p mod s \<and> p < i"
  then have "s dvd i - p" using mod_eq_dvd_iff_nat [of p i s] by simp
  then show "i mod s = p mod s \<and> p + s \<le> i" using * dvd_imp_le [of s "i - p"] by auto
qed (use assms in auto)

lemma filter_from:
  assumes "p < n" "0 < s"
  shows "filter (\<lambda>i. i mod s = p mod s \<and> p \<le> i) [0 ..< n] = p # filter (\<lambda>i. i mod s = p mod s \<and> p + s \<le> i) [0 ..< n]"
proof -
  have up: "[0 ..< n] = [0 ..< p] @ p # [Suc p ..< n]"
    using upt_add_eq_append [of 0 p "n - p"] upt_conv_Cons [of p n] assms(1) by simp
  have "filter (\<lambda>i. i mod s = p mod s \<and> p \<le> i) [Suc p ..< n] = filter (\<lambda>i. i mod s = p mod s \<and> p < i) [Suc p ..< n]"
    by (rule filter_cong) auto
  then have "filter (\<lambda>i. i mod s = p mod s \<and> p \<le> i) [Suc p ..< n] = filter (\<lambda>i. i mod s = p mod s \<and> p + s \<le> i) [Suc p ..< n]"
    by (simp only: same_remainder_above [OF assms(2)])
  moreover have "filter (\<lambda>i. i mod s = p mod s \<and> p \<le> i) [0 ..< p] = []"
    "filter (\<lambda>i. i mod s = p mod s \<and> p + s \<le> i) [0 ..< p] = []" by (auto simp: filter_empty_conv)
  ultimately show ?thesis using assms(2) by (simp add: up)
qed

lemma stride_rest_step:
  assumes "p < n" "0 < s"
  shows "stride_rest s n p = p # (if p + s < n then stride_rest s n (p + s)
    else if Suc (p mod s) < s \<and> Suc (p mod s) < n then stride_rest s n (Suc (p mod s)) else [])"
proof -
  let ?rows = "\<lambda>a. concat (map (\<lambda>r. filter (\<lambda>i. i mod s = r) [0 ..< n]) [a ..< s])"
  have eq: "stride_rest s n p = p # filter (\<lambda>i. i mod s = p mod s \<and> p + s \<le> i) [0 ..< n] @ ?rows (Suc (p mod s))"
    using filter_from [OF assms] by (simp add: stride_rest_def)
  consider "p + s < n" | "n \<le> p + s" "Suc (p mod s) < s" "Suc (p mod s) < n" | "n \<le> p + s" "s \<le> Suc (p mod s) \<or> n \<le> Suc (p mod s)"
    by linarith
  then show ?thesis
  proof cases
    case 1
    then show ?thesis using eq by (simp add: stride_rest_def)
  next
    case 2
    have "filter (\<lambda>i. i mod s = p mod s \<and> p + s \<le> i) [0 ..< n] = []" using 2(1) by (auto simp: filter_empty_conv)
    moreover have "filter (\<lambda>i. i mod s = Suc (p mod s)) [0 ..< n]
        = filter (\<lambda>i. i mod s = Suc (p mod s) \<and> Suc (p mod s) \<le> i) [0 ..< n]"
      by (rule filter_cong) (auto, metis mod_less_eq_dividend)
    ultimately show ?thesis using eq 2 by (simp add: stride_rest_def upt_conv_Cons [of "Suc (p mod s)"])
  next
    case 3
    have "filter (\<lambda>i. i mod s = p mod s \<and> p + s \<le> i) [0 ..< n] = []" using 3(1) by (auto simp: filter_empty_conv)
    moreover have "?rows (Suc (p mod s)) = []"
    proof (cases "s \<le> Suc (p mod s)")
      case False
      then have "n \<le> Suc (p mod s)" using 3(2) by simp
      then have "i mod s \<noteq> r" if "i < n" "Suc (p mod s) \<le> r" for i r
        using that mod_less_eq_dividend [of i s] by linarith
      then show ?thesis by (auto simp: filter_empty_conv)
    qed simp
    ultimately show ?thesis using eq 3 by auto
  qed
qed

context io_library begin

lemma stride_loop_ok:
  assumes "contract os inpf outf v" "seekable os inpf v" "0 < unat stride" "unat stride + unat file_size < 2 ^ 64"
    "unat file_size < 2 ^ 63" "unat file_size \<le> length (in_data (v (world st)))"
    "unat written + length rest = unat file_size"
    "rest = [] \<or> unat pos < unat file_size \<and> rest = stride_rest (unat stride) (unat file_size) (unat pos)"
  shows "\<exists>st'. stride_loop rd wr os 1 stride file_size inpf outf pos written st = Some (Inr st')
    \<and> out_data (v (world st')) = out_data (v (world st)) @ map (\<lambda>i. in_data (v (world st)) ! i) rest"
  using assms(6-)
proof (induction rest arbitrary: pos written st)
  case Nil
  then have "\<not> written < file_size" by (simp add: word_less_nat_alt)
  then show ?case by (subst stride_loop.simps) simp
next
  case (Cons i rest)
  let ?n = "unat file_size" and ?s = "unat stride" and ?p = "unat pos" and ?w = "v (world st)"
  have p: "?p < ?n" "i # rest = stride_rest ?s ?n ?p" using Cons.prems(3) by auto
  note step = stride_rest_step [OF p(1) assms(3)]
  have i: "i = ?p" "rest = (if ?p + ?s < ?n then stride_rest ?s ?n (?p + ?s)
      else if Suc (?p mod ?s) < ?s \<and> Suc (?p mod ?s) < ?n then stride_rest ?s ?n (Suc (?p mod ?s)) else [])"
    using p(2) step by auto
  have lt: "written < file_size" using Cons.prems(2) by (simp add: word_less_nat_alt)
  have sp: "sint pos = int ?p" using p(1) assms(5) by (intro sint_low) simp
  obtain st0 where s: "io61_seek os inpf (int ?p) st = (0, st0)" "v (world st0) = ?w\<lparr>in_pos := ?p\<rparr>"
    using seek_ok [OF assms(2), of "int ?p" st] by auto
  have here: "unread (v (world st0)) = in_data ?w ! ?p # drop (Suc ?p) (in_data ?w)"
    using s(2) p(1) Cons.prems(1) by (simp add: Cons_nth_drop_Suc)
  obtain bs st1 where r: "rd os inpf 1 st0 = Inr (int (length bs), bs, st1)" "length bs \<le> 1"
    "bs = take (length bs) (unread (v (world st0)))" "bs \<noteq> []" "in_data (v (world st1)) = in_data ?w"
    "out_data (v (world st1)) = out_data ?w"
    using rd [OF assms(1), of 1 st0] here s(2) by auto
  have "length bs = 1" using r(2,4) by (cases bs) auto
  then have bs: "bs = [in_data ?w ! ?p]" using r(3) here by simp
  obtain st2 where w: "wr os outf bs st1 = Inr (1, st2)"
    "v (world st2) = (v (world st1))\<lparr>out_data := out_data (v (world st1)) @ bs\<rparr>"
    using wr [OF assms(1), of bs st1] bs by auto
  have st2: "in_data (v (world st2)) = in_data ?w" "out_data (v (world st2)) = out_data ?w @ [in_data ?w ! ?p]"
    using w(2) r(5,6) bs by simp_all
  have up: "unat (pos + 1) = ?p + 1" "unat (pos + stride) = ?p + ?s" "unat (written + 1) = unat written + 1"
    using p(1) assms(4) Cons.prems(2) unsigned_less [of file_size, where 'a = nat]
    by (simp_all add: unat_word_ariths)
  have one: "\<not> file_size < pos + 1" using up(1) p(1) by (simp add: word_less_nat_alt)
  let ?pos = "if file_size \<le> pos + stride then (pos + stride) mod stride + 1 else pos + stride"
  have eq: "stride_loop rd wr os 1 stride file_size inpf outf pos written st =
      stride_loop rd wr os 1 stride file_size inpf outf ?pos (written + 1) st2"
    using lt s(1) sp one r(1) w(1) bs
    by (subst stride_loop.simps) (simp add: after_write_def io61_flush_def Let_def)
  have next_pos: "unat ?pos = (if ?p + ?s < ?n then ?p + ?s else Suc (?p mod ?s))"
  proof (cases "?p + ?s < ?n")
    case True
    then show ?thesis using up(2) by (simp add: word_le_nat_alt)
  next
    case False
    have "unat ((pos + stride) mod stride) = ?p mod ?s" using up(2) by (simp add: unat_mod)
    moreover have "?p mod ?s < ?s" using assms(3) by simp
    ultimately have "unat ((pos + stride) mod stride + 1) = ?p mod ?s + 1"
      using assms(4) by (simp add: unat_word_ariths)
    then show ?thesis using False up(2) by (simp add: word_le_nat_alt)
  qed
  have "\<exists>st'. stride_loop rd wr os 1 stride file_size inpf outf ?pos (written + 1) st2 = Some (Inr st')
      \<and> out_data (v (world st')) = out_data (v (world st2)) @ map (\<lambda>i. in_data (v (world st2)) ! i) rest"
  proof (rule Cons.IH)
    show "?n \<le> length (in_data (v (world st2)))" using st2(1) Cons.prems(1) by simp
    show "unat (written + 1) + length rest = ?n" using up(3) Cons.prems(2) by simp
    show "rest = [] \<or> unat ?pos < ?n \<and> rest = stride_rest ?s ?n (unat ?pos)"
      unfolding next_pos i(2) by auto
  qed
  then show ?case unfolding eq using st2 i(1) by auto
qed

end

section \<open>Properties\<close>

text \<open>A system with one input and one output in memory, which writes at most \<open>k\<close> bytes at a time.\<close>

definition file_os :: "nat \<Rightarrow> view os" where
  "file_os k =
     \<lparr>os_read = \<lambda>fd n w. (Inr (take n (unread w)), w\<lparr>in_pos := in_pos w + length (take n (unread w))\<rparr>),
      os_write = \<lambda>fd bs w. (Inr (min k (length bs)), w\<lparr>out_data := out_data w @ take (min k (length bs)) bs\<rparr>),
      os_lseek = \<lambda>fd off w. (Inr off, w\<lparr>in_pos := nat off\<rparr>),
      os_close = \<lambda>fd w. (0, w),
      os_fstat = \<lambda>fd w. Some (int (length (in_data w))),
      os_open = \<lambda>name m w. (Inr 3, w)\<rparr>"

abbreviation (input) in_file :: io61_file where "in_file \<equiv> \<lparr>fd = 0, mode = 0\<rparr>"
abbreviation (input) out_file :: io61_file where "out_file \<equiv> \<lparr>fd = 1, mode = 1\<rparr>"

lemma file_os_stream: "0 < k \<Longrightarrow> stream_os (file_os k) inpf outf id"
  by (auto simp: stream_os_def file_os_def min_def)

lemma file_os_seekable: "seekable (file_os k) inpf id"
  by (simp add: seekable_def file_os_def)

definition start_proc :: "byte list \<Rightarrow> view io_state" where
  "start_proc bs = \<lparr>errno = 0, world = \<lparr>in_data = bs, in_pos = 0, out_data = []\<rparr>\<rparr>"

lemma start_proc_simps [simp]:
  "in_data (world (start_proc bs)) = bs" "in_pos (world (start_proc bs)) = 0" "out_data (world (start_proc bs)) = []"
  by (simp_all add: start_proc_def)

text \<open>\<open>C20\<close>: \<open>blockcat61\<close> ends and copies all its input, on any input and output without errors,
  whatever \<open>read\<close> and \<open>write\<close> deliver at a time: with the library of \<open>slow-io61.cc\<close>, with the options
  \<open>-R\<close> and \<open>-W\<close>, and, if the output takes all bytes of a write, with \<open>syscall-io61.cc\<close>.\<close>

theorem blockcat61_copies:
  assumes "stream_os os inpf outf v" "0 < block_size"
  shows "(\<exists>st'. blockcat61 slow_read slow_write os flush block_size inpf outf st = Some (Inr (close_files os inpf outf st'))
      \<and> out_data (v (world st')) = out_data (v (world st)) @ unread (v (world st)))
    \<and> (\<exists>st'. blockcat61 io61_read_bytewise io61_write_bytewise os flush block_size inpf outf st
        = Some (Inr (close_files os inpf outf st'))
      \<and> out_data (v (world st')) = out_data (v (world st)) @ unread (v (world st)))
    \<and> (full_writes os outf \<longrightarrow>
      (\<exists>st'. blockcat61 syscall_read syscall_write os flush block_size inpf outf st = Some (Inr (close_files os inpf outf st'))
      \<and> out_data (v (world st')) = out_data (v (world st)) @ unread (v (world st))))"
proof (intro conjI impI)
  show "\<exists>st'. blockcat61 slow_read slow_write os flush block_size inpf outf st = Some (Inr (close_files os inpf outf st'))
      \<and> out_data (v (world st')) = out_data (v (world st)) @ unread (v (world st))"
    using slow.blockcat_loop_copies [OF assms, of flush st] by (auto simp: blockcat61_def)
  show "\<exists>st'. blockcat61 io61_read_bytewise io61_write_bytewise os flush block_size inpf outf st
        = Some (Inr (close_files os inpf outf st'))
      \<and> out_data (v (world st')) = out_data (v (world st)) @ unread (v (world st))"
    using bytewise.blockcat_loop_copies [OF assms, of flush st] by (auto simp: blockcat61_def)
  assume "full_writes os outf"
  then have "full_stream_os os inpf outf v" using assms(1) by (simp add: full_stream_os_def)
  from one_call.blockcat_loop_copies [OF this assms(2), of flush st]
  show "\<exists>st'. blockcat61 syscall_read syscall_write os flush block_size inpf outf st = Some (Inr (close_files os inpf outf st'))
      \<and> out_data (v (world st')) = out_data (v (world st)) @ unread (v (world st))"
    by (auto simp: blockcat61_def)
qed

theorem blockcat61_copies_witness:
  "\<exists>st'. blockcat61 slow_read slow_write (file_os 1) False 4 in_file out_file (start_proc (str ''hello'')) = Some (Inr st')
     \<and> out_data (world st') = str ''hello''"
proof -
  have "world (close_files (file_os 1) in_file out_file st) = world st" for st
    by (simp add: close_files_def io61_close_def file_os_def)
  then show ?thesis
    using blockcat61_copies [OF file_os_stream [of 1 in_file out_file], of 4 False "start_proc (str ''hello'')"] by auto
qed

text \<open>\<open>io61_write\<close> of \<open>syscall-io61.cc\<close> may write less than asked without any error, so
  \<open>blockcat61\<close> fails its assertion where the library of \<open>slow-io61.cc\<close> copies the input.\<close>

theorem syscall_short_write:
  "blockcat61 syscall_read syscall_write (file_os 1) False 4 in_file out_file (start_proc (str ''hello''))
     = Some (Inl (AssertFail ''nw == nr''))"
  by code_simp

text \<open>\<open>cat61\<close> copies its input up to the size given, and fails no assertion.\<close>

theorem cat61_copies:
  assumes "stream_os os inpf outf v"
  shows "\<exists>st'. cat61 os flush file_size inpf outf st = Inr (close_files os inpf outf st')
    \<and> out_data (v (world st')) = out_data (v (world st)) @ take (unat file_size) (unread (v (world st)))"
  using cat_loop_ok [OF assms, of flush "unat file_size" st] by (auto simp: cat61_def)

theorem cat61_copies_witness:
  "\<exists>st'. cat61 (file_os 1) True 3 in_file out_file (start_proc (str ''hello''))
       = Inr (close_files (file_os 1) in_file out_file st')
     \<and> out_data (world st') = str ''hel''"
  using cat61_copies [OF file_os_stream [of 1 in_file out_file], of True 3 "start_proc (str ''hello'')"]
  by (simp add: str_def)

text \<open>on a regular file, \<open>reverse61\<close> writes the first \<open>file_size\<close> bytes of its input in
  reverse, or all of them when no size is given.\<close>

theorem reverse61_reverses:
  assumes "stream_os os inpf outf v" "seekable os inpf v" "length (in_data (v (world st))) < 2 ^ 63"
    "sint file_size < 0 \<or> unat file_size \<le> length (in_data (v (world st)))"
  shows "\<exists>st'. reverse61 os flush quiet file_size inpf outf st = Inr (close_files os inpf outf st')
    \<and> out_data (v (world st')) = out_data (v (world st)) @
        rev (take (if sint file_size < 0 then length (in_data (v (world st))) else unat file_size) (in_data (v (world st))))"
proof -
  let ?data = "in_data (v (world st))"
  obtain st0 where s: "io61_seek os inpf 0 st = (0, st0)" "v (world st0) = (v (world st))\<lparr>in_pos := 0\<rparr>"
    using seek_ok [OF assms(2), of 0 st] by auto
  have size: "io61_filesize os inpf st0 = int (length ?data)"
    using assms(2) s(2) by (simp add: seekable_def io61_filesize_def)
  have all: "unat (of_int (int (length ?data)) :: u64) = length ?data"
    using assms(3) by (simp add: unat_of_nat_small)
  then have pos: "\<not> sint (of_int (int (length ?data)) :: u64) < 0"
    using assms(3) sint_low [of "of_int (int (length ?data))"] by simp
  let ?n = "if sint file_size < 0 then length ?data else unat file_size"
  have "?n \<le> length (in_data (v (world st0)))" using assms(4) s(2) by auto
  from reverse_loop_ok [OF assms(1,2) this, of flush quiet] obtain st1 where
    "reverse_loop os flush quiet inpf outf ?n st0 = Inr st1"
    "out_data (v (world st1)) = out_data (v (world st0)) @ rev (take ?n (in_data (v (world st0))))" by blast
  then show ?thesis
    using s size all pos by (auto simp: reverse61_def Let_def)
qed

theorem reverse61_reverses_witness:
  "\<exists>st'. reverse61 (file_os 1) False False (- 1) in_file out_file (start_proc (str ''hello''))
       = Inr (close_files (file_os 1) in_file out_file st')
     \<and> out_data (world st') = str ''olleh''"
  using reverse61_reverses [OF file_os_stream [of 1 in_file out_file] file_os_seekable, of "start_proc (str ''hello'')" "- 1" False False]
  by (simp add: str_def)

text \<open>\<open>C21\<close>: with blocks of one byte from the start of a regular file, \<open>stridecat61\<close> ends and writes
  the bytes by the remainder of their position modulo the stride, so each byte exactly once.\<close>

theorem stridecat61_permutes:
  assumes "stream_os os inpf outf v" "seekable os inpf v" "sint file_size < 0"
    "length (in_data (v (world st))) < 2 ^ 63" "0 < stride" "unat stride < 2 ^ 63"
  shows "\<exists>st'. stridecat61 slow_read slow_write os 1 stride 0 file_size inpf outf st
      = Some (Inr (close_files os inpf outf st'))
    \<and> out_data (v (world st')) = out_data (v (world st)) @
        map (\<lambda>i. in_data (v (world st)) ! i) (stride_order (unat stride) (length (in_data (v (world st)))))
    \<and> mset (out_data (v (world st'))) = mset (out_data (v (world st))) + mset (in_data (v (world st)))"
proof -
  let ?data = "in_data (v (world st))" and ?s = "unat stride"
  let ?fs = "of_int (int (length ?data)) :: u64"
  obtain st0 where s: "io61_seek os inpf 0 st = (0, st0)" "v (world st0) = (v (world st))\<lparr>in_pos := 0\<rparr>"
    using seek_ok [OF assms(2), of 0 st] by auto
  have size: "io61_filesize os inpf st0 = int (length ?data)"
    using assms(2) s(2) by (simp add: seekable_def io61_filesize_def)
  have all: "unat ?fs = length ?data" using assms(4) by (simp add: unat_of_nat_small)
  then have pos: "\<not> sint ?fs < 0" using assms(4) sint_low [of ?fs] by simp
  have sp: "0 < ?s" using assms(5) by (simp add: word_less_nat_alt)
  have perm: "mset (stride_order ?s (length ?data)) = mset [0 ..< length ?data]" by (rule mset_stride_order [OF sp])
  then have "length (stride_order ?s (length ?data)) = length ?data" by (metis length_upt minus_nat.diff_0 size_mset)
  then obtain st1 where st1: "stride_loop slow_read slow_write os 1 stride ?fs inpf outf 0 0 st0 = Some (Inr st1)"
    "out_data (v (world st1)) = out_data (v (world st)) @ map (\<lambda>i. ?data ! i) (stride_order ?s (length ?data))"
    using slow.stride_loop_ok [OF assms(1,2) sp, of ?fs st0 0 "stride_order ?s (length ?data)" 0]
      assms(4,6) all s(2) stride_rest_0 [OF sp, of "length ?data"] by (cases "?data = []") (auto simp: stride_order_def)
  have "mset (map (\<lambda>i. ?data ! i) (stride_order ?s (length ?data))) = mset ?data"
    using arg_cong [OF perm, of "image_mset (\<lambda>i. ?data ! i)"] by (metis map_nth mset_map)
  then have m: "mset (out_data (v (world st1))) = mset (out_data (v (world st))) + mset ?data"
    by (simp add: st1(2))
  have "stridecat61 slow_read slow_write os 1 stride 0 file_size inpf outf st = Some (Inr (close_files os inpf outf st1))"
    using s(1) size pos st1(1) assms(3) by (simp add: stridecat61_def)
  then show ?thesis using st1(2) m by blast
qed

lemma stride_order_example: "stride_order 2 (Suc (Suc (Suc (Suc (Suc 0))))) = [0, 2, 4, 1, 3]"
  by code_simp

theorem stridecat61_permutes_witness:
  "\<exists>st'. stridecat61 slow_read slow_write (file_os 1) 1 2 0 (- 1) in_file out_file (start_proc (str ''hello''))
       = Some (Inr (close_files (file_os 1) in_file out_file st'))
     \<and> out_data (world st') = str ''hloel''"
  using stridecat61_permutes [OF file_os_stream [of 1 in_file out_file] file_os_seekable,
      of "- 1" "start_proc (str ''hello'')" 2]
  by (auto simp: str_def stride_order_example)

text \<open>with blocks of two bytes and a stride of three, \<open>stridecat61\<close> copies some bytes twice
  and others never.\<close>

theorem stridecat61_loses_bytes:
  "(case stridecat61 slow_read slow_write (file_os 1) 2 3 0 (- 1) in_file out_file (start_proc (str ''abcdef'')) of
      Some (Inr st) \<Rightarrow> out_data (world st) = str ''abdecd''
    | _ \<Rightarrow> False)"
  by code_simp

end
